(* ===== verification/Prelude.thy ===== *)
theory Prelude
  imports Main "HOL-Library.Word" "HOL-Library.Sublist" "HOL-Library.Code_Target_Nat"
begin

text \<open>
  What the component theories share: the collections of rewrite rules their proofs use,
  the type of a byte string and of a fallible result, generic lemmas on lists, and the
  locale of a transition system with an invariant, which every stateful component of the
  development interprets on its own step relation.
\<close>

named_theorems parse_intros \<open>contracts of the productions of the parser\<close>

unbundle bit_operations_syntax

section \<open>Bytes\<close>

text \<open>
  A \<open>std::string\<close> or a \<open>std::string_view\<close> is a sequence of bytes; an Isabelle
  \<open>char\<close> is one byte.  \<open>byte_of\<close> is \<open>static_cast<std::uint8_t>\<close>.
\<close>

definition byte_of :: "char \<Rightarrow> nat" where
  "byte_of c = of_char c"

lemma byte_of_less [simp]: "byte_of c < 256"
  by (simp add: byte_of_def)

lemma byte_of_char_of [simp]: "n < 256 \<Longrightarrow> byte_of (char_of n) = n"
  by (simp add: byte_of_def)

lemma char_of_byte_of [simp]: "char_of (byte_of c) = c"
  by (simp add: byte_of_def)

lemma byte_of_eq_iff [simp]: "byte_of c = byte_of d \<longleftrightarrow> c = d"
  by (metis char_of_byte_of)

section \<open>Fallible results\<close>

text \<open>The value of a call that may throw: \<open>Inl\<close> the error, \<open>Inr\<close> the result.\<close>

type_synonym ('e, 'a) result = "'e + 'a"

definition bind_result :: "('e, 'a) result \<Rightarrow> ('a \<Rightarrow> ('e, 'b) result) \<Rightarrow> ('e, 'b) result" where
  "bind_result r f = (case r of Inl e \<Rightarrow> Inl e | Inr a \<Rightarrow> f a)"

lemma bind_result_simps [simp]:
  "bind_result (Inl e) f = Inl e"
  "bind_result (Inr a) f = f a"
  by (simp_all add: bind_result_def)

lemma bind_result_eq_Inr [simp]:
  "bind_result r f = Inr b \<longleftrightarrow> (\<exists>a. r = Inr a \<and> f a = Inr b)"
  by (cases r) simp_all

lemma bind_result_eq_Inl:
  "bind_result r f = Inl e \<longleftrightarrow> r = Inl e \<or> (\<exists>a. r = Inr a \<and> f a = Inl e)"
  by (cases r) simp_all

lemma bind_result_cong [fundef_cong]:
  "r = r' \<Longrightarrow> (\<And>a. r' = Inr a \<Longrightarrow> f a = g a) \<Longrightarrow> bind_result r f = bind_result r' g"
  by (cases r') simp_all

section \<open>Lists\<close>

lemma take_add_drop: "take m xs @ take n (drop m xs) = take (m + n) xs"
  by (simp add: take_add)

lemma drop_eq_Cons_nth: "n < length xs \<Longrightarrow> drop n xs = xs ! n # drop (Suc n) xs"
  by (simp add: Cons_nth_drop_Suc)

lemma take_drop_lengthD: "take (length t) (drop n xs) = t \<Longrightarrow> t \<noteq> [] \<Longrightarrow> n < length xs"
  by (metis drop_all leI length_greater_0_conv list.size(3) take_Nil)

lemma prefix_append_trans: "prefix xs ys \<Longrightarrow> prefix xs (ys @ zs)"
  by (rule prefix_order.trans) auto

section \<open>Transition systems\<close>

text \<open>
  A component with state is a set of start states and a step relation.  The laws are what a
  component proves one operation at a time; the lemma is what its clients use: the invariant
  in every reachable state.
\<close>

inductive reachable_from :: "('s \<Rightarrow> 's \<Rightarrow> bool) \<Rightarrow> 's \<Rightarrow> 's \<Rightarrow> bool" for step where
  here: "reachable_from step s s"
| further: "reachable_from step s t \<Longrightarrow> step t u \<Longrightarrow> reachable_from step s u"

lemma reachable_from_trans:
  "reachable_from step t u \<Longrightarrow> reachable_from step s t \<Longrightarrow> reachable_from step s u"
  by (induction rule: reachable_from.induct) (auto intro: reachable_from.intros)

locale invariant_system =
  fixes start :: "'s \<Rightarrow> bool"
    and step :: "'s \<Rightarrow> 's \<Rightarrow> bool"
    and inv :: "'s \<Rightarrow> bool"
  assumes inv_start: "start s \<Longrightarrow> inv s"
    and inv_step: "inv s \<Longrightarrow> step s t \<Longrightarrow> inv t"
begin

lemma inv_reachable_from: "reachable_from step s t \<Longrightarrow> inv s \<Longrightarrow> inv t"
  by (induction rule: reachable_from.induct) (auto intro: inv_step)

lemma inv_reachable: "start s \<Longrightarrow> reachable_from step s t \<Longrightarrow> inv t"
  by (blast intro: inv_start inv_reachable_from)

end

end
