(* ===== verification/Utf8.thy ===== *)
theory Utf8
  imports Prelude
begin

text \<open>
  UTF-8, which three components validate with three separate routines: the reference
  encoding of Unicode scalar values, and the decoder \<open>decode_utf8\<close> of the script lexer
  (src/src/script/Lexer.cpp) with its agreement with the reference.  The validators of the
  module specifiers and of the scheduler documents are in their own theories.

  A code point is at most \<open>0x1fffff\<close> while it is assembled, so a natural number stands for
  the 32-bit \<open>char32_t\<close> without loss (\<open>continuation_bytes_bound\<close>).
\<close>

section \<open>The reference encoding\<close>

definition is_scalar :: "nat \<Rightarrow> bool" where
  "is_scalar v \<longleftrightarrow> v \<le> 0x10ffff \<and> \<not> (0xd800 \<le> v \<and> v \<le> 0xdfff)"

definition encode_scalar :: "nat \<Rightarrow> string" where
  "encode_scalar v = map char_of
     (if v < 0x80 then [v]
      else if v < 0x800 then [0xc0 + v div 64, 0x80 + v mod 64]
      else if v < 0x10000 then [0xe0 + v div 4096, 0x80 + v div 64 mod 64, 0x80 + v mod 64]
      else [0xf0 + v div 262144, 0x80 + v div 4096 mod 64, 0x80 + v div 64 mod 64, 0x80 + v mod 64])"

definition utf8_encode :: "nat list \<Rightarrow> string" where
  "utf8_encode vs = concat (map encode_scalar vs)"

definition valid_utf8 :: "string \<Rightarrow> bool" where
  "valid_utf8 s \<longleftrightarrow> (\<exists>vs. list_all is_scalar vs \<and> s = utf8_encode vs)"

lemma utf8_encode_simps [simp]:
  "utf8_encode [] = []"
  "utf8_encode (v # vs) = encode_scalar v @ utf8_encode vs"
  "utf8_encode (vs @ ws) = utf8_encode vs @ utf8_encode ws"
  by (simp_all add: utf8_encode_def)

lemma valid_utf8_Nil [simp]: "valid_utf8 []"
  by (auto simp: valid_utf8_def intro: exI [of _ "[]"])

lemma valid_utf8_append [intro]: "valid_utf8 s \<Longrightarrow> valid_utf8 t \<Longrightarrow> valid_utf8 (s @ t)"
  unfolding valid_utf8_def by (metis list_all_append utf8_encode_simps(3))

lemma valid_utf8_encode_scalar: "is_scalar v \<Longrightarrow> valid_utf8 (encode_scalar v)"
  unfolding valid_utf8_def by (rule exI [of _ "[v]"]) simp

lemma encode_scalar_nonempty [simp]: "encode_scalar v \<noteq> []"
  by (simp add: encode_scalar_def)

lemma encode_scalar_ascii: "v < 0x80 \<Longrightarrow> encode_scalar v = [char_of v]"
  by (simp add: encode_scalar_def)

lemma valid_utf8_ascii: "byte_of c < 0x80 \<Longrightarrow> valid_utf8 [c]"
  using valid_utf8_encode_scalar [of "byte_of c"] by (simp add: encode_scalar_ascii is_scalar_def)

section \<open>The decoder of the lexer\<close>

record decoded =
  dc_value :: nat
  dc_length :: nat
  dc_valid :: bool

text \<open>The inner loop over the continuation bytes, \<open>None\<close> for the early return.\<close>

fun continuation_bytes :: "string \<Rightarrow> nat \<Rightarrow> nat \<Rightarrow> nat \<Rightarrow> nat option" where
  "continuation_bytes source position 0 val = Some val"
| "continuation_bytes source position (Suc n) val =
     (let byte = byte_of (source ! position) in
      if byte AND 0xc0 \<noteq> 0x80 then None
      else continuation_bytes source (Suc position) n (push_bit 6 val OR (byte AND 0x3f)))"

definition invalid_byte :: decoded where
  "invalid_byte = \<lparr>dc_value = 0, dc_length = 1, dc_valid = False\<rparr>"

text \<open>A sequence of \<open>len\<close> bytes whose lead byte carries the bits \<open>val\<close>.\<close>

definition decode_multi :: "string \<Rightarrow> nat \<Rightarrow> nat \<Rightarrow> nat \<Rightarrow> nat \<Rightarrow> decoded" where
  "decode_multi source offset len val minimum =
     (if offset + len > length source then invalid_byte
      else case continuation_bytes source (Suc offset) (len - 1) val of
        None \<Rightarrow> invalid_byte
      | Some v \<Rightarrow>
          if v < minimum \<or> v > 0x10ffff \<or> (v \<ge> 0xd800 \<and> v \<le> 0xdfff) then invalid_byte
          else \<lparr>dc_value = v, dc_length = len, dc_valid = True\<rparr>)"

definition decode_utf8 :: "string \<Rightarrow> nat \<Rightarrow> decoded" where
  "decode_utf8 source offset =
     (if offset \<ge> length source then \<lparr>dc_value = 0, dc_length = 0, dc_valid = False\<rparr>
      else let first = byte_of (source ! offset)
           in if first \<le> 0x7f then \<lparr>dc_value = first, dc_length = 1, dc_valid = True\<rparr>
              else if first \<ge> 0xc2 \<and> first \<le> 0xdf
                then decode_multi source offset 2 (first AND 0x1f) 0x80
              else if first \<ge> 0xe0 \<and> first \<le> 0xef
                then decode_multi source offset 3 (first AND 0x0f) 0x800
              else if first \<ge> 0xf0 \<and> first \<le> 0xf4
                then decode_multi source offset 4 (first AND 0x07) 0x10000
              else invalid_byte)"

subsection \<open>Its bit operations as arithmetic\<close>

lemma and_low_bits:
  "b AND 0x3f = b mod 64" "b AND 0x1f = b mod 32" "b AND 0x0f = b mod 16" "b AND 0x07 = b mod 8"
  for b :: nat
  using take_bit_eq_mask [of 6 b] take_bit_eq_mask [of 5 b] take_bit_eq_mask [of 4 b]
    take_bit_eq_mask [of 3 b]
  by (simp_all add: take_bit_eq_mod mask_eq_exp_minus_1)

lemma push_bit_or_mod: "push_bit 6 v OR (b mod 64) = v * 64 + b mod 64" for v b :: nat
proof -
  have "push_bit 6 v AND take_bit 6 b = 0"
    by (rule bit_eqI) (auto simp: bit_simps)
  then have "push_bit 6 v + take_bit 6 b = push_bit 6 v OR take_bit 6 b"
    by (simp add: disjunctive_add_eq_or)
  then show ?thesis by (simp add: push_bit_eq_mult take_bit_eq_mod)
qed

lemma and_192: "b AND 0xc0 = 64 * (b div 64 mod 4)" for b :: nat
proof -
  have "b AND push_bit 6 (mask 2) = push_bit 6 (take_bit 2 (drop_bit 6 b))"
    by (rule bit_eqI) (auto simp: bit_simps)
  then show ?thesis
    by (simp add: push_bit_eq_mult take_bit_eq_mod drop_bit_eq_div mask_eq_exp_minus_1)
qed

lemma continuation_iff: "b < 256 \<Longrightarrow> (b AND 0xc0 \<noteq> 0x80) = (b div 64 \<noteq> 2)" for b :: nat
  by (simp add: and_192)

lemma continuation_bytes_step:
  "continuation_bytes s p (Suc n) v =
     (if byte_of (s ! p) div 64 \<noteq> 2 then None
      else continuation_bytes s (Suc p) n (v * 64 + byte_of (s ! p) mod 64))"
  by (simp add: Let_def continuation_iff and_low_bits push_bit_or_mod)

declare continuation_bytes.simps(2) [simp del]

lemma continuation_bytes_bound:
  "continuation_bytes s p n v = Some w \<Longrightarrow> w < (v + 1) * 64 ^ n"
proof (induction n arbitrary: p v)
  case (Suc n)
  let ?v = "v * 64 + byte_of (s ! p) mod 64"
  from Suc.prems have "continuation_bytes s (Suc p) n ?v = Some w"
    by (simp add: continuation_bytes_step split: if_splits)
  then have "w < (?v + 1) * 64 ^ n" by (rule Suc.IH)
  also have "(?v + 1) * 64 ^ n \<le> ((v + 1) * 64) * 64 ^ n"
    by (rule mult_le_mono1) simp
  finally show ?case by (simp add: algebra_simps)
qed simp

subsection \<open>Agreement with the reference encoding\<close>

text \<open>The bytes of an encoding of two, three and four bytes, and the way back.\<close>

lemma continuation_byte_split: "b div 64 = 2 \<Longrightarrow> b = 0x80 + b mod 64" for b :: nat
  using div_mult_mod_eq [of b 64] by simp

lemma block_split: "n * q \<le> b \<Longrightarrow> b < n * q + n \<Longrightarrow> b = n * q + b mod n" for b :: nat
  by (metis add_diff_inverse_nat less_diff_conv2 linorder_not_less mod_less mod_mult_self4
      add.commute)

lemma lead_byte_split:
  "0xc2 \<le> b \<Longrightarrow> b \<le> 0xdf \<Longrightarrow> b = 0xc0 + b mod 32"
  "0xe0 \<le> b \<Longrightarrow> b \<le> 0xef \<Longrightarrow> b = 0xe0 + b mod 16"
  "0xf0 \<le> b \<Longrightarrow> b \<le> 0xf4 \<Longrightarrow> b = 0xf0 + b mod 8"
  for b :: nat
  using block_split [of 32 6 b] block_split [of 16 14 b] block_split [of 8 30 b] by simp_all

lemma digits64:
  "x < 64 \<Longrightarrow> (y * 64 + x) div 64 = y" "x < 64 \<Longrightarrow> (y * 64 + x) mod 64 = x"
  for x y :: nat
  by simp_all

lemma div_4096: "v div 4096 = v div 64 div 64" for v :: nat
  by (simp add: div_mult2_eq)

lemma div_262144: "v div 262144 = v div 64 div 64 div 64" for v :: nat
  by (simp add: div_mult2_eq)

lemmas encode_arith = encode_scalar_def div_4096 div_262144

lemma encode_two:
  assumes "0xc2 \<le> byte_of a" "byte_of a \<le> 0xdf" "byte_of b div 64 = 2"
  shows "encode_scalar (byte_of a mod 32 * 64 + byte_of b mod 64) = [a, b]"
proof -
  have a: "byte_of a = 0xc0 + byte_of a mod 32" and b: "byte_of b = 0x80 + byte_of b mod 64"
    using assms by (blast intro: lead_byte_split continuation_byte_split)+
  have "byte_of a mod 32 \<ge> 2" using a assms(1) by linarith
  moreover have "char_of (0xc0 + byte_of a mod 32) = a" "char_of (0x80 + byte_of b mod 64) = b"
    by (simp_all only: a [symmetric] b [symmetric] char_of_byte_of)
  ultimately show ?thesis
    by (simp add: encode_arith digits64)
qed

lemma encode_three:
  assumes "0xe0 \<le> byte_of a" "byte_of a \<le> 0xef" "byte_of b div 64 = 2" "byte_of c div 64 = 2"
    and v: "v = (byte_of a mod 16 * 64 + byte_of b mod 64) * 64 + byte_of c mod 64" "0x800 \<le> v"
  shows "encode_scalar v = [a, b, c]"
proof -
  have a: "byte_of a = 0xe0 + byte_of a mod 16" and b: "byte_of b = 0x80 + byte_of b mod 64"
    and c: "byte_of c = 0x80 + byte_of c mod 64"
    using assms by (blast intro: lead_byte_split continuation_byte_split)+
  have small: "v < 0x10000" by (simp add: v(1))
  have "v div 64 = byte_of a mod 16 * 64 + byte_of b mod 64" "v mod 64 = byte_of c mod 64"
    unfolding v(1) by (rule digits64, simp)+
  moreover have "char_of (0xe0 + byte_of a mod 16) = a" "char_of (0x80 + byte_of b mod 64) = b"
    "char_of (0x80 + byte_of c mod 64) = c"
    by (simp_all only: a [symmetric] b [symmetric] c [symmetric] char_of_byte_of)
  ultimately show ?thesis
    using small \<open>0x800 \<le> v\<close> by (simp add: encode_arith digits64)
qed

lemma encode_four:
  assumes "0xf0 \<le> byte_of a" "byte_of a \<le> 0xf4"
    "byte_of b div 64 = 2" "byte_of c div 64 = 2" "byte_of d div 64 = 2"
    and v: "v = ((byte_of a mod 8 * 64 + byte_of b mod 64) * 64 + byte_of c mod 64) * 64
      + byte_of d mod 64" "0x10000 \<le> v"
  shows "encode_scalar v = [a, b, c, d]"
proof -
  have a: "byte_of a = 0xf0 + byte_of a mod 8" and b: "byte_of b = 0x80 + byte_of b mod 64"
    and c: "byte_of c = 0x80 + byte_of c mod 64" and d: "byte_of d = 0x80 + byte_of d mod 64"
    using assms by (blast intro: lead_byte_split continuation_byte_split)+
  define w where "w = byte_of a mod 8 * 64 + byte_of b mod 64"
  define u where "u = w * 64 + byte_of c mod 64"
  have "v div 64 = u" "v mod 64 = byte_of d mod 64" "u div 64 = w" "u mod 64 = byte_of c mod 64"
    "w div 64 = byte_of a mod 8" "w mod 64 = byte_of b mod 64"
    unfolding v(1) u_def w_def by (rule digits64, simp)+
  moreover have "char_of (0xf0 + byte_of a mod 8) = a" "char_of (0x80 + byte_of b mod 64) = b"
    "char_of (0x80 + byte_of c mod 64) = c" "char_of (0x80 + byte_of d mod 64) = d"
    by (simp_all only: a [symmetric] b [symmetric] c [symmetric] d [symmetric] char_of_byte_of)
  ultimately show ?thesis
    using \<open>0x10000 \<le> v\<close> by (simp add: encode_arith)
qed


text \<open>What the decoder returns when it reports a valid sequence, and on which input it does.\<close>

lemma take_drop_Cons:
  "n < length s \<Longrightarrow> take (Suc k) (drop n s) = s ! n # take k (drop (Suc n) s)"
  by (simp add: drop_eq_Cons_nth)

lemma continuation_bytes_Suc_Some:
  "continuation_bytes s p (Suc n) v = Some w \<longleftrightarrow>
     byte_of (s ! p) div 64 = 2 \<and>
     continuation_bytes s (Suc p) n (v * 64 + byte_of (s ! p) mod 64) = Some w"
  by (simp add: continuation_bytes_step)

lemma decode_multi_validD:
  assumes "dc_valid (decode_multi s n len val minimum)"
  obtains v where "decode_multi s n len val minimum = \<lparr>dc_value = v, dc_length = len, dc_valid = True\<rparr>"
    "n + len \<le> length s" "continuation_bytes s (Suc n) (len - 1) val = Some v"
    "minimum \<le> v" "is_scalar v"
  using assms by (auto simp: decode_multi_def invalid_byte_def is_scalar_def split: if_splits option.splits)

lemma decode_two:
  assumes "dc_valid (decode_multi s n 2 (byte_of (s ! n) mod 32) 0x80)"
    and "0xc2 \<le> byte_of (s ! n)" "byte_of (s ! n) \<le> 0xdf"
  obtains v where
    "decode_multi s n 2 (byte_of (s ! n) mod 32) 0x80 = \<lparr>dc_value = v, dc_length = 2, dc_valid = True\<rparr>"
    "n + 2 \<le> length s" "take 2 (drop n s) = encode_scalar v" "is_scalar v" "0x80 \<le> v"
proof (rule decode_multi_validD [OF assms(1)])
  fix v assume *: "n + 2 \<le> length s" "0x80 \<le> v" "is_scalar v"
    "continuation_bytes s (Suc n) (2 - 1) (byte_of (s ! n) mod 32) = Some v"
    "decode_multi s n 2 (byte_of (s ! n) mod 32) 0x80 = \<lparr>dc_value = v, dc_length = 2, dc_valid = True\<rparr>"
  then have "encode_scalar v = [s ! n, s ! Suc n]"
    using encode_two [OF assms(2,3)] by (auto simp: continuation_bytes_Suc_Some)
  with * show ?thesis by (intro that [of v]) (simp_all add: numeral_2_eq_2 take_drop_Cons)
qed

lemma decode_three:
  assumes "dc_valid (decode_multi s n 3 (byte_of (s ! n) mod 16) 0x800)"
    and "0xe0 \<le> byte_of (s ! n)" "byte_of (s ! n) \<le> 0xef"
  obtains v where
    "decode_multi s n 3 (byte_of (s ! n) mod 16) 0x800 = \<lparr>dc_value = v, dc_length = 3, dc_valid = True\<rparr>"
    "n + 3 \<le> length s" "take 3 (drop n s) = encode_scalar v" "is_scalar v" "0x800 \<le> v"
proof (rule decode_multi_validD [OF assms(1)])
  fix v assume *: "n + 3 \<le> length s" "0x800 \<le> v" "is_scalar v"
    "continuation_bytes s (Suc n) (3 - 1) (byte_of (s ! n) mod 16) = Some v"
    "decode_multi s n 3 (byte_of (s ! n) mod 16) 0x800 = \<lparr>dc_value = v, dc_length = 3, dc_valid = True\<rparr>"
  have "(3 - 1 :: nat) = Suc (Suc 0)" by simp
  with * have "encode_scalar v = [s ! n, s ! Suc n, s ! Suc (Suc n)]"
    by (intro encode_three [OF assms(2,3)]) (simp_all only: continuation_bytes_Suc_Some continuation_bytes.simps(1) option.inject)
  with * show ?thesis by (intro that [of v]) (simp_all add: numeral_3_eq_3 take_drop_Cons)
qed

lemma decode_four:
  assumes "dc_valid (decode_multi s n 4 (byte_of (s ! n) mod 8) 0x10000)"
    and "0xf0 \<le> byte_of (s ! n)" "byte_of (s ! n) \<le> 0xf4"
  obtains v where
    "decode_multi s n 4 (byte_of (s ! n) mod 8) 0x10000 = \<lparr>dc_value = v, dc_length = 4, dc_valid = True\<rparr>"
    "n + 4 \<le> length s" "take 4 (drop n s) = encode_scalar v" "is_scalar v" "0x10000 \<le> v"
proof (rule decode_multi_validD [OF assms(1)])
  fix v assume *: "n + 4 \<le> length s" "0x10000 \<le> v" "is_scalar v"
    "continuation_bytes s (Suc n) (4 - 1) (byte_of (s ! n) mod 8) = Some v"
    "decode_multi s n 4 (byte_of (s ! n) mod 8) 0x10000 = \<lparr>dc_value = v, dc_length = 4, dc_valid = True\<rparr>"
  have four: "(4 - 1 :: nat) = Suc (Suc (Suc 0))" "4 = Suc (Suc (Suc (Suc 0)))" by simp_all
  with * have "encode_scalar v = [s ! n, s ! Suc n, s ! Suc (Suc n), s ! Suc (Suc (Suc n))]"
    by (intro encode_four [OF assms(2,3)]) (simp_all only: continuation_bytes_Suc_Some continuation_bytes.simps(1) option.inject)
  with * show ?thesis by (intro that [of v]) (simp_all add: four(2) take_drop_Cons)
qed

lemma decode_utf8_cases:
  assumes "dc_valid (decode_utf8 s n)"
  obtains (one) "n < length s" "byte_of (s ! n) \<le> 0x7f"
      "decode_utf8 s n = \<lparr>dc_value = byte_of (s ! n), dc_length = 1, dc_valid = True\<rparr>"
  | (many) k v where "decode_utf8 s n = \<lparr>dc_value = v, dc_length = k, dc_valid = True\<rparr>"
      "n + k \<le> length s" "take k (drop n s) = encode_scalar v" "is_scalar v" "v \<ge> 0x80" "k > 1"
proof -
  let ?a = "byte_of (s ! n)"
  have n: "n < length s" using assms by (simp add: decode_utf8_def split: if_splits)
  consider "?a \<le> 0x7f" | "0xc2 \<le> ?a" "?a \<le> 0xdf" | "0xe0 \<le> ?a" "?a \<le> 0xef" | "0xf0 \<le> ?a" "?a \<le> 0xf4"
    using assms n by (auto simp: decode_utf8_def Let_def invalid_byte_def split: if_splits)
  then show ?thesis
  proof cases
    case 1
    with n show ?thesis by (intro one) (simp_all add: decode_utf8_def)
  next
    case 2
    with n have eq: "decode_utf8 s n = decode_multi s n 2 (?a mod 32) 0x80"
      by (simp add: decode_utf8_def and_low_bits)
    show ?thesis
      by (rule decode_two [OF assms [unfolded eq] 2])
        (rule many [unfolded eq], assumption, assumption, assumption, assumption, simp_all)
  next
    case 3
    with n have eq: "decode_utf8 s n = decode_multi s n 3 (?a mod 16) 0x800"
      by (simp add: decode_utf8_def and_low_bits)
    show ?thesis
      by (rule decode_three [OF assms [unfolded eq] 3])
        (rule many [unfolded eq], assumption, assumption, assumption, assumption, simp_all)
  next
    case 4
    with n have eq: "decode_utf8 s n = decode_multi s n 4 (?a mod 8) 0x10000"
      by (simp add: decode_utf8_def and_low_bits)
    show ?thesis
      by (rule decode_four [OF assms [unfolded eq] 4])
        (rule many [unfolded eq], assumption, assumption, assumption, assumption, simp_all)
  qed
qed

lemma decode_utf8_valid_prefix:
  assumes "dc_valid (decode_utf8 s n)"
  shows "n + dc_length (decode_utf8 s n) \<le> length s" "dc_length (decode_utf8 s n) > 0"
    "is_scalar (dc_value (decode_utf8 s n))"
    "take (dc_length (decode_utf8 s n)) (drop n s) = encode_scalar (dc_value (decode_utf8 s n))"
  using assms
  by (cases rule: decode_utf8_cases;
      simp add: take_drop_Cons encode_scalar_ascii is_scalar_def)+

text \<open>The other direction: the encoding of a scalar value is decoded to that val.\<close>

lemma nth_of_take_drop: "take k (drop n s) = t \<Longrightarrow> i < length t \<Longrightarrow> s ! (n + i) = t ! i"
  by auto

lemma encode_scalar_length:
  "length (encode_scalar v) = (if v < 0x80 then 1 else if v < 0x800 then 2 else if v < 0x10000 then 3 else 4)"
  unfolding encode_scalar_def by auto

lemma continuation_byte_low:
  "(0x80 + x mod 64) div 64 = 2" "(0x80 + x mod 64) mod 64 = x mod 64" for x :: nat
  by (simp_all add: mod_add_left_eq [of "128::nat" 64, symmetric])

lemma decode_encode_two:
  assumes "take (length (encode_scalar v)) (drop n s) = encode_scalar v" "0x80 \<le> v" "v < 0x800"
  shows "decode_utf8 s n = \<lparr>dc_value = v, dc_length = 2, dc_valid = True\<rparr>"
proof -
  have e: "encode_scalar v = [char_of (0xc0 + v div 64), char_of (0x80 + v mod 64)]"
    using assms by (simp add: encode_scalar_def)
  have n: "n + 2 \<le> length s"
    using arg_cong [OF assms(1), of length] by (simp add: e)
  have b: "s ! n = char_of (0xc0 + v div 64)" "s ! Suc n = char_of (0x80 + v mod 64)"
    using nth_of_take_drop [OF assms(1), of 0] nth_of_take_drop [OF assms(1), of 1] by (simp_all add: e)
  have r: "v div 64 < 32" "v div 64 \<ge> 2" using assms(2,3) by (simp_all add: div_less_iff_less_mult less_eq_div_iff_mult_less_eq)
  then have "byte_of (s ! n) = 0xc0 + v div 64" by (simp add: b)
  moreover have "byte_of (s ! Suc n) = 0x80 + v mod 64" by (simp add: b)
  moreover have "(0xc0 + v div 64) mod 32 = v div 64" using r by (simp add: mod_add_left_eq [of "192::nat" 32, symmetric])
  moreover have "continuation_bytes s (Suc n) (2 - 1) (v div 64) = Some v"
    using calculation by (simp add: continuation_bytes_step continuation_byte_low)
  ultimately show ?thesis
    using n r assms by (simp add: decode_utf8_def and_low_bits decode_multi_def)
qed

lemma decode_encode_three:
  assumes "take (length (encode_scalar v)) (drop n s) = encode_scalar v" "0x800 \<le> v" "v < 0x10000"
    "is_scalar v"
  shows "decode_utf8 s n = \<lparr>dc_value = v, dc_length = 3, dc_valid = True\<rparr>"
proof -
  define w where "w = v div 64"
  have e: "encode_scalar v = [char_of (0xe0 + w div 64), char_of (0x80 + w mod 64), char_of (0x80 + v mod 64)]"
    using assms(2,3) by (simp add: encode_arith w_def)
  have n: "n + 3 \<le> length s"
    using arg_cong [OF assms(1), of length] by (simp add: e)
  have b: "s ! n = char_of (0xe0 + w div 64)" "s ! Suc n = char_of (0x80 + w mod 64)"
    "s ! Suc (Suc n) = char_of (0x80 + v mod 64)"
    using nth_of_take_drop [OF assms(1), of 0] nth_of_take_drop [OF assms(1), of 1]
      nth_of_take_drop [OF assms(1), of 2] by (simp_all add: e)
  have "w < 1024" using assms(3) by (simp add: w_def div_less_iff_less_mult)
  then have r: "w div 64 < 16" by (simp add: div_less_iff_less_mult)
  have bytes: "byte_of (s ! n) = 0xe0 + w div 64" "byte_of (s ! Suc n) = 0x80 + w mod 64"
    "byte_of (s ! Suc (Suc n)) = 0x80 + v mod 64" using r by (simp_all add: b)
  have "(0xe0 + w div 64) mod 16 = w div 64"
    using r by (simp add: mod_add_left_eq [of "224::nat" 16, symmetric])
  moreover have "w div 64 * 64 + w mod 64 = v div 64" "v div 64 * 64 + v mod 64 = v" by (simp_all add: w_def)
  then have "continuation_bytes s (Suc n) (3 - 1) (w div 64) = Some v"
    by (simp add: numeral_2_eq_2 continuation_bytes_step bytes continuation_byte_low)
  ultimately show ?thesis
    using n r assms by (auto simp: decode_utf8_def and_low_bits decode_multi_def bytes is_scalar_def)
qed

lemma decode_encode_four:
  assumes "take (length (encode_scalar v)) (drop n s) = encode_scalar v" "0x10000 \<le> v" "is_scalar v"
  shows "decode_utf8 s n = \<lparr>dc_value = v, dc_length = 4, dc_valid = True\<rparr>"
proof -
  define w where "w = v div 64"
  define u where "u = w div 64"
  have e: "encode_scalar v = [char_of (0xf0 + u div 64), char_of (0x80 + u mod 64),
      char_of (0x80 + w mod 64), char_of (0x80 + v mod 64)]"
    using assms(2) by (simp add: encode_arith w_def u_def)
  have n: "n + 4 \<le> length s"
    using arg_cong [OF assms(1), of length] by (simp add: e)
  have b: "s ! n = char_of (0xf0 + u div 64)" "s ! Suc n = char_of (0x80 + u mod 64)"
    "s ! Suc (Suc n) = char_of (0x80 + w mod 64)" "s ! Suc (Suc (Suc n)) = char_of (0x80 + v mod 64)"
    using nth_of_take_drop [OF assms(1), of 0] nth_of_take_drop [OF assms(1), of 1]
      nth_of_take_drop [OF assms(1), of 2] nth_of_take_drop [OF assms(1), of 3] by (simp_all add: e numeral_3_eq_3)
  have "v < 0x110000" using assms(3) by (simp add: is_scalar_def)
  then have "w < 0x4400" by (simp add: w_def div_less_iff_less_mult)
  then have "u < 0x110" by (simp add: u_def div_less_iff_less_mult)
  then have r: "u div 64 \<le> 4" by (simp add: less_Suc_eq_le [symmetric] div_less_iff_less_mult)
  have bytes: "byte_of (s ! n) = 0xf0 + u div 64" "byte_of (s ! Suc n) = 0x80 + u mod 64"
    "byte_of (s ! Suc (Suc n)) = 0x80 + w mod 64" "byte_of (s ! Suc (Suc (Suc n))) = 0x80 + v mod 64"
    using r by (simp_all add: b)
  have "(0xf0 + u div 64) mod 8 = u div 64"
    using r by (simp add: mod_add_left_eq [of "240::nat" 8, symmetric])
  moreover have "u div 64 * 64 + u mod 64 = w div 64" "w div 64 * 64 + w mod 64 = v div 64"
    "v div 64 * 64 + v mod 64 = v" by (simp_all add: w_def u_def)
  then have "continuation_bytes s (Suc n) (4 - 1) (u div 64) = Some v"
    by (simp add: numeral_3_eq_3 continuation_bytes_step bytes continuation_byte_low)
  ultimately show ?thesis
    using n r assms by (auto simp: decode_utf8_def and_low_bits decode_multi_def bytes is_scalar_def)
qed

lemma decode_encode:
  assumes "is_scalar v" "take (length (encode_scalar v)) (drop n s) = encode_scalar v"
  shows "decode_utf8 s n = \<lparr>dc_value = v, dc_length = length (encode_scalar v), dc_valid = True\<rparr>"
proof -
  consider "v < 0x80" | "0x80 \<le> v" "v < 0x800" | "0x800 \<le> v" "v < 0x10000" | "0x10000 \<le> v"
    by linarith
  then show ?thesis
  proof cases
    case 1
    with assms(2) have "n < length s" "s ! n = char_of v"
      using nth_of_take_drop [OF assms(2), of 0] take_drop_lengthD [OF assms(2)]
      by (simp_all add: encode_scalar_ascii)
    with 1 show ?thesis by (simp add: decode_utf8_def encode_scalar_ascii)
  qed (use assms in \<open>simp_all add: encode_scalar_length decode_encode_two decode_encode_three
      decode_encode_four\<close>)
qed

section \<open>The interface the scanners rely on\<close>

text \<open>
  A decoder of the scalar value at an offset, as its clients use it: it accepts exactly the
  reference encodings, and reports the number of bytes to skip.
\<close>

locale scalar_decoder =
  fixes decode :: "string \<Rightarrow> nat \<Rightarrow> decoded"
  assumes decode_accepts:
      "is_scalar v \<Longrightarrow> take (length (encode_scalar v)) (drop n s) = encode_scalar v \<Longrightarrow>
       decode s n = \<lparr>dc_value = v, dc_length = length (encode_scalar v), dc_valid = True\<rparr>"
    and decode_only:
      "dc_valid (decode s n) \<Longrightarrow>
       is_scalar (dc_value (decode s n)) \<and> n + dc_length (decode s n) \<le> length s \<and>
       take (dc_length (decode s n)) (drop n s) = encode_scalar (dc_value (decode s n))"
begin

lemma decode_length_pos: "dc_valid (decode s n) \<Longrightarrow> dc_length (decode s n) > 0"
  using decode_only [of s n] by (metis encode_scalar_nonempty gr0I take_0)

lemma decode_iff:
  "dc_valid (decode s n) \<and> dc_value (decode s n) = v \<longleftrightarrow>
   is_scalar v \<and> take (length (encode_scalar v)) (drop n s) = encode_scalar v"
  (is "?l \<longleftrightarrow> ?r")
proof
  assume l: ?l
  with decode_only [of s n] have t: "n + dc_length (decode s n) \<le> length s" "is_scalar v"
    "take (dc_length (decode s n)) (drop n s) = encode_scalar v" by auto
  then have "length (encode_scalar v) = dc_length (decode s n)"
    by (simp flip: t(3))
  with t show ?r by simp
qed (auto simp: decode_accepts)

lemma valid_utf8_step:
  assumes "n < length s"
  shows "valid_utf8 (drop n s) \<longleftrightarrow>
    dc_valid (decode s n) \<and> valid_utf8 (drop (n + dc_length (decode s n)) s)" (is "?l \<longleftrightarrow> ?r")
proof
  assume ?l
  then obtain vs where vs: "list_all is_scalar vs" "drop n s = utf8_encode vs"
    by (auto simp: valid_utf8_def)
  with assms obtain v ws where "vs = v # ws" by (cases vs) auto
  with vs have v: "is_scalar v" "drop n s = encode_scalar v @ utf8_encode ws" "list_all is_scalar ws"
    by simp_all
  then have "decode s n = \<lparr>dc_value = v, dc_length = length (encode_scalar v), dc_valid = True\<rparr>"
    by (intro decode_accepts) simp_all
  moreover have "drop (n + length (encode_scalar v)) s = utf8_encode ws"
    using arg_cong [OF v(2), of "drop (length (encode_scalar v))"] by (simp add: add.commute)
  ultimately show ?r using v(3) by (auto simp: valid_utf8_def)
next
  let ?k = "dc_length (decode s n)"
  assume r: ?r
  then have "valid_utf8 (take ?k (drop n s))"
    using decode_only [of s n] valid_utf8_encode_scalar by simp
  moreover have "drop n s = take ?k (drop n s) @ drop (n + ?k) s"
    by (metis add.commute append_take_drop_id drop_drop)
  ultimately show ?l using r by (metis valid_utf8_append)
qed

lemma valid_utf8_extend:
  assumes "valid_utf8 (take n s)" "dc_valid (decode s n)"
  shows "valid_utf8 (take (n + dc_length (decode s n)) s)"
  using assms decode_only [OF assms(2)] valid_utf8_encode_scalar
  by (metis take_add valid_utf8_append)

end

interpretation lexer_decoder: scalar_decoder decode_utf8
  by unfold_locales (simp_all add: decode_encode decode_utf8_valid_prefix)

text \<open>C36 (decode_utf8_correct): the decoder accepts exactly the UTF-8 encodings of Unicode
  scalar values: it reports the value v at offset n if and only if v is a scalar value (no
  surrogate, at most 0x10FFFF) and the bytes at n are the shortest-form encoding of v.\<close>

theorem decode_utf8_correct:
  "dc_valid (decode_utf8 s n) \<and> dc_value (decode_utf8 s n) = v \<longleftrightarrow>
   is_scalar v \<and> take (length (encode_scalar v)) (drop n s) = encode_scalar v"
  by (rule lexer_decoder.decode_iff)

end
