(* ===== verification/Tokens.thy ===== *)
theory Tokens
  imports Utf8
begin

text \<open>
  The data the phases of the script front end exchange: source positions
  (src/include/script/SourceLocation.h), diagnostics (src/include/script/Diagnostic.h), token
  kinds and tokens (src/include/script/Token.h, src/src/script/Token.cpp), and the interface
  of a token stream, which the lexer provides and the parser consumes.
\<close>

section \<open>Positions and diagnostics\<close>

record source_location =
  loc_offset :: nat
  loc_line :: nat
  loc_column :: nat

record source_span =
  span_begin :: source_location
  span_end :: source_location

datatype diagnostic_severity = SevError | SevWarning

record diagnostic =
  diag_severity :: diagnostic_severity
  diag_code :: string
  diag_message :: string
  diag_span :: source_span

text \<open>\<open>has_errors\<close> of a lexer, parser, analyzer or syntax check result.\<close>

definition has_errors :: "diagnostic list \<Rightarrow> bool" where
  "has_errors ds \<longleftrightarrow> list_ex (\<lambda>d. diag_severity d = SevError) ds"

lemma has_errors_simps [simp]:
  "has_errors [] \<longleftrightarrow> False"
  "has_errors (d # ds) \<longleftrightarrow> diag_severity d = SevError \<or> has_errors ds"
  "has_errors (ds @ es) \<longleftrightarrow> has_errors ds \<or> has_errors es"
  by (simp_all add: has_errors_def)

lemma has_errors_prefix: "prefix ds es \<Longrightarrow> has_errors ds \<Longrightarrow> has_errors es"
  by (auto simp: prefix_def)

section \<open>Tokens\<close>

datatype (plugins only: code size) token_kind =
    TEndOfFile | TIdentifier | TInteger | TFloat | TString | TLet | TFn | TIf | TElse
    | TWhile | TFor | TIn | TReturn | TBreak | TContinue | TImport | TAs | TTrue | TFalse
    | TNull | TTry | TCatch | TThrow | TDefer | TAsync | TAwait | TAnd | TOr | TNot | TIs
    | TPlus | TMinus | TStar | TPower | TSlash | TFloorDivide | TPercent | TEqual
    | TEqualEqual | TBang | TBangEqual | TLess | TLessEqual | TGreater | TGreaterEqual
    | TAndAnd | TOrOr | TAmpersand | TPipe | TCaret | TTilde | TPlusEqual | TMinusEqual
    | TStarEqual | TPowerEqual | TSlashEqual | TFloorDivideEqual | TPercentEqual | TPlusPlus
    | TMinusMinus | TArrow | TFatArrow | TDot | TDotDot | TComma | TColon | TSemicolon
    | TQuestion | TLeftParen | TRightParen | TLeftBracket | TRightBracket | TLeftBrace
    | TRightBrace

record token =
  tok_kind :: token_kind
  tok_lexeme :: string
  tok_value :: string
  tok_span :: source_span

primrec token_kind_name :: "token_kind \<Rightarrow> string" where
  "token_kind_name TEndOfFile = ''EndOfFile''"
| "token_kind_name TIdentifier = ''Identifier''"
| "token_kind_name TInteger = ''Integer''"
| "token_kind_name TFloat = ''Float''"
| "token_kind_name TString = ''String''"
| "token_kind_name TLet = ''Let''"
| "token_kind_name TFn = ''Fn''"
| "token_kind_name TIf = ''If''"
| "token_kind_name TElse = ''Else''"
| "token_kind_name TWhile = ''While''"
| "token_kind_name TFor = ''For''"
| "token_kind_name TIn = ''In''"
| "token_kind_name TReturn = ''Return''"
| "token_kind_name TBreak = ''Break''"
| "token_kind_name TContinue = ''Continue''"
| "token_kind_name TImport = ''Import''"
| "token_kind_name TAs = ''As''"
| "token_kind_name TTrue = ''True''"
| "token_kind_name TFalse = ''False''"
| "token_kind_name TNull = ''Null''"
| "token_kind_name TTry = ''Try''"
| "token_kind_name TCatch = ''Catch''"
| "token_kind_name TThrow = ''Throw''"
| "token_kind_name TDefer = ''Defer''"
| "token_kind_name TAsync = ''Async''"
| "token_kind_name TAwait = ''Await''"
| "token_kind_name TAnd = ''And''"
| "token_kind_name TOr = ''Or''"
| "token_kind_name TNot = ''Not''"
| "token_kind_name TIs = ''Is''"
| "token_kind_name TPlus = ''Plus''"
| "token_kind_name TMinus = ''Minus''"
| "token_kind_name TStar = ''Star''"
| "token_kind_name TPower = ''Power''"
| "token_kind_name TSlash = ''Slash''"
| "token_kind_name TFloorDivide = ''FloorDivide''"
| "token_kind_name TPercent = ''Percent''"
| "token_kind_name TEqual = ''Equal''"
| "token_kind_name TEqualEqual = ''EqualEqual''"
| "token_kind_name TBang = ''Bang''"
| "token_kind_name TBangEqual = ''BangEqual''"
| "token_kind_name TLess = ''Less''"
| "token_kind_name TLessEqual = ''LessEqual''"
| "token_kind_name TGreater = ''Greater''"
| "token_kind_name TGreaterEqual = ''GreaterEqual''"
| "token_kind_name TAndAnd = ''AndAnd''"
| "token_kind_name TOrOr = ''OrOr''"
| "token_kind_name TAmpersand = ''Ampersand''"
| "token_kind_name TPipe = ''Pipe''"
| "token_kind_name TCaret = ''Caret''"
| "token_kind_name TTilde = ''Tilde''"
| "token_kind_name TPlusEqual = ''PlusEqual''"
| "token_kind_name TMinusEqual = ''MinusEqual''"
| "token_kind_name TStarEqual = ''StarEqual''"
| "token_kind_name TPowerEqual = ''PowerEqual''"
| "token_kind_name TSlashEqual = ''SlashEqual''"
| "token_kind_name TFloorDivideEqual = ''FloorDivideEqual''"
| "token_kind_name TPercentEqual = ''PercentEqual''"
| "token_kind_name TPlusPlus = ''PlusPlus''"
| "token_kind_name TMinusMinus = ''MinusMinus''"
| "token_kind_name TArrow = ''Arrow''"
| "token_kind_name TFatArrow = ''FatArrow''"
| "token_kind_name TDot = ''Dot''"
| "token_kind_name TDotDot = ''DotDot''"
| "token_kind_name TComma = ''Comma''"
| "token_kind_name TColon = ''Colon''"
| "token_kind_name TSemicolon = ''Semicolon''"
| "token_kind_name TQuestion = ''Question''"
| "token_kind_name TLeftParen = ''LeftParen''"
| "token_kind_name TRightParen = ''RightParen''"
| "token_kind_name TLeftBracket = ''LeftBracket''"
| "token_kind_name TRightBracket = ''RightBracket''"
| "token_kind_name TLeftBrace = ''LeftBrace''"
| "token_kind_name TRightBrace = ''RightBrace''"

section \<open>Slices of the source\<close>

definition slice :: "string \<Rightarrow> nat \<Rightarrow> nat \<Rightarrow> string" where
  "slice source m n = take (n - m) (drop m source)"

lemma slice_same [simp]: "slice source n n = []"
  by (simp add: slice_def)

lemma slice_append: "m \<le> n \<Longrightarrow> n \<le> k \<Longrightarrow> slice source m n @ slice source n k = slice source m k"
  using take_add [of "n - m" "k - n" "drop m source"] by (simp add: slice_def add.commute)

lemma length_slice: "n \<le> length source \<Longrightarrow> length (slice source m n) = n - m"
  by (simp add: slice_def)

section \<open>The interface between lexer and parser\<close>

text \<open>
  What the parser relies on: the token sequence is not empty, its last token is the only one
  of kind end of file, and the spans of the tokens follow each other in the source.
\<close>

definition token_before :: "token \<Rightarrow> token \<Rightarrow> bool" where
  "token_before t u \<longleftrightarrow> loc_offset (span_end (tok_span t)) \<le> loc_offset (span_begin (tok_span u))"

locale token_stream =
  fixes tokens :: "token list"
  assumes nonempty: "tokens \<noteq> []"
    and last_eof: "tok_kind (last tokens) = TEndOfFile"
    and only_eof: "t \<in> set (butlast tokens) \<Longrightarrow> tok_kind t \<noteq> TEndOfFile"
    and ordered: "sorted_wrt token_before tokens"
    and spanned: "t \<in> set tokens \<Longrightarrow>
      loc_offset (span_begin (tok_span t)) \<le> loc_offset (span_end (tok_span t))"
begin

lemma eof_iff_last: "i < length tokens \<Longrightarrow> tok_kind (tokens ! i) = TEndOfFile \<longleftrightarrow> i = length tokens - 1"
proof
  assume i: "i < length tokens" and k: "tok_kind (tokens ! i) = TEndOfFile"
  show "i = length tokens - 1"
  proof (rule ccontr)
    assume "i \<noteq> length tokens - 1"
    with i have "i < length (butlast tokens)" by simp
    then show False using only_eof k by (metis nth_butlast nth_mem)
  qed
qed (use last_eof nonempty in \<open>simp add: last_conv_nth\<close>)

lemma tokens_in_order:
  "i < j \<Longrightarrow> j < length tokens \<Longrightarrow>
   loc_offset (span_begin (tok_span (tokens ! i))) \<le> loc_offset (span_begin (tok_span (tokens ! j)))"
  using sorted_wrt_nth_less [OF ordered, of i j] spanned [of "tokens ! i"]
  by (simp add: token_before_def)

end

end
