(* ===== verification/Ast.thy ===== *)
theory Ast
  imports Tokens
begin

text \<open>
  The syntax tree of the script language (src/include/script/Ast.h).  Every node class is a
  constructor with its span first and its fields in the order of the class; the structures
  \<open>MapEntry\<close>, \<open>Parameter\<close> and \<open>CallArgument\<close> and the class
  \<open>BlockStatement\<close>, which other nodes hold by its own type, are datatypes of their own.
  A shared pointer is the node it points to (the tree is immutable and has no sharing the code
  depends on), and a pointer that may be null is an option.
\<close>

section \<open>Literals and operators\<close>

text \<open>
  The variant \<open>LiteralValue\<close>: an \<open>int64_t\<close> is a 64-bit word read as signed, a
  \<open>double\<close> the 64-bit word of its IEEE 754 representation.
\<close>

datatype literal_value =
    LitNull
  | LitBool bool
  | LitInteger "64 word"
  | LitFloat "64 word"
  | LitString string

datatype unary_operator = UnaryPlus | UnaryMinus | UnaryNot

datatype (plugins only: code size) binary_operator =
    BinOr | BinAnd | BinEqual | BinNotEqual | BinIs | BinNotIs | BinLess | BinLessEqual
  | BinGreater | BinGreaterEqual | BinIn | BinNotIn | BinAdd | BinSubtract | BinMultiply
  | BinDivide | BinFloorDivide | BinModulo | BinPower

datatype assignment_operator =
    AssignPlain | AssignAdd | AssignSubtract | AssignMultiply | AssignDivide
  | AssignFloorDivide | AssignModulo

section \<open>Nodes\<close>

datatype (plugins only: code size) expression =
    LiteralExpression source_span literal_value
  | IdentifierExpression source_span string
  | ListExpression source_span "expression list"
  | MapExpression source_span "map_entry list"
  | FunctionExpression source_span bool "parameter list" block
  | UnaryExpression source_span unary_operator expression
  | BinaryExpression source_span binary_operator expression expression
  | AssignmentExpression source_span assignment_operator expression expression
  | MemberExpression source_span expression string
  | IndexExpression source_span expression expression
  | SliceExpression source_span expression "expression option" "expression option" "expression option"
  | CallExpression source_span expression "call_argument list"
  | AwaitExpression source_span expression
and map_entry = MapEntry expression expression source_span
and parameter = Parameter string "expression option" source_span
and call_argument = CallArgument "string option" expression source_span
and block = Block source_span "statement list"
and statement =
    BlockStatement block
  | LetStatement source_span string expression
  | ExpressionStatement source_span expression
  | IfStatement source_span expression statement "statement option"
  | WhileStatement source_span expression statement
  | ForStatement source_span string expression statement
  | FunctionDeclaration source_span string bool "parameter list" block
  | ReturnStatement source_span "expression option"
  | BreakStatement source_span
  | ContinueStatement source_span
  | ImportStatement source_span string string
  | ThrowStatement source_span expression
  | TryCatchStatement source_span block string block
  | DeferStatement source_span statement

fun block_span :: "block \<Rightarrow> source_span" where
  "block_span (Block sp ss) = sp"

fun block_statements :: "block \<Rightarrow> statement list" where
  "block_statements (Block sp ss) = ss"

definition expression_span :: "expression \<Rightarrow> source_span" where
  "expression_span e = (case e of
      LiteralExpression sp v \<Rightarrow> sp | IdentifierExpression sp n \<Rightarrow> sp | ListExpression sp es \<Rightarrow> sp
    | MapExpression sp es \<Rightarrow> sp | FunctionExpression sp a ps b \<Rightarrow> sp | UnaryExpression sp f x \<Rightarrow> sp
    | BinaryExpression sp f l r \<Rightarrow> sp | AssignmentExpression sp f l r \<Rightarrow> sp
    | MemberExpression sp x n \<Rightarrow> sp | IndexExpression sp x i \<Rightarrow> sp
    | SliceExpression sp x a b c \<Rightarrow> sp | CallExpression sp f as \<Rightarrow> sp | AwaitExpression sp x \<Rightarrow> sp)"

definition statement_span :: "statement \<Rightarrow> source_span" where
  "statement_span s = (case s of
      BlockStatement b \<Rightarrow> block_span b | LetStatement sp n e \<Rightarrow> sp | ExpressionStatement sp e \<Rightarrow> sp
    | IfStatement sp c t e \<Rightarrow> sp | WhileStatement sp c b \<Rightarrow> sp | ForStatement sp n e b \<Rightarrow> sp
    | FunctionDeclaration sp n a ps b \<Rightarrow> sp | ReturnStatement sp e \<Rightarrow> sp | BreakStatement sp \<Rightarrow> sp
    | ContinueStatement sp \<Rightarrow> sp | ImportStatement sp m n \<Rightarrow> sp | ThrowStatement sp e \<Rightarrow> sp
    | TryCatchStatement sp t n c \<Rightarrow> sp | DeferStatement sp b \<Rightarrow> sp)"

fun parameter_name :: "parameter \<Rightarrow> string" where
  "parameter_name (Parameter n d sp) = n"

fun parameter_default :: "parameter \<Rightarrow> expression option" where
  "parameter_default (Parameter n d sp) = d"

fun argument_name :: "call_argument \<Rightarrow> string option" where
  "argument_name (CallArgument n e sp) = n"

record program =
  program_statements :: "statement list"
  program_span :: source_span

section \<open>Trees that obey the context rules of the grammar\<close>

text \<open>
  The rules the grammar states beyond its productions: \<open>break\<close> and \<open>continue\<close> stand in a
  loop, \<open>return\<close> and \<open>defer\<close> in a function, \<open>await\<close> in an async function; the names of
  parameters and of named arguments are distinct, a default parameter is not followed by a
  required one nor a named argument by a positional one; the target of an assignment is a name,
  a member or an index.
\<close>

definition assignable :: "expression \<Rightarrow> bool" where
  "assignable e \<longleftrightarrow> (case e of IdentifierExpression sp n \<Rightarrow> True | MemberExpression sp x n \<Rightarrow> True
     | IndexExpression sp x i \<Rightarrow> True | _ \<Rightarrow> False)"

definition parameters_ordered :: "parameter list \<Rightarrow> bool" where
  "parameters_ordered ps \<longleftrightarrow> distinct (map parameter_name ps) \<and>
     sorted_wrt (\<lambda>p q. parameter_default p \<noteq> None \<longrightarrow> parameter_default q \<noteq> None) ps"

definition arguments_ordered :: "call_argument list \<Rightarrow> bool" where
  "arguments_ordered as \<longleftrightarrow> distinct (List.map_filter argument_name as) \<and>
     sorted_wrt (\<lambda>p q. argument_name p \<noteq> None \<longrightarrow> argument_name q \<noteq> None) as"

text \<open>The arguments: in a loop, in a function, in an async function.\<close>

fun expression_valid :: "bool \<Rightarrow> expression \<Rightarrow> bool"
  and entry_valid :: "bool \<Rightarrow> map_entry \<Rightarrow> bool"
  and parameter_valid :: "bool \<Rightarrow> parameter \<Rightarrow> bool"
  and argument_valid :: "bool \<Rightarrow> call_argument \<Rightarrow> bool"
  and block_valid :: "bool \<Rightarrow> bool \<Rightarrow> bool \<Rightarrow> block \<Rightarrow> bool"
  and statement_valid :: "bool \<Rightarrow> bool \<Rightarrow> bool \<Rightarrow> statement \<Rightarrow> bool"
where
  "expression_valid a (LiteralExpression sp v) = True"
| "expression_valid a (IdentifierExpression sp n) = True"
| "expression_valid a (ListExpression sp es) = list_all (expression_valid a) es"
| "expression_valid a (MapExpression sp es) = list_all (entry_valid a) es"
| "expression_valid a (FunctionExpression sp async ps b) =
     (parameters_ordered ps \<and> list_all (parameter_valid a) ps \<and> block_valid False True async b)"
| "expression_valid a (UnaryExpression sp f x) = expression_valid a x"
| "expression_valid a (BinaryExpression sp f l r) = (expression_valid a l \<and> expression_valid a r)"
| "expression_valid a (AssignmentExpression sp f l r) =
     (assignable l \<and> expression_valid a l \<and> expression_valid a r)"
| "expression_valid a (MemberExpression sp x n) = expression_valid a x"
| "expression_valid a (IndexExpression sp x i) = (expression_valid a x \<and> expression_valid a i)"
| "expression_valid a (SliceExpression sp x s t u) =
     (expression_valid a x \<and> pred_option (expression_valid a) s \<and>
      pred_option (expression_valid a) t \<and> pred_option (expression_valid a) u)"
| "expression_valid a (CallExpression sp f as) =
     (arguments_ordered as \<and> expression_valid a f \<and> list_all (argument_valid a) as)"
| "expression_valid a (AwaitExpression sp x) = (a \<and> expression_valid a x)"
| "entry_valid a (MapEntry k v sp) = (expression_valid a k \<and> expression_valid a v)"
| "parameter_valid a (Parameter n d sp) = pred_option (expression_valid a) d"
| "argument_valid a (CallArgument n e sp) = expression_valid a e"
| "block_valid l f a (Block sp ss) = list_all (statement_valid l f a) ss"
| "statement_valid l f a (BlockStatement b) = block_valid l f a b"
| "statement_valid l f a (LetStatement sp n e) = expression_valid a e"
| "statement_valid l f a (ExpressionStatement sp e) = expression_valid a e"
| "statement_valid l f a (IfStatement sp c t e) =
     (expression_valid a c \<and> statement_valid l f a t \<and> pred_option (statement_valid l f a) e)"
| "statement_valid l f a (WhileStatement sp c b) = (expression_valid a c \<and> statement_valid True f a b)"
| "statement_valid l f a (ForStatement sp n e b) = (expression_valid a e \<and> statement_valid True f a b)"
| "statement_valid l f a (FunctionDeclaration sp n async ps b) =
     (parameters_ordered ps \<and> list_all (parameter_valid a) ps \<and> block_valid False True async b)"
| "statement_valid l f a (ReturnStatement sp e) = (f \<and> pred_option (expression_valid a) e)"
| "statement_valid l f a (BreakStatement sp) = l"
| "statement_valid l f a (ContinueStatement sp) = l"
| "statement_valid l f a (ImportStatement sp m n) = True"
| "statement_valid l f a (ThrowStatement sp e) = expression_valid a e"
| "statement_valid l f a (TryCatchStatement sp t n c) = (block_valid l f a t \<and> block_valid l f a c)"
| "statement_valid l f a (DeferStatement sp s) = (f \<and> statement_valid l f a s)"

end
