(* ===== verification/Lexer.thy ===== *)
theory Lexer
  imports Tokens
begin

text \<open>
  The lexer of the script language (src/src/script/Lexer.cpp): the class \<open>Scanner\<close>, its
  state as the record \<open>scanner\<close> (the source is the first argument of every method), its
  methods one by one, and \<open>lex\<close>.  Every loop of the scanner is a recursive function whose
  termination rests on \<open>advance_progress\<close>: \<open>advance\<close> moves the offset forward
  unless the input is exhausted.
\<close>

section \<open>Character classes and keywords\<close>

definition is_ascii_digit :: "char \<Rightarrow> bool" where
  "is_ascii_digit c \<longleftrightarrow> byte_of CHR ''0'' \<le> byte_of c \<and> byte_of c \<le> byte_of CHR ''9''"

definition is_identifier_start :: "nat \<Rightarrow> bool" where
  "is_identifier_start v \<longleftrightarrow> v = byte_of CHR ''_''
     \<or> (byte_of CHR ''a'' \<le> v \<and> v \<le> byte_of CHR ''z'')
     \<or> (byte_of CHR ''A'' \<le> v \<and> v \<le> byte_of CHR ''Z'') \<or> v \<ge> 0x80"

definition is_identifier_continue :: "nat \<Rightarrow> bool" where
  "is_identifier_continue v \<longleftrightarrow>
     is_identifier_start v \<or> (byte_of CHR ''0'' \<le> v \<and> v \<le> byte_of CHR ''9'')"

definition keyword_table :: "(string \<times> token_kind) list" where
  "keyword_table =
    [(''let'', TLet), (''fn'', TFn), (''if'', TIf), (''else'', TElse), (''while'', TWhile),
     (''for'', TFor), (''in'', TIn), (''return'', TReturn), (''break'', TBreak),
     (''continue'', TContinue), (''import'', TImport), (''as'', TAs), (''true'', TTrue),
     (''false'', TFalse), (''null'', TNull), (''try'', TTry), (''catch'', TCatch),
     (''throw'', TThrow), (''defer'', TDefer), (''async'', TAsync), (''await'', TAwait),
     (''and'', TAnd), (''or'', TOr), (''not'', TNot), (''is'', TIs)]"

definition keyword_kind :: "string \<Rightarrow> token_kind" where
  "keyword_kind text = (case map_of keyword_table text of Some k \<Rightarrow> k | None \<Rightarrow> TIdentifier)"

section \<open>The scanner and its elementary steps\<close>

record scanner =
  sc_offset :: nat
  sc_line :: nat
  sc_column :: nat
  sc_tokens :: "token list"
  sc_diagnostics :: "diagnostic list"

definition scanner_start :: scanner where
  "scanner_start =
    \<lparr>sc_offset = 0, sc_line = 1, sc_column = 1, sc_tokens = [], sc_diagnostics = []\<rparr>"

definition at_end :: "string \<Rightarrow> scanner \<Rightarrow> bool" where
  "at_end source s \<longleftrightarrow> sc_offset s \<ge> length source"

definition starts_with :: "string \<Rightarrow> scanner \<Rightarrow> string \<Rightarrow> bool" where
  "starts_with source s text \<longleftrightarrow> take (length text) (drop (sc_offset s) source) = text"

definition location :: "scanner \<Rightarrow> source_location" where
  "location s = \<lparr>loc_offset = sc_offset s, loc_line = sc_line s, loc_column = sc_column s\<rparr>"

abbreviation current :: "string \<Rightarrow> scanner \<Rightarrow> char" where
  "current source s \<equiv> source ! sc_offset s"

abbreviation (input) LF :: char where "LF \<equiv> CHR 0x0A"
abbreviation (input) CR :: char where "CR \<equiv> CHR 0x0D"

definition advance :: "string \<Rightarrow> scanner \<Rightarrow> scanner" where
  "advance source s =
    (if at_end source s then s
     else if current source s = CR then
       let s1 = s\<lparr>sc_offset := sc_offset s + 1\<rparr>;
           s2 = (if \<not> at_end source s1 \<and> current source s1 = LF
                 then s1\<lparr>sc_offset := sc_offset s1 + 1\<rparr> else s1)
       in s2\<lparr>sc_line := sc_line s2 + 1, sc_column := 1\<rparr>
     else if current source s = LF then
       s\<lparr>sc_offset := sc_offset s + 1, sc_line := sc_line s + 1, sc_column := 1\<rparr>
     else let decoded = decode_utf8 source (sc_offset s) in
       s\<lparr>sc_offset := sc_offset s + (if dc_valid decoded then dc_length decoded else 1),
         sc_column := sc_column s + 1\<rparr>)"

fun advance_ascii :: "string \<Rightarrow> nat \<Rightarrow> scanner \<Rightarrow> scanner" where
  "advance_ascii source 0 s = s"
| "advance_ascii source (Suc count) s = advance_ascii source count (advance source s)"

definition add_token :: "string \<Rightarrow> token_kind \<Rightarrow> source_location \<Rightarrow> string \<Rightarrow> scanner \<Rightarrow> scanner" where
  "add_token source kind start val s =
    (let e = location s in
     s\<lparr>sc_tokens := sc_tokens s @
        [\<lparr>tok_kind = kind,
          tok_lexeme = slice source (loc_offset start) (loc_offset e),
          tok_value = val,
          tok_span = \<lparr>span_begin = start, span_end = e\<rparr>\<rparr>]\<rparr>)"

definition add_error :: "string \<Rightarrow> string \<Rightarrow> source_location \<Rightarrow> scanner \<Rightarrow> scanner" where
  "add_error code message start s =
    s\<lparr>sc_diagnostics := sc_diagnostics s @
       [\<lparr>diag_severity = SevError, diag_code = code, diag_message = message,
         diag_span = \<lparr>span_begin = start, span_end = location s\<rparr>\<rparr>]\<rparr>"

definition diagnose_invalid_utf8 :: "string \<Rightarrow> scanner \<Rightarrow> scanner" where
  "diagnose_invalid_utf8 source s =
    add_error ''LEX001'' ''invalid UTF-8 byte sequence'' (location s) (advance source s)"

subsection \<open>What the elementary steps change\<close>

lemma location_simps [simp]:
  "loc_offset (location s) = sc_offset s"
  "loc_line (location s) = sc_line s"
  "loc_column (location s) = sc_column s"
  by (simp_all add: location_def)

lemma location_eq_iff:
  "location s = location t \<longleftrightarrow>
   sc_offset s = sc_offset t \<and> sc_line s = sc_line t \<and> sc_column s = sc_column t"
  by (simp add: location_def)

lemma add_token_simps [simp]:
  "sc_offset (add_token source k l v s) = sc_offset s"
  "location (add_token source k l v s) = location s"
  "sc_diagnostics (add_token source k l v s) = sc_diagnostics s"
  by (simp_all add: add_token_def Let_def location_def)

lemma add_error_simps [simp]:
  "sc_offset (add_error c m l s) = sc_offset s"
  "location (add_error c m l s) = location s"
  "sc_tokens (add_error c m l s) = sc_tokens s"
  "sc_diagnostics (add_error c m l s) \<noteq> []"
  by (simp_all add: add_error_def location_def)

lemma advance_simps [simp]:
  "sc_tokens (advance source s) = sc_tokens s"
  "sc_diagnostics (advance source s) = sc_diagnostics s"
  by (simp_all add: advance_def Let_def)

lemma advance_location_cong:
  "location s = location t \<Longrightarrow> location (advance source s) = location (advance source t)"
  by (auto simp: location_eq_iff advance_def at_end_def Let_def)

lemma advance_progress:
  assumes "\<not> at_end source s"
  shows "sc_offset s < sc_offset (advance source s)"
    and "sc_offset (advance source s) \<le> length source"
  using assms decode_utf8_valid_prefix [of source "sc_offset s"]
  by (auto simp: advance_def at_end_def Let_def)

lemma advance_at_end: "at_end source s \<Longrightarrow> advance source s = s"
  by (simp add: advance_def)

lemma advance_mono: "sc_offset s \<le> sc_offset (advance source s)"
  by (cases "at_end source s") (auto simp: advance_at_end dest: advance_progress)

lemma diagnose_invalid_utf8_simps [simp]:
  "sc_offset (diagnose_invalid_utf8 source s) = sc_offset (advance source s)"
  "location (diagnose_invalid_utf8 source s) = location (advance source s)"
  "sc_tokens (diagnose_invalid_utf8 source s) = sc_tokens s"
  "sc_diagnostics (diagnose_invalid_utf8 source s) \<noteq> []"
  by (simp_all add: diagnose_invalid_utf8_def)

lemma advance_measure:
  "\<not> at_end source s \<Longrightarrow>
   length source - sc_offset (advance source s) < length source - sc_offset s"
  using advance_progress [of source s] by (simp add: at_end_def)

lemma advance_ascii_mono: "sc_offset s \<le> sc_offset (advance_ascii source n s)"
  by (induction n arbitrary: s) (auto intro: order.trans advance_mono)

lemma advance_ascii_measure:
  "\<not> at_end source s \<Longrightarrow> n > 0 \<Longrightarrow>
   length source - sc_offset (advance_ascii source n s) < length source - sc_offset s"
  using advance_measure [of source s] advance_ascii_mono [of "advance source s" source "n - 1"]
  by (cases n) auto

lemma starts_with_not_at_end: "starts_with source s text \<Longrightarrow> text \<noteq> [] \<Longrightarrow> \<not> at_end source s"
  using take_drop_lengthD by (fastforce simp: starts_with_def at_end_def)

subsection \<open>The scanner only moves by \<open>advance\<close>\<close>

text \<open>
  \<open>moves source s t\<close>: the position of \<open>t\<close> is reached from that of \<open>s\<close> by a number
  of \<open>advance\<close> steps.  \<open>skims source s t\<close>: moreover no token was added, and every
  diagnostic added on the way is an error whose span lies on the way.
\<close>

definition moves :: "string \<Rightarrow> scanner \<Rightarrow> scanner \<Rightarrow> bool" where
  "moves source s t \<longleftrightarrow> (\<exists>k. location t = location ((advance source ^^ k) s))"

definition spans_way :: "string \<Rightarrow> scanner \<Rightarrow> scanner \<Rightarrow> diagnostic \<Rightarrow> bool" where
  "spans_way source s t d \<longleftrightarrow> diag_severity d = SevError \<and>
     (\<exists>u v. moves source s u \<and> moves source u v \<and> moves source v t \<and>
        diag_span d = \<lparr>span_begin = location u, span_end = location v\<rparr>)"

definition skims :: "string \<Rightarrow> scanner \<Rightarrow> scanner \<Rightarrow> bool" where
  "skims source s t \<longleftrightarrow> moves source s t \<and> sc_tokens t = sc_tokens s \<and>
     (\<exists>ds. sc_diagnostics t = sc_diagnostics s @ ds \<and> (\<forall>d\<in>set ds. spans_way source s t d))"

lemma advance_funpow_cong:
  "location s = location t \<Longrightarrow> location ((advance source ^^ k) s) = location ((advance source ^^ k) t)"
  by (induction k) (auto intro: advance_location_cong)

lemma moves_same: "location s = location t \<Longrightarrow> moves source s t"
  unfolding moves_def by (rule exI [of _ 0]) simp

lemma moves_refl [simp]: "moves source s s"
  by (rule moves_same) simp

lemma moves_advance [simp]: "moves source s (advance source s)"
  unfolding moves_def by (rule exI [of _ 1]) simp

lemma moves_trans: "moves source s t \<Longrightarrow> moves source t u \<Longrightarrow> moves source s u"
  unfolding moves_def by (metis advance_funpow_cong comp_apply funpow_add)

lemma moves_offset: "moves source s t \<Longrightarrow> sc_offset s \<le> sc_offset t"
proof -
  have "sc_offset s \<le> sc_offset ((advance source ^^ k) s)" for k
    by (induction k) (auto intro: order.trans advance_mono)
  then show "moves source s t \<Longrightarrow> ?thesis" by (auto simp: moves_def location_eq_iff)
qed

lemma moves_bound:
  "moves source s t \<Longrightarrow> sc_offset s \<le> length source \<Longrightarrow> sc_offset t \<le> length source"
proof -
  assume s: "sc_offset s \<le> length source"
  have "sc_offset ((advance source ^^ k) s) \<le> length source" for k
  proof (induction k)
    case (Suc k)
    then show ?case
      using advance_progress(2) [of source "(advance source ^^ k) s"]
      by (cases "at_end source ((advance source ^^ k) s)") (auto simp: advance_at_end)
  qed (use s in simp)
  then show "moves source s t \<Longrightarrow> ?thesis" by (auto simp: moves_def location_eq_iff)
qed

lemma spans_way_mono:
  "spans_way source t u d \<Longrightarrow> moves source s t \<Longrightarrow> spans_way source s u d"
  "spans_way source s t d \<Longrightarrow> moves source t u \<Longrightarrow> spans_way source s u d"
  unfolding spans_way_def by (blast intro: moves_trans)+

lemma skims_moves: "skims source s t \<Longrightarrow> moves source s t"
  by (simp add: skims_def)

lemma skims_refl [simp]: "skims source s s"
  by (simp add: skims_def)

lemma skims_trans [trans]:
  assumes "skims source s t" "skims source t u"
  shows "skims source s u"
proof -
  obtain ds es where
    ds: "sc_diagnostics t = sc_diagnostics s @ ds" "\<forall>d\<in>set ds. spans_way source s t d" and
    es: "sc_diagnostics u = sc_diagnostics t @ es" "\<forall>d\<in>set es. spans_way source t u d"
    using assms by (auto simp: skims_def)
  have "\<forall>d\<in>set (ds @ es). spans_way source s u d"
    using ds(2) es(2) spans_way_mono(1) [OF _ skims_moves [OF assms(1)]]
      spans_way_mono(2) [OF _ skims_moves [OF assms(2)]] by auto
  then show ?thesis
    using assms ds(1) es(1) by (auto simp: skims_def intro: moves_trans)
qed

lemma skims_advance [simp]: "skims source s (advance source s)"
  by (simp add: skims_def)

lemma skims_advance_ascii [simp]: "skims source s (advance_ascii source n s)"
  by (induction n arbitrary: s) (auto intro: skims_trans [OF skims_advance])

lemma skims_add_error:
  assumes "skims source s t" "moves source s u" "moves source u t"
  shows "skims source s (add_error code message (location u) t)"
proof -
  let ?t = "add_error code message (location u) t"
  have t: "moves source t ?t" "location ?t = location t" by (simp_all add: moves_same)
  with assms have "moves source s ?t" "moves source u ?t" by (auto intro: moves_trans dest: skims_moves)
  moreover have "spans_way source s ?t \<lparr>diag_severity = SevError, diag_code = code,
      diag_message = message, diag_span = \<lparr>span_begin = location u, span_end = location t\<rparr>\<rparr>"
    unfolding spans_way_def using assms(2,3) t by auto
  moreover obtain ds where ds: "sc_diagnostics t = sc_diagnostics s @ ds"
    "\<forall>d\<in>set ds. spans_way source s t d" "sc_tokens t = sc_tokens s"
    using assms(1) by (auto simp: skims_def)
  then have "\<forall>d\<in>set ds. spans_way source s ?t d"
    using spans_way_mono(2) t(1) by blast
  ultimately show ?thesis
    unfolding skims_def by (auto simp: ds(1,3)) (auto simp: add_error_def ds(1))
qed

lemma skims_diagnose_invalid_utf8 [simp]: "skims source s (diagnose_invalid_utf8 source s)"
  unfolding diagnose_invalid_utf8_def by (rule skims_add_error) simp_all

lemma skims_offset: "skims source s t \<Longrightarrow> sc_offset s \<le> sc_offset t"
  by (rule moves_offset [OF skims_moves])

section \<open>Trivia\<close>

definition is_space :: "char \<Rightarrow> bool" where
  "is_space c \<longleftrightarrow> c = CHR '' '' \<or> c = CHR 0x09 \<or> c = LF \<or> c = CR \<or> c = CHR 0x0C \<or> c = CHR 0x0B"

function skip_spaces :: "string \<Rightarrow> scanner \<Rightarrow> scanner" where
  "skip_spaces source s =
    (if \<not> at_end source s \<and> is_space (current source s)
     then skip_spaces source (advance source s) else s)"
  by pat_completeness auto
termination
  by (relation "measure (\<lambda>(source, s). length source - sc_offset s)") (auto simp: advance_measure)

text \<open>Inside a comment every scalar value is skipped and every invalid byte diagnosed.\<close>

definition skip_scalar :: "string \<Rightarrow> scanner \<Rightarrow> scanner" where
  "skip_scalar source s =
    (if \<not> dc_valid (decode_utf8 source (sc_offset s)) then diagnose_invalid_utf8 source s
     else advance source s)"

lemma skip_scalar_simps [simp]:
  "sc_offset (skip_scalar source s) = sc_offset (advance source s)"
  "location (skip_scalar source s) = location (advance source s)"
  "sc_tokens (skip_scalar source s) = sc_tokens s"
  by (simp_all add: skip_scalar_def)

function skip_line_comment :: "string \<Rightarrow> scanner \<Rightarrow> scanner" where
  "skip_line_comment source s =
    (if \<not> at_end source s \<and> current source s \<noteq> LF \<and> current source s \<noteq> CR
     then skip_line_comment source (skip_scalar source s) else s)"
  by pat_completeness auto
termination
  by (relation "measure (\<lambda>(source, s). length source - sc_offset s)") (auto simp: advance_measure)

function skip_block_comment :: "string \<Rightarrow> nat \<Rightarrow> scanner \<Rightarrow> nat \<times> scanner" where
  "skip_block_comment source depth s =
    (if \<not> at_end source s \<and> depth \<noteq> 0 then
       if starts_with source s ''/*''
       then skip_block_comment source (depth + 1) (advance_ascii source 2 s)
       else if starts_with source s ''*/''
       then skip_block_comment source (depth - 1) (advance_ascii source 2 s)
       else skip_block_comment source depth (skip_scalar source s)
     else (depth, s))"
  by pat_completeness auto
termination
  by (relation "measure (\<lambda>(source, depth, s). length source - sc_offset s)")
    (auto simp: advance_measure advance_ascii_measure)

declare skip_spaces.simps [simp del] skip_line_comment.simps [simp del]
  skip_block_comment.simps [simp del]

lemma skims_skip_scalar [simp]: "skims source s (skip_scalar source s)"
  by (simp add: skip_scalar_def)

lemma skims_skip_spaces: "skims source s (skip_spaces source s)"
proof (induction source s rule: skip_spaces.induct)
  case (1 source s)
  then show ?case
    by (subst skip_spaces.simps) (auto intro: skims_trans [OF skims_advance])
qed

lemma skims_skip_line_comment: "skims source s (skip_line_comment source s)"
proof (induction source s rule: skip_line_comment.induct)
  case (1 source s)
  then show ?case
    by (subst skip_line_comment.simps) (auto intro: skims_trans [OF skims_skip_scalar])
qed

lemma skims_skip_block_comment: "skims source s (snd (skip_block_comment source depth s))"
proof (induction source depth s rule: skip_block_comment.induct)
  case (1 source depth s)
  then show ?case
    by (subst skip_block_comment.simps)
      (auto intro: skims_trans [OF skims_skip_scalar] skims_trans [OF skims_advance_ascii])
qed

text \<open>The outer loop: white space, then a comment and around again, or the end of the trivia.\<close>

function skip_trivia :: "string \<Rightarrow> scanner \<Rightarrow> scanner" where
  "skip_trivia source s =
    (let s1 = skip_spaces source s in
     if starts_with source s1 ''#'' then
       skip_trivia source (skip_line_comment source (advance source s1))
     else if starts_with source s1 ''/*'' then
       (let (depth, s2) = skip_block_comment source 1 (advance_ascii source 2 s1) in
        if depth \<noteq> 0
        then add_error ''LEX003'' ''unterminated block comment'' (location s1) s2
        else skip_trivia source s2)
     else s1)"
  by pat_completeness auto
termination
proof (relation "measure (\<lambda>(source, s). length source - sc_offset s)", goal_cases)
  case (2 source s s1)
  then have "\<not> at_end source s1" by (auto dest: starts_with_not_at_end)
  with 2 skims_offset [OF skims_skip_spaces [of source s]] skims_offset [OF skims_skip_line_comment [of source "advance source s1"]]
    advance_progress [of source s1]
  show ?case by simp
next
  case (3 source s s1 x depth s2)
  then have "\<not> at_end source s1" by (auto dest: starts_with_not_at_end)
  with 3 skims_offset [OF skims_skip_spaces [of source s]] advance_ascii_measure [of source s1 2]
    skims_offset [OF skims_skip_block_comment [where source = source and depth = 1 and s = "advance_ascii source 2 s1"]]
  show ?case by (simp add: prod_eq_iff)
qed simp

declare skip_trivia.simps [simp del]

lemma skims_skip_trivia: "skims source s (skip_trivia source s)"
proof (induction source s rule: skip_trivia.induct)
  case (1 source s)
  define s1 where "s1 = skip_spaces source s"
  obtain depth s2 where s2: "skip_block_comment source 1 (advance_ascii source 2 s1) = (depth, s2)"
    by fastforce
  have s1: "skims source s s1" by (simp add: s1_def skims_skip_spaces)
  have line: "skims source s (skip_line_comment source (advance source s1))"
    by (rule skims_trans [OF s1 skims_trans [OF skims_advance skims_skip_line_comment]])
  have block: "skims source s1 s2"
    using skims_skip_block_comment [where source = source and depth = 1 and s = "advance_ascii source 2 s1"] s2
    by (auto intro: skims_trans [OF skims_advance_ascii])
  have "skims source s (add_error ''LEX003'' ''unterminated block comment'' (location s1) s2)"
    using s1 block by (blast intro: skims_add_error skims_trans skims_moves)
  then show ?case
    using 1 s1 line block s2
    by (subst skip_trivia.simps)
      (auto simp: Let_def simp flip: s1_def intro: skims_trans)
qed

section \<open>Identifiers, numbers and strings\<close>

function identifier_loop :: "string \<Rightarrow> scanner \<Rightarrow> scanner" where
  "identifier_loop source s =
    (if \<not> at_end source s \<and> dc_valid (decode_utf8 source (sc_offset s))
        \<and> is_identifier_continue (dc_value (decode_utf8 source (sc_offset s)))
     then identifier_loop source (advance source s) else s)"
  by pat_completeness auto
termination
  by (relation "measure (\<lambda>(source, s). length source - sc_offset s)") (auto simp: advance_measure)

definition scan_identifier :: "string \<Rightarrow> scanner \<Rightarrow> scanner" where
  "scan_identifier source s =
    (let start = location s;
         s1 = identifier_loop source s;
         text = slice source (loc_offset start) (sc_offset s1)
     in add_token source (keyword_kind text) start [] s1)"

function digits_loop :: "string \<Rightarrow> scanner \<Rightarrow> scanner" where
  "digits_loop source s =
    (if \<not> at_end source s \<and> is_ascii_digit (current source s)
     then digits_loop source (advance source s) else s)"
  by pat_completeness auto
termination
  by (relation "measure (\<lambda>(source, s). length source - sc_offset s)") (auto simp: advance_measure)

declare identifier_loop.simps [simp del] digits_loop.simps [simp del]

lemma skims_identifier_loop: "skims source s (identifier_loop source s)"
proof (induction source s rule: identifier_loop.induct)
  case (1 source s)
  then show ?case
    by (subst identifier_loop.simps) (auto intro: skims_trans [OF skims_advance])
qed

lemma skims_digits_loop: "skims source s (digits_loop source s)"
proof (induction source s rule: digits_loop.induct)
  case (1 source s)
  then show ?case
    by (subst digits_loop.simps) (auto intro: skims_trans [OF skims_advance])
qed

text \<open>\<open>byte_is source n P\<close> is \<open>n < source_.size() && P(source_[n])\<close>.\<close>

definition byte_is :: "string \<Rightarrow> nat \<Rightarrow> (char \<Rightarrow> bool) \<Rightarrow> bool" where
  "byte_is source n P \<longleftrightarrow> n < length source \<and> P (source ! n)"

definition is_sign :: "char \<Rightarrow> bool" where
  "is_sign c \<longleftrightarrow> c = CHR ''+'' \<or> c = CHR ''-''"

definition scan_fraction :: "string \<Rightarrow> scanner \<Rightarrow> bool \<times> scanner" where
  "scan_fraction source s =
    (if byte_is source (sc_offset s) (\<lambda>c. c = CHR ''.'') \<and> byte_is source (sc_offset s + 1) is_ascii_digit
     then (True, digits_loop source (advance source s)) else (False, s))"

definition scan_exponent :: "string \<Rightarrow> scanner \<Rightarrow> bool \<times> scanner" where
  "scan_exponent source s =
    (if byte_is source (sc_offset s) (\<lambda>c. c = CHR ''e'' \<or> c = CHR ''E'') then
       let lookahead = (if byte_is source (sc_offset s + 1) is_sign
                        then sc_offset s + 2 else sc_offset s + 1)
       in if byte_is source lookahead is_ascii_digit then
            let s1 = advance source s;
                s2 = (if byte_is source (sc_offset s1) is_sign then advance source s1 else s1)
            in (True, digits_loop source s2)
          else (False, s)
     else (False, s))"

definition scan_number :: "string \<Rightarrow> scanner \<Rightarrow> scanner" where
  "scan_number source s =
    (let start = location s;
         s1 = digits_loop source s;
         (fraction, s2) = scan_fraction source s1;
         (exponent, s3) = scan_exponent source s2
     in add_token source (if fraction \<or> exponent then TFloat else TInteger) start [] s3)"

definition escape_value :: "char \<Rightarrow> char option" where
  "escape_value c =
    map_of [(CHR 0x5C, CHR 0x5C), (CHR 0x22, CHR 0x22), (CHR 0x27, CHR 0x27),
            (CHR ''n'', LF), (CHR ''r'', CR), (CHR ''t'', CHR 0x09),
            (CHR ''b'', CHR 0x08), (CHR ''f'', CHR 0x0C), (CHR ''v'', CHR 0x0B),
            (CHR ''0'', CHR 0x00)] c"

definition replacement_character :: string where
  "replacement_character = [CHR 0xEF, CHR 0xBF, CHR 0xBD]"

definition unterminated_string :: "string \<Rightarrow> source_location \<Rightarrow> string \<Rightarrow> scanner \<Rightarrow> scanner" where
  "unterminated_string source start val s =
    add_token source TString start val
      (add_error ''LEX002'' ''unterminated string literal'' start s)"

function string_loop ::
  "string \<Rightarrow> char \<Rightarrow> source_location \<Rightarrow> string \<Rightarrow> scanner \<Rightarrow> scanner" where
  "string_loop source quote start val s =
    (if at_end source s then unterminated_string source start val s
     else if current source s = quote
     then add_token source TString start val (advance source s)
     else if current source s = LF \<or> current source s = CR
     then unterminated_string source start val s
     else if current source s = CHR 0x5C then
       let s1 = advance source s in
       if at_end source s1 then unterminated_string source start val s1
       else let escaped = current source s1; s2 = advance source s1 in
         case escape_value escaped of
           Some c \<Rightarrow> string_loop source quote start (val @ [c]) s2
         | None \<Rightarrow> string_loop source quote start (val @ [escaped])
             (add_error ''LEX005'' ''unknown escape sequence'' (location s) s2)
     else let decoded = decode_utf8 source (sc_offset s) in
       if \<not> dc_valid decoded
       then string_loop source quote start (val @ replacement_character)
              (diagnose_invalid_utf8 source s)
       else string_loop source quote start
              (val @ take (dc_length decoded) (drop (sc_offset s) source)) (advance source s))"
  by pat_completeness auto
termination
  by (relation "measure (\<lambda>(source, quote, start, val, s). length source - sc_offset s)")
    (auto simp: advance_measure dest: advance_measure intro: order.strict_trans)

declare string_loop.simps [simp del]

definition scan_string :: "string \<Rightarrow> char \<Rightarrow> scanner \<Rightarrow> scanner" where
  "scan_string source quote s = string_loop source quote (location s) [] (advance source s)"

section \<open>Operators\<close>

definition emit_operator :: "string \<Rightarrow> token_kind \<Rightarrow> nat \<Rightarrow> scanner \<Rightarrow> scanner" where
  "emit_operator source kind len s =
    add_token source kind (location s) [] (advance_ascii source len s)"

text \<open>The spellings, in the order in which the scanner tries them.\<close>

definition operator_table :: "(string \<times> token_kind) list" where
  "operator_table =
    [(''//='', TFloorDivideEqual), (''**='', TPowerEqual),
     (''=='', TEqualEqual), (''!='', TBangEqual), (''<='', TLessEqual), (''>='', TGreaterEqual),
     (''&&'', TAndAnd), (''||'', TOrOr), (''+='', TPlusEqual), (''-='', TMinusEqual),
     (''*='', TStarEqual), (''/='', TSlashEqual), (''%='', TPercentEqual), (''++'', TPlusPlus),
     (''--'', TMinusMinus), (''->'', TArrow), (''=>'', TFatArrow), (''..'', TDotDot),
     (''//'', TFloorDivide), (''**'', TPower),
     (''+'', TPlus), (''-'', TMinus), (''*'', TStar), (''/'', TSlash), (''%'', TPercent),
     (''='', TEqual), (''!'', TBang), (''<'', TLess), (''>'', TGreater), (''&'', TAmpersand),
     (''|'', TPipe), (''^'', TCaret), (''~'', TTilde), (''.'', TDot), ('','', TComma),
     ('':'', TColon), ('';'', TSemicolon), (''?'', TQuestion), (''('', TLeftParen),
     ('')'', TRightParen), (''['', TLeftBracket), ('']'', TRightBracket), (''{'', TLeftBrace),
     (''}'', TRightBrace)]"

definition find_operator :: "string \<Rightarrow> scanner \<Rightarrow> (string \<times> token_kind) option" where
  "find_operator source s = find (\<lambda>(text, kind). starts_with source s text) operator_table"

definition scan_operator_or_error :: "string \<Rightarrow> scanner \<Rightarrow> scanner" where
  "scan_operator_or_error source s =
    (case find_operator source s of
       Some (text, kind) \<Rightarrow> emit_operator source kind (length text) s
     | None \<Rightarrow> add_error ''LEX004'' ''unexpected character'' (location s) (advance source s))"

section \<open>The main loop\<close>

definition scan_token :: "string \<Rightarrow> decoded \<Rightarrow> scanner \<Rightarrow> scanner" where
  "scan_token source decoded s =
    (if is_identifier_start (dc_value decoded) then scan_identifier source s
     else if dc_length decoded = 1 \<and> is_ascii_digit (char_of (dc_value decoded))
     then scan_number source s
     else if dc_value decoded = byte_of CHR 0x22 \<or> dc_value decoded = byte_of CHR 0x27
     then scan_string source (char_of (dc_value decoded)) s
     else scan_operator_or_error source s)"

subsection \<open>Every scan makes progress\<close>

lemma identifier_loop_step:
  "\<not> at_end source s \<Longrightarrow> dc_valid (decode_utf8 source (sc_offset s)) \<Longrightarrow>
   is_identifier_continue (dc_value (decode_utf8 source (sc_offset s))) \<Longrightarrow>
   identifier_loop source s = identifier_loop source (advance source s)"
  by (subst identifier_loop.simps) simp

lemma digits_loop_step:
  "\<not> at_end source s \<Longrightarrow> is_ascii_digit (current source s) \<Longrightarrow>
   digits_loop source s = digits_loop source (advance source s)"
  by (subst digits_loop.simps) simp

lemma skims_scan_fraction: "skims source s (snd (scan_fraction source s))"
  by (simp add: scan_fraction_def skims_trans [OF skims_advance skims_digits_loop])

lemma skims_scan_exponent: "skims source s (snd (scan_exponent source s))"
  by (auto simp: scan_exponent_def Let_def
      intro!: skims_trans [OF skims_advance] skims_digits_loop skims_trans [OF skims_advance skims_digits_loop])

lemma byte_of_ascii_digit_char:
  "n < 256 \<Longrightarrow> is_ascii_digit (char_of n) \<longleftrightarrow> byte_of CHR ''0'' \<le> n \<and> n \<le> byte_of CHR ''9''"
  by (simp add: is_ascii_digit_def)

lemma decode_utf8_one:
  assumes "dc_valid (decode_utf8 source n)" "dc_length (decode_utf8 source n) = 1"
  shows "n < length source" "dc_value (decode_utf8 source n) = byte_of (source ! n)"
    "byte_of (source ! n) \<le> 0x7f"
  using assms by (auto elim: decode_utf8_cases)

lemma decode_utf8_small:
  assumes "dc_valid (decode_utf8 source n)" "dc_value (decode_utf8 source n) < 0x80"
  shows "dc_length (decode_utf8 source n) = 1"
  using assms by (auto elim: decode_utf8_cases)

lemma scan_identifier_progress:
  assumes "\<not> at_end source s" "dc_valid (decode_utf8 source (sc_offset s))"
    "is_identifier_start (dc_value (decode_utf8 source (sc_offset s)))"
  shows "sc_offset s < sc_offset (identifier_loop source s)"
  using assms advance_progress(1) [OF assms(1)]
    skims_offset [OF skims_identifier_loop [of source "advance source s"]]
  by (simp add: identifier_loop_step is_identifier_continue_def)

lemma digits_loop_progress:
  assumes "\<not> at_end source s" "is_ascii_digit (current source s)"
  shows "sc_offset s < sc_offset (digits_loop source s)"
  using assms advance_progress(1) [OF assms(1)]
    skims_offset [OF skims_digits_loop [of source "advance source s"]]
  by (simp add: digits_loop_step)

lemma scan_number_progress:
  assumes "\<not> at_end source s" "is_ascii_digit (current source s)"
  shows "sc_offset s < sc_offset (scan_number source s)"
  using digits_loop_progress [OF assms]
    skims_offset [OF skims_scan_fraction [of source "digits_loop source s"]]
    skims_offset [OF skims_scan_exponent [of source "snd (scan_fraction source (digits_loop source s))"]]
  by (auto simp: scan_number_def Let_def split_beta)

lemma string_loop_offset: "sc_offset s \<le> sc_offset (string_loop source quote start val s)"
proof (induction source quote start val s rule: string_loop.induct)
  case (1 source quote start val s)
  have "sc_offset s \<le> sc_offset (advance source s)"
    "sc_offset s \<le> sc_offset (advance source (advance source s))"
    by (auto intro: order.trans advance_mono)
  with 1 show ?case
    by (subst string_loop.simps)
      (auto simp: Let_def unterminated_string_def split: option.split intro: order.trans)
qed

lemma scan_string_progress:
  "\<not> at_end source s \<Longrightarrow> sc_offset s < sc_offset (scan_string source quote s)"
  using advance_progress(1) [of source s] string_loop_offset [of "advance source s"]
  by (auto simp: scan_string_def intro: order.strict_trans2)

lemma operator_table_nonempty: "(text, kind) \<in> set operator_table \<Longrightarrow> text \<noteq> []"
  by (auto simp: operator_table_def)

lemma find_operator_Some:
  assumes "find_operator source s = Some (text, kind)"
  shows "(text, kind) \<in> set operator_table" "starts_with source s text"
proof -
  from assms obtain i where i: "i < length operator_table" "operator_table ! i = (text, kind)"
    "starts_with source s text"
    by (auto simp: find_operator_def find_Some_iff)
  then show "(text, kind) \<in> set operator_table" "starts_with source s text"
    by (metis nth_mem, simp)
qed

lemma advance_ascii_progress:
  "\<not> at_end source s \<Longrightarrow> n > 0 \<Longrightarrow> sc_offset s < sc_offset (advance_ascii source n s)"
  using advance_ascii_measure [of source s n] by simp

lemma scan_operator_progress:
  assumes "\<not> at_end source s"
  shows "sc_offset s < sc_offset (scan_operator_or_error source s)"
  using assms advance_progress(1) [OF assms]
  by (auto simp: scan_operator_or_error_def emit_operator_def
      split: option.split intro!: advance_ascii_progress
      dest!: find_operator_Some(1) operator_table_nonempty)

lemma scan_token_progress:
  assumes "\<not> at_end source s" "dc_valid (decode_utf8 source (sc_offset s))"
  shows "sc_offset s < sc_offset (scan_token source (decode_utf8 source (sc_offset s)) s)"
  using assms scan_identifier_progress [OF assms] scan_number_progress [OF assms(1)]
    scan_string_progress [OF assms(1)] scan_operator_progress [OF assms(1)]
    decode_utf8_one [OF assms(2)]
  by (auto simp: scan_token_def scan_identifier_def Let_def)

function scan_loop :: "string \<Rightarrow> scanner \<Rightarrow> scanner" where
  "scan_loop source s =
    (if at_end source s then s
     else let s1 = skip_trivia source s in
       if at_end source s1 then s1
       else let decoded = decode_utf8 source (sc_offset s1) in
         if \<not> dc_valid decoded then scan_loop source (diagnose_invalid_utf8 source s1)
         else if sc_offset s1 = 0 \<and> dc_value decoded = 0xfeff then
           scan_loop source (add_error ''LEX006'' ''UTF-8 byte-order mark is not permitted''
             (location s1) (advance source s1))
         else scan_loop source (scan_token source decoded s1))"
  by pat_completeness auto
termination
proof -
  have less: "length source - sc_offset t < length source - sc_offset s"
    if "\<not> at_end source s" "s1 = skip_trivia source s" "\<not> at_end source s1" "sc_offset s1 < sc_offset t"
    for source s s1 t
    using that skims_offset [OF skims_skip_trivia [of source s]] by (auto simp: at_end_def)
  show ?thesis
    by (relation "measure (\<lambda>(source, s). length source - sc_offset s)")
      (auto intro!: less advance_progress(1) scan_token_progress)
qed

declare scan_loop.simps [simp del]

record lex_result =
  lr_tokens :: "token list"
  lr_diagnostics :: "diagnostic list"

definition run_scanner :: "string \<Rightarrow> lex_result" where
  "run_scanner source =
    (let s = scan_loop source scanner_start; eof = location s in
     \<lparr>lr_tokens = sc_tokens s @
        [\<lparr>tok_kind = TEndOfFile, tok_lexeme = [], tok_value = [],
          tok_span = \<lparr>span_begin = eof, span_end = eof\<rparr>\<rparr>],
      lr_diagnostics = sc_diagnostics s\<rparr>)"

definition lex :: "string \<Rightarrow> lex_result" where
  "lex source = run_scanner source"

end
