(* ===== verification/Parser.thy ===== *)
theory Parser
  imports Ast Lexer "HOL-Library.Log_Nat"
begin

text \<open>
  The recursive descent parser (src/src/script/Parser.cpp).  The class \<open>Engine\<close> is the
  record \<open>engine\<close>; a method is a function from an engine to an outcome: a result and the
  engine after it, the exception \<open>ParseFailure\<close> with the engine at the throw, or the end of
  the fuel.  The mutual recursion of the grammar is opened: a production refers to the
  productions it may reenter through the record \<open>parsers\<close>, and only after it consumed a
  token; \<open>knot n\<close> closes the recursion up to depth \<open>n\<close>, and \<open>run\<close> takes one level per
  token.  Every loop gets one iteration per remaining token.  The theory Parser_Correct shows
  that this fuel is never exhausted.
\<close>

section \<open>The engine and its elementary operations\<close>

record engine =
  en_tokens :: "token list"
  en_diagnostics :: "diagnostic list"
  en_current :: nat
  en_loop_depth :: nat
  en_function_depth :: nat
  en_in_async :: bool

datatype 'a outcome = Done 'a engine | Failed engine | OutOfFuel

type_synonym 'a parser = "engine \<Rightarrow> 'a outcome"

definition yield :: "'a \<Rightarrow> 'a parser" where
  "yield x e = Done x e"

definition asks :: "(engine \<Rightarrow> 'a) \<Rightarrow> 'a parser" where
  "asks f e = Done (f e) e"

definition and_then :: "'a parser \<Rightarrow> ('a \<Rightarrow> 'b parser) \<Rightarrow> 'b parser" where
  "and_then m f e = (case m e of Done x e' \<Rightarrow> f x e' | Failed e' \<Rightarrow> Failed e' | OutOfFuel \<Rightarrow> OutOfFuel)"

definition joined :: "source_span \<Rightarrow> source_span \<Rightarrow> source_span" where
  "joined opening closing = \<lparr>span_begin = span_begin opening, span_end = span_end closing\<rparr>"

definition peek_at :: "nat \<Rightarrow> engine \<Rightarrow> token" where
  "peek_at distance e = en_tokens e ! min (en_current e + distance) (length (en_tokens e) - 1)"

abbreviation peek :: "engine \<Rightarrow> token" where
  "peek \<equiv> peek_at 0"

definition previous :: "engine \<Rightarrow> token" where
  "previous e = en_tokens e ! (en_current e - 1)"

definition check :: "token_kind \<Rightarrow> engine \<Rightarrow> bool" where
  "check kind e \<longleftrightarrow> tok_kind (peek e) = kind"

definition check_next :: "token_kind \<Rightarrow> engine \<Rightarrow> bool" where
  "check_next kind e \<longleftrightarrow> tok_kind (peek_at 1 e) = kind"

definition no_more_tokens :: "engine \<Rightarrow> bool" where
  "no_more_tokens e \<longleftrightarrow> tok_kind (peek e) = TEndOfFile"

definition skip_token :: "engine \<Rightarrow> engine" where
  "skip_token e = e\<lparr>en_current := en_current e + 1\<rparr>"

definition next_token :: "token parser" where
  "next_token e = (let e' = (if \<not> no_more_tokens e then skip_token e else e) in Done (previous e') e')"

definition match_token :: "token_kind \<Rightarrow> bool parser" where
  "match_token kind e = (if \<not> check kind e then Done False e else and_then next_token (\<lambda>t. yield True) e)"

text \<open>\<open>match(k1) || match(k2) || ...\<close>, and which of the kinds it was.\<close>

fun match_choice :: "(token_kind \<times> 'a) list \<Rightarrow> 'a option parser" where
  "match_choice [] = yield None"
| "match_choice ((kind, x) # choices) =
    and_then (match_token kind) (\<lambda>matched. if matched then yield (Some x) else match_choice choices)"

definition report :: "string \<Rightarrow> string \<Rightarrow> source_span \<Rightarrow> unit parser" where
  "report code message sp e = Done () (e\<lparr>en_diagnostics := en_diagnostics e @
     [\<lparr>diag_severity = SevError, diag_code = code, diag_message = message, diag_span = sp\<rparr>]\<rparr>)"

definition throw_failure :: "'a parser" where
  "throw_failure e = Failed e"

definition reject :: "string \<Rightarrow> string \<Rightarrow> 'a parser" where
  "reject code message e = and_then (report code message (tok_span (peek e))) (\<lambda>u. throw_failure) e"

definition consume :: "token_kind \<Rightarrow> string \<Rightarrow> token parser" where
  "consume kind message e = (if check kind e then next_token e else reject ''PAR001'' message e)"

definition report_if :: "bool \<Rightarrow> string \<Rightarrow> string \<Rightarrow> source_span \<Rightarrow> unit parser" where
  "report_if b code message sp = (if b then report code message sp else yield ())"

text \<open>A loop runs at most once per token that is left, and one time more to find its end.\<close>

definition bounded :: "(nat \<Rightarrow> 'a parser) \<Rightarrow> 'a parser" where
  "bounded loop e = loop (Suc (length (en_tokens e) - en_current e)) e"

definition quoted :: "string \<Rightarrow> string" where
  "quoted word = [CHR 0x27] @ word @ [CHR 0x27]"

section \<open>Contexts\<close>

definition with_context :: "(engine \<Rightarrow> engine) \<Rightarrow> (engine \<Rightarrow> engine \<Rightarrow> engine) \<Rightarrow> 'a parser \<Rightarrow> 'a parser" where
  "with_context enter leave m e = (case m (enter e) of
      Done x e' \<Rightarrow> Done x (leave e e') | Failed e' \<Rightarrow> Failed (leave e e') | OutOfFuel \<Rightarrow> OutOfFuel)"

text \<open>The guards: their destructor runs on return and on a throw alike.\<close>

definition in_loop :: "'a parser \<Rightarrow> 'a parser" where
  "in_loop = with_context
     (\<lambda>e. e\<lparr>en_loop_depth := en_loop_depth e + 1\<rparr>)
     (\<lambda>old e. e\<lparr>en_loop_depth := en_loop_depth e - 1\<rparr>)"

definition in_function :: "bool \<Rightarrow> 'a parser \<Rightarrow> 'a parser" where
  "in_function is_async = with_context
     (\<lambda>e. e\<lparr>en_function_depth := en_function_depth e + 1, en_loop_depth := 0, en_in_async := is_async\<rparr>)
     (\<lambda>old e. e\<lparr>en_function_depth := en_function_depth e - 1, en_loop_depth := en_loop_depth old,
        en_in_async := en_in_async old\<rparr>)"

section \<open>Recovery\<close>

definition statement_keyword :: "token_kind \<Rightarrow> bool" where
  "statement_keyword kind \<longleftrightarrow> kind \<in> {TLet, TFn, TAsync, TIf, TWhile, TFor, TReturn, TBreak, TContinue,
     TImport, TThrow, TTry, TDefer}"

primrec synchronize_loop :: "nat \<Rightarrow> engine \<Rightarrow> engine" where
  "synchronize_loop 0 e = e"
| "synchronize_loop (Suc n) e =
    (if no_more_tokens e then e
     else if check TRightBrace e then e
     else if statement_keyword (tok_kind (peek e)) then e
     else let e' = skip_token e in
       if tok_kind (previous e') = TSemicolon then e' else synchronize_loop n e')"

definition synchronize :: "engine \<Rightarrow> engine" where
  "synchronize e =
    (if no_more_tokens e then e
     else if en_current e > 0 \<and> tok_kind (previous e) = TSemicolon then e
     else synchronize_loop (length (en_tokens e) - en_current e) e)"

section \<open>Blocks and statement sequences\<close>

text \<open>The productions that are entered again below a token that was consumed.\<close>

record parsers =
  p_expression :: "expression parser"
  p_unary :: "expression parser"
  p_statement :: "statement parser"

text \<open>One turn of the loop of \<open>block\<close> and of \<open>run\<close>; \<open>stuck\<close> says when a turn that consumed
  nothing skips a token.\<close>

definition statement_turn ::
  "parsers \<Rightarrow> (engine \<Rightarrow> bool) \<Rightarrow> statement list \<Rightarrow> statement list parser" where
  "statement_turn P stuck statements e =
    (let progress = (\<lambda>e'. if en_current e' = en_current e \<and> stuck e' then skip_token e' else e') in
     case p_statement P e of
       Done s e' \<Rightarrow> Done (statements @ [s]) (progress e')
     | Failed e' \<Rightarrow> Done statements (progress (synchronize e'))
     | OutOfFuel \<Rightarrow> OutOfFuel)"

primrec block_loop :: "nat \<Rightarrow> parsers \<Rightarrow> statement list \<Rightarrow> statement list parser" where
  "block_loop 0 P statements e = OutOfFuel"
| "block_loop (Suc n) P statements e =
    (if check TRightBrace e \<or> no_more_tokens e then Done statements e
     else and_then (statement_turn P (\<lambda>e'. \<not> no_more_tokens e' \<and> \<not> check TRightBrace e') statements)
       (block_loop n P) e)"

definition block_after :: "parsers \<Rightarrow> token \<Rightarrow> block parser" where
  "block_after P opening =
    and_then (bounded (\<lambda>n. block_loop n P [])) (\<lambda>statements.
    and_then (consume TRightBrace (''expected '' @ quoted ''}'' @ '' after block'')) (\<lambda>ending.
    yield (Block (joined (tok_span opening) (tok_span ending)) statements)))"

definition required_block :: "parsers \<Rightarrow> string \<Rightarrow> block parser" where
  "required_block P message = and_then (consume TLeftBrace message) (block_after P)"

section \<open>Numbers\<close>

definition decimal_value :: "string \<Rightarrow> nat" where
  "decimal_value digits = foldl (\<lambda>n c. 10 * n + (byte_of c - byte_of CHR ''0'')) 0 digits"

text \<open>
  \<open>std::from_chars\<close> into an \<open>int64_t\<close>: whether it succeeded, and the value, which stays 0
  on an error.
\<close>

definition from_chars_int64 :: "string \<Rightarrow> bool \<times> 64 word" where
  "from_chars_int64 s =
    (let negative = (s \<noteq> [] \<and> hd s = CHR ''-'');
         digits = takeWhile is_ascii_digit (if negative then tl s else s);
         n = decimal_value digits in
     if digits = [] then (False, 0)
     else if negative then (if n \<le> 2 ^ 63 then (True, - of_nat n) else (False, 0))
     else (if n < 2 ^ 63 then (True, of_nat n) else (False, 0)))"

definition infinity_bits :: nat where
  "infinity_bits = 0x7ff * 2 ^ 52"

text \<open>
  The double nearest to a positive quotient, ties to even, as the bits of its representation:
  the significand \<open>q\<close> has at most 53 bits, the exponent \<open>k\<close> is at least \<open>-1074\<close>, and the
  sum carries a rounding up to \<open>2^53\<close> into the exponent field.
\<close>

definition double_bits :: "nat \<Rightarrow> nat \<Rightarrow> nat" where
  "double_bits num den =
    (let scaled = (\<lambda>k. (num * 2 ^ nat (- k), den * 2 ^ nat k));
         k0 = int (floorlog 2 num) - int (floorlog 2 den) - 53;
         k = max (- 1074) (if fst (scaled k0) < 2 ^ 53 * snd (scaled k0) then k0 else k0 + 1);
         (n, d) = scaled k;
         q = n div d;
         up = (2 * (n mod d) > d \<or> 2 * (n mod d) = d \<and> odd q)
     in min infinity_bits ((if up then q + 1 else q) + nat (k + 1074) * 2 ^ 52))"

definition decimal_double :: "nat \<Rightarrow> int \<Rightarrow> nat" where
  "decimal_double m e = (if m = 0 then 0 else double_bits (m * 10 ^ nat e) (10 ^ nat (- e)))"

text \<open>
  \<open>std::strtod\<close> in the C locale on a decimal literal without a sign: how many bytes it
  consumed and the double.
\<close>

definition exponent_part :: "string \<Rightarrow> int \<times> string" where
  "exponent_part s =
    (case s of
       c # r \<Rightarrow>
         if c = CHR ''e'' \<or> c = CHR ''E'' then
           let signed = (r \<noteq> [] \<and> is_sign (hd r));
               r' = (if signed then tl r else r);
               digits = takeWhile is_ascii_digit r';
               n = int (decimal_value digits)
           in if digits = [] then (0, s)
              else (if signed \<and> hd r = CHR ''-'' then - n else n, dropWhile is_ascii_digit r')
         else (0, s)
     | [] \<Rightarrow> (0, s))"

definition strtod :: "string \<Rightarrow> nat \<times> nat" where
  "strtod s =
    (let whole = takeWhile is_ascii_digit s;
         rest = dropWhile is_ascii_digit s;
         point = (rest \<noteq> [] \<and> hd rest = CHR ''.'');
         fraction = (if point then takeWhile is_ascii_digit (tl rest) else []);
         rest' = (if point then dropWhile is_ascii_digit (tl rest) else rest)
     in if whole @ fraction = [] then (0, 0)
        else let (e, rest'') = exponent_part rest' in
          (length s - length rest'',
           decimal_double (decimal_value (whole @ fraction)) (e - int (length fraction))))"

section \<open>Functions and calls\<close>

text \<open>Another turn: \<open>match(Comma) && !check(ending)\<close>.\<close>

definition comma_then :: "token_kind \<Rightarrow> bool parser" where
  "comma_then ending =
    and_then (match_token TComma) (\<lambda>comma.
    and_then (asks (check ending)) (\<lambda>closing.
    yield (comma \<and> \<not> closing)))"

definition default_value :: "parsers \<Rightarrow> bool \<Rightarrow> token \<Rightarrow> expression option parser" where
  "default_value P saw_default name =
    and_then (match_token TEqual) (\<lambda>given.
    if given then and_then (p_expression P) (\<lambda>x. yield (Some x))
    else and_then (report_if saw_default ''PAR005''
           ''required parameter cannot follow a default parameter'' (tok_span name))
         (\<lambda>u. yield None))"

definition parameter_span :: "token \<Rightarrow> expression option \<Rightarrow> source_span" where
  "parameter_span name preset = (case preset of None \<Rightarrow> tok_span name
     | Some x \<Rightarrow> (tok_span name)\<lparr>span_end := span_end (expression_span x)\<rparr>)"

text \<open>The set \<open>names\<close> of the code is the set of the names in \<open>result\<close>, and \<open>saw_default\<close>
  is set when some parameter of \<open>result\<close> has a default.\<close>

primrec parameters_loop :: "nat \<Rightarrow> parsers \<Rightarrow> parameter list \<Rightarrow> parameter list parser" where
  "parameters_loop 0 P result = (\<lambda>e. OutOfFuel)"
| "parameters_loop (Suc n) P result =
    and_then (consume TIdentifier ''expected parameter name'') (\<lambda>name.
    and_then (default_value P (list_ex (\<lambda>p. parameter_default p \<noteq> None) result) name) (\<lambda>preset.
    and_then (report_if (tok_lexeme name \<in> set (map parameter_name result)) ''PAR004''
      (''duplicate parameter '' @ quoted (tok_lexeme name)) (tok_span name)) (\<lambda>u.
    and_then (comma_then TRightParen) (\<lambda>more.
    let result' = result @ [Parameter (tok_lexeme name) preset (parameter_span name preset)] in
    if more then parameters_loop n P result' else yield result'))))"

definition parameters :: "parsers \<Rightarrow> parameter list parser" where
  "parameters P =
    and_then (consume TLeftParen (''expected '' @ quoted ''('')) (\<lambda>u.
    and_then (asks (check TRightParen)) (\<lambda>empty.
    and_then (if empty then yield [] else bounded (\<lambda>n. parameters_loop n P [])) (\<lambda>result.
    and_then (consume TRightParen (''expected '' @ quoted '')'' @ '' after parameters'')) (\<lambda>v.
    yield result))))"

definition function_body :: "parsers \<Rightarrow> bool \<Rightarrow> block parser" where
  "function_body P is_async =
    and_then (consume TLeftBrace (''expected '' @ quoted ''{'' @ '' before function body'')) (\<lambda>opening.
    in_function is_async (block_after P opening))"

text \<open>A named argument's name; the names seen so far are those of the arguments before it.\<close>

definition argument_label :: "string list \<Rightarrow> string option parser" where
  "argument_label names e =
    (if check TIdentifier e \<and> check_next TEqual e then
       and_then next_token (\<lambda>name.
       and_then next_token (\<lambda>u.
       and_then (report_if (tok_lexeme name \<in> set names) ''PAR006''
         (''duplicate named argument '' @ quoted (tok_lexeme name)) (tok_span name)) (\<lambda>v.
       yield (Some (tok_lexeme name))))) e
     else
       and_then (report_if (names \<noteq> []) ''PAR007''
         ''positional argument cannot follow a named argument'' (tok_span (peek e)))
         (\<lambda>u. yield None) e)"

primrec arguments_loop :: "nat \<Rightarrow> parsers \<Rightarrow> call_argument list \<Rightarrow> call_argument list parser" where
  "arguments_loop 0 P arguments = (\<lambda>e. OutOfFuel)"
| "arguments_loop (Suc n) P arguments =
    and_then (asks peek) (\<lambda>first.
    and_then (argument_label (List.map_filter argument_name arguments)) (\<lambda>name.
    and_then (p_expression P) (\<lambda>x.
    and_then (comma_then TRightParen) (\<lambda>more.
    let arguments' = arguments @ [CallArgument name x (joined (tok_span first) (expression_span x))] in
    if more then arguments_loop n P arguments' else yield arguments'))))"

definition finish_call :: "parsers \<Rightarrow> expression \<Rightarrow> expression parser" where
  "finish_call P callee =
    and_then (asks (check TRightParen)) (\<lambda>empty.
    and_then (if empty then yield [] else bounded (\<lambda>n. arguments_loop n P [])) (\<lambda>arguments.
    and_then (consume TRightParen (''expected '' @ quoted '')'' @ '' after arguments'')) (\<lambda>ending.
    yield (CallExpression (joined (expression_span callee) (tok_span ending)) callee arguments))))"

section \<open>Primary expressions\<close>

definition optional_unless :: "token_kind list \<Rightarrow> 'a parser \<Rightarrow> 'a option parser" where
  "optional_unless kinds m e =
    (if list_ex (\<lambda>k. check k e) kinds then Done None e else and_then m (\<lambda>x. yield (Some x)) e)"

definition finish_subscript :: "parsers \<Rightarrow> expression \<Rightarrow> expression parser" where
  "finish_subscript P object =
    and_then (optional_unless [TColon, TRightBracket] (p_expression P)) (\<lambda>first.
    and_then (match_token TColon) (\<lambda>slice.
    if \<not> slice then
      (case first of
         None \<Rightarrow> reject ''PAR002'' ''expected index expression''
       | Some index \<Rightarrow>
           and_then (consume TRightBracket (''expected '' @ quoted '']'' @ '' after index'')) (\<lambda>ending.
           yield (IndexExpression (joined (expression_span object) (tok_span ending)) object index)))
    else
      and_then (optional_unless [TColon, TRightBracket] (p_expression P)) (\<lambda>stop.
      and_then (match_token TColon) (\<lambda>stepped.
      and_then (if stepped then optional_unless [TRightBracket] (p_expression P) else yield None) (\<lambda>step.
      and_then (consume TRightBracket (''expected '' @ quoted '']'' @ '' after slice'')) (\<lambda>ending.
      yield (SliceExpression (joined (expression_span object) (tok_span ending)) object first stop step)))))))"

primrec elements_loop :: "nat \<Rightarrow> parsers \<Rightarrow> expression list \<Rightarrow> expression list parser" where
  "elements_loop 0 P elements = (\<lambda>e. OutOfFuel)"
| "elements_loop (Suc n) P elements =
    and_then (p_expression P) (\<lambda>x.
    and_then (comma_then TRightBracket) (\<lambda>more.
    if more then elements_loop n P (elements @ [x]) else yield (elements @ [x])))"

definition list_literal :: "parsers \<Rightarrow> token \<Rightarrow> expression parser" where
  "list_literal P opening =
    and_then (asks (check TRightBracket)) (\<lambda>empty.
    and_then (if empty then yield [] else bounded (\<lambda>n. elements_loop n P [])) (\<lambda>elements.
    and_then (consume TRightBracket (''expected '' @ quoted '']'' @ '' after list literal'')) (\<lambda>ending.
    yield (ListExpression (joined (tok_span opening) (tok_span ending)) elements))))"

primrec entries_loop :: "nat \<Rightarrow> parsers \<Rightarrow> map_entry list \<Rightarrow> map_entry list parser" where
  "entries_loop 0 P entries = (\<lambda>e. OutOfFuel)"
| "entries_loop (Suc n) P entries =
    and_then (p_expression P) (\<lambda>key.
    and_then (consume TColon (''expected '' @ quoted '':'' @ '' after map key'')) (\<lambda>u.
    and_then (p_expression P) (\<lambda>x.
    and_then (comma_then TRightBrace) (\<lambda>more.
    let entries' = entries @ [MapEntry key x (joined (expression_span key) (expression_span x))] in
    if more then entries_loop n P entries' else yield entries'))))"

definition map_literal :: "parsers \<Rightarrow> token \<Rightarrow> expression parser" where
  "map_literal P opening =
    and_then (asks (check TRightBrace)) (\<lambda>empty.
    and_then (if empty then yield [] else bounded (\<lambda>n. entries_loop n P [])) (\<lambda>entries.
    and_then (consume TRightBrace (''expected '' @ quoted ''}'' @ '' after map literal'')) (\<lambda>ending.
    yield (MapExpression (joined (tok_span opening) (tok_span ending)) entries))))"

definition function_expression :: "parsers \<Rightarrow> token \<Rightarrow> bool \<Rightarrow> expression parser" where
  "function_expression P start is_async =
    and_then (parameters P) (\<lambda>params.
    and_then (function_body P is_async) (\<lambda>body.
    yield (FunctionExpression (joined (tok_span start) (block_span body)) is_async params body)))"

definition literal :: "literal_value \<Rightarrow> token \<Rightarrow> expression parser" where
  "literal v t = yield (LiteralExpression (tok_span t) v)"

definition integer_literal :: "token \<Rightarrow> expression parser" where
  "integer_literal t =
    (let (ok, v) = from_chars_int64 (tok_lexeme t) in
     and_then (report_if (\<not> ok) ''PAR018'' ''integer literal is outside int64 range'' (tok_span t)) (\<lambda>u.
     literal (LitInteger v) t))"

definition float_literal :: "token \<Rightarrow> expression parser" where
  "float_literal t =
    (let (consumed, bits) = strtod (tok_lexeme t) in
     and_then (report_if (consumed \<noteq> length (tok_lexeme t) \<or> bits \<ge> infinity_bits)
       ''PAR019'' ''invalid finite float literal'' (tok_span t)) (\<lambda>u.
     literal (LitFloat (of_nat bits)) t))"

definition primary :: "parsers \<Rightarrow> expression parser" where
  "primary P e =
    (if check TNull e then and_then next_token (literal LitNull) e
     else if check TTrue e then and_then next_token (literal (LitBool True)) e
     else if check TFalse e then and_then next_token (literal (LitBool False)) e
     else if check TString e then and_then next_token (\<lambda>t. literal (LitString (tok_value t)) t) e
     else if check TInteger e then and_then next_token integer_literal e
     else if check TFloat e then and_then next_token float_literal e
     else if check TIdentifier e then
       and_then next_token (\<lambda>t. yield (IdentifierExpression (tok_span t) (tok_lexeme t))) e
     else if check TLeftParen e then
       and_then next_token (\<lambda>t.
       and_then (p_expression P) (\<lambda>x.
       and_then (consume TRightParen (''expected '' @ quoted '')'' @ '' after expression'')) (\<lambda>u.
       yield x))) e
     else if check TLeftBracket e then and_then next_token (list_literal P) e
     else if check TLeftBrace e then and_then next_token (map_literal P) e
     else if check TFn e then and_then next_token (\<lambda>t. function_expression P t False) e
     else if check TAsync e then
       and_then next_token (\<lambda>t.
       and_then (consume TFn (''expected '' @ quoted ''fn'' @ '' after '' @ quoted ''async'')) (\<lambda>u.
       function_expression P t True)) e
     else reject ''PAR002'' ''expected expression'' e)"

section \<open>Operators by precedence\<close>

primrec postfix_loop :: "nat \<Rightarrow> parsers \<Rightarrow> expression \<Rightarrow> expression parser" where
  "postfix_loop 0 P result = (\<lambda>e. OutOfFuel)"
| "postfix_loop (Suc n) P result = (\<lambda>e.
    if check TDot e then
      and_then next_token (\<lambda>u.
      and_then (consume TIdentifier (''expected member name after '' @ quoted ''.'')) (\<lambda>member.
      postfix_loop n P (MemberExpression (joined (expression_span result) (tok_span member)) result
        (tok_lexeme member)))) e
    else if check TLeftParen e then
      and_then next_token (\<lambda>u. and_then (finish_call P result) (postfix_loop n P)) e
    else if check TLeftBracket e then
      and_then next_token (\<lambda>u. and_then (finish_subscript P result) (postfix_loop n P)) e
    else Done result e)"

definition postfix :: "parsers \<Rightarrow> expression parser" where
  "postfix P = and_then (primary P) (\<lambda>result. bounded (\<lambda>n. postfix_loop n P result))"

definition binary :: "binary_operator \<Rightarrow> expression \<Rightarrow> expression \<Rightarrow> expression" where
  "binary operation left right =
    BinaryExpression (joined (expression_span left) (expression_span right)) operation left right"

definition power_expression :: "parsers \<Rightarrow> expression parser" where
  "power_expression P =
    and_then (postfix P) (\<lambda>left.
    and_then (match_token TPower) (\<lambda>matched.
    if \<not> matched then yield left
    else and_then (p_unary P) (\<lambda>right. yield (binary BinPower left right))))"

definition unary_operator_of :: "token_kind \<Rightarrow> unary_operator" where
  "unary_operator_of kind =
    (if kind = TPlus then UnaryPlus else if kind = TMinus then UnaryMinus else UnaryNot)"

definition unary :: "parsers \<Rightarrow> expression parser" where
  "unary P e =
    (if check TPlus e \<or> check TMinus e \<or> check TNot e then
       and_then next_token (\<lambda>t.
       and_then (p_unary P) (\<lambda>operand.
       yield (UnaryExpression (joined (tok_span t) (expression_span operand))
         (unary_operator_of (tok_kind t)) operand))) e
     else if check TAwait e then
       and_then next_token (\<lambda>t.
       and_then (asks en_in_async) (\<lambda>is_async.
       and_then (report_if (\<not> is_async) ''PAR011''
         (quoted ''await'' @ '' is only valid inside an async function'') (tok_span t)) (\<lambda>u.
       and_then (p_unary P) (\<lambda>x.
       yield (AwaitExpression (joined (tok_span t) (expression_span x)) x))))) e
     else power_expression P e)"

text \<open>A level of left-associative operators: \<open>next\<close> parses an operand, \<open>operation\<close> an operator.\<close>

primrec left_loop ::
  "nat \<Rightarrow> expression parser \<Rightarrow> binary_operator option parser \<Rightarrow> expression \<Rightarrow> expression parser" where
  "left_loop 0 operand operation left = (\<lambda>e. OutOfFuel)"
| "left_loop (Suc n) operand operation left =
    and_then operation (\<lambda>found. case found of
      None \<Rightarrow> yield left
    | Some f \<Rightarrow> and_then operand (\<lambda>right. left_loop n operand operation (binary f left right)))"

definition left_associative ::
  "expression parser \<Rightarrow> binary_operator option parser \<Rightarrow> expression parser" where
  "left_associative operand operation =
    and_then operand (\<lambda>left. bounded (\<lambda>n. left_loop n operand operation left))"

text \<open>An operator of one token, or \<open>not\<close> and a second token.\<close>

definition negatable :: "(token_kind \<times> binary_operator) list \<Rightarrow> token_kind \<Rightarrow> binary_operator \<Rightarrow>
    binary_operator option parser" where
  "negatable choices second negated =
    and_then (match_choice choices) (\<lambda>found e.
      if found = None \<and> check TNot e \<and> check_next second e then
        and_then next_token (\<lambda>u. and_then next_token (\<lambda>v. yield (Some negated))) e
      else Done found e)"

definition multiplicative :: "parsers \<Rightarrow> expression parser" where
  "multiplicative P = left_associative (unary P) (match_choice
     [(TStar, BinMultiply), (TSlash, BinDivide), (TFloorDivide, BinFloorDivide), (TPercent, BinModulo)])"

definition additive :: "parsers \<Rightarrow> expression parser" where
  "additive P = left_associative (multiplicative P) (match_choice
     [(TPlus, BinAdd), (TMinus, BinSubtract)])"

definition ordering :: "parsers \<Rightarrow> expression parser" where
  "ordering P = left_associative (additive P) (negatable
     [(TLess, BinLess), (TLessEqual, BinLessEqual), (TGreater, BinGreater),
      (TGreaterEqual, BinGreaterEqual), (TIn, BinIn)] TIn BinNotIn)"

definition equality :: "parsers \<Rightarrow> expression parser" where
  "equality P = left_associative (ordering P) (negatable
     [(TEqualEqual, BinEqual), (TBangEqual, BinNotEqual), (TIs, BinIs)] TIs BinNotIs)"

definition logical_and :: "parsers \<Rightarrow> expression parser" where
  "logical_and P = left_associative (equality P) (match_choice [(TAnd, BinAnd)])"

definition logical_or :: "parsers \<Rightarrow> expression parser" where
  "logical_or P = left_associative (logical_and P) (match_choice [(TOr, BinOr)])"

definition assignment :: "parsers \<Rightarrow> expression parser" where
  "assignment P =
    and_then (logical_or P) (\<lambda>target.
    and_then (match_choice
      [(TEqual, AssignPlain), (TPlusEqual, AssignAdd), (TMinusEqual, AssignSubtract),
       (TStarEqual, AssignMultiply), (TSlashEqual, AssignDivide),
       (TFloorDivideEqual, AssignFloorDivide), (TPercentEqual, AssignModulo)]) (\<lambda>found.
    case found of
      None \<Rightarrow> yield target
    | Some operation \<Rightarrow>
        and_then (asks previous) (\<lambda>operator_token.
        and_then (p_expression P) (\<lambda>x.
        and_then (report_if (\<not> assignable target) ''PAR003'' ''invalid assignment target''
          (joined (expression_span target) (tok_span operator_token))) (\<lambda>u.
        yield (AssignmentExpression (joined (expression_span target) (expression_span x))
          operation target x))))))"

abbreviation expression_here :: "parsers \<Rightarrow> expression parser" where
  "expression_here \<equiv> assignment"

section \<open>Statements\<close>

definition let_statement :: "parsers \<Rightarrow> token \<Rightarrow> statement parser" where
  "let_statement P start =
    and_then (consume TIdentifier (''expected binding name after '' @ quoted ''let'')) (\<lambda>name.
    and_then (consume TEqual (''expected '' @ quoted ''='' @ '' after binding name'')) (\<lambda>u.
    and_then (p_expression P) (\<lambda>initializer.
    and_then (consume TSemicolon (''expected '' @ quoted '';'' @ '' after binding'')) (\<lambda>ending.
    yield (LetStatement (joined (tok_span start) (tok_span ending)) (tok_lexeme name) initializer)))))"

definition parenthesized_condition :: "parsers \<Rightarrow> string \<Rightarrow> expression parser" where
  "parenthesized_condition P message =
    and_then (consume TLeftParen message) (\<lambda>u.
    and_then (p_expression P) (\<lambda>result.
    and_then (consume TRightParen (''expected '' @ quoted '')'' @ '' after condition'')) (\<lambda>v.
    yield result)))"

definition if_statement :: "parsers \<Rightarrow> token \<Rightarrow> statement parser" where
  "if_statement P start =
    and_then (parenthesized_condition P (''expected '' @ quoted ''('' @ '' after '' @ quoted ''if'')) (\<lambda>condition.
    and_then (p_statement P) (\<lambda>consequent.
    and_then (match_token TElse) (\<lambda>more.
    and_then (if more then and_then (p_statement P) (\<lambda>s. yield (Some s)) else yield None) (\<lambda>alternate.
    yield (IfStatement
      (joined (tok_span start) (statement_span (case alternate of Some s \<Rightarrow> s | None \<Rightarrow> consequent)))
      condition consequent alternate)))))"

definition while_statement :: "parsers \<Rightarrow> token \<Rightarrow> statement parser" where
  "while_statement P start =
    and_then (parenthesized_condition P (''expected '' @ quoted ''('' @ '' after '' @ quoted ''while'')) (\<lambda>condition.
    and_then (in_loop (p_statement P)) (\<lambda>body.
    yield (WhileStatement (joined (tok_span start) (statement_span body)) condition body)))"

definition for_statement :: "parsers \<Rightarrow> token \<Rightarrow> statement parser" where
  "for_statement P start =
    and_then (consume TLeftParen (''expected '' @ quoted ''('' @ '' after '' @ quoted ''for'')) (\<lambda>u.
    and_then (consume TIdentifier ''expected loop binding'') (\<lambda>binding.
    and_then (consume TIn (''expected '' @ quoted ''in'' @ '' after loop binding'')) (\<lambda>v.
    and_then (p_expression P) (\<lambda>iterable.
    and_then (consume TRightParen (''expected '' @ quoted '')'' @ '' after for iterable'')) (\<lambda>w.
    and_then (in_loop (p_statement P)) (\<lambda>body.
    yield (ForStatement (joined (tok_span start) (statement_span body)) (tok_lexeme binding)
      iterable body)))))))"

definition function_declaration :: "parsers \<Rightarrow> token \<Rightarrow> bool \<Rightarrow> statement parser" where
  "function_declaration P start is_async =
    and_then (consume TIdentifier ''expected function name'') (\<lambda>name.
    and_then (parameters P) (\<lambda>params.
    and_then (function_body P is_async) (\<lambda>body.
    yield (FunctionDeclaration (joined (tok_span start) (block_span body)) (tok_lexeme name)
      is_async params body))))"

definition return_statement :: "parsers \<Rightarrow> token \<Rightarrow> statement parser" where
  "return_statement P start =
    and_then (asks en_function_depth) (\<lambda>depth.
    and_then (report_if (depth = 0) ''PAR010'' (quoted ''return'' @ '' is only valid inside a function'')
      (tok_span start)) (\<lambda>u.
    and_then (optional_unless [TSemicolon] (p_expression P)) (\<lambda>x.
    and_then (consume TSemicolon (''expected '' @ quoted '';'' @ '' after return'')) (\<lambda>ending.
    yield (ReturnStatement (joined (tok_span start) (tok_span ending)) x)))))"

definition loop_exit ::
  "(source_span \<Rightarrow> statement) \<Rightarrow> string \<Rightarrow> string \<Rightarrow> token \<Rightarrow> statement parser" where
  "loop_exit node code keyword start =
    and_then (asks en_loop_depth) (\<lambda>depth.
    and_then (report_if (depth = 0) code (quoted keyword @ '' is only valid inside a loop'')
      (tok_span start)) (\<lambda>u.
    and_then (consume TSemicolon (''expected '' @ quoted '';'' @ '' after '' @ keyword)) (\<lambda>ending.
    yield (node (joined (tok_span start) (tok_span ending))))))"

definition break_statement :: "token \<Rightarrow> statement parser" where
  "break_statement = loop_exit BreakStatement ''PAR008'' ''break''"

definition continue_statement :: "token \<Rightarrow> statement parser" where
  "continue_statement = loop_exit ContinueStatement ''PAR009'' ''continue''"

definition import_statement :: "token \<Rightarrow> statement parser" where
  "import_statement start =
    and_then (consume TString (''expected module string after '' @ quoted ''import'')) (\<lambda>module.
    and_then (consume TAs (''expected '' @ quoted ''as'' @ '' after import path'')) (\<lambda>u.
    and_then (consume TIdentifier ''expected import alias'') (\<lambda>alias.
    and_then (consume TSemicolon (''expected '' @ quoted '';'' @ '' after import'')) (\<lambda>ending.
    yield (ImportStatement (joined (tok_span start) (tok_span ending)) (tok_value module)
      (tok_lexeme alias))))))"

definition throw_statement :: "parsers \<Rightarrow> token \<Rightarrow> statement parser" where
  "throw_statement P start =
    and_then (p_expression P) (\<lambda>x.
    and_then (consume TSemicolon (''expected '' @ quoted '';'' @ '' after throw'')) (\<lambda>ending.
    yield (ThrowStatement (joined (tok_span start) (tok_span ending)) x)))"

definition try_statement :: "parsers \<Rightarrow> token \<Rightarrow> statement parser" where
  "try_statement P start =
    and_then (required_block P (''expected '' @ quoted ''{'' @ '' after '' @ quoted ''try'')) (\<lambda>try_block.
    and_then (consume TCatch (''expected '' @ quoted ''catch'' @ '' after try block'')) (\<lambda>u.
    and_then (match_token TLeftParen) (\<lambda>parenthesized.
    and_then (consume TIdentifier ''expected catch binding'') (\<lambda>binding.
    and_then (if parenthesized
      then and_then (consume TRightParen (''expected '' @ quoted '')'' @ '' after catch binding'')) (\<lambda>w. yield ())
      else yield ()) (\<lambda>v.
    and_then (required_block P (''expected '' @ quoted ''{'' @ '' after catch binding'')) (\<lambda>catch_block.
    yield (TryCatchStatement (joined (tok_span start) (block_span catch_block)) try_block
      (tok_lexeme binding) catch_block)))))))"

definition defer_statement :: "parsers \<Rightarrow> token \<Rightarrow> statement parser" where
  "defer_statement P start =
    and_then (asks en_function_depth) (\<lambda>depth.
    and_then (report_if (depth = 0) ''PAR014'' (quoted ''defer'' @ '' is only valid inside a function'')
      (tok_span start)) (\<lambda>u.
    and_then (p_statement P) (\<lambda>deferred.
    yield (DeferStatement (joined (tok_span start) (statement_span deferred)) deferred))))"

definition expression_statement :: "parsers \<Rightarrow> statement parser" where
  "expression_statement P =
    and_then (expression_here P) (\<lambda>x.
    and_then (consume TSemicolon (''expected '' @ quoted '';'' @ '' after expression'')) (\<lambda>ending.
    yield (ExpressionStatement (joined (expression_span x) (tok_span ending)) x)))"

definition statement :: "parsers \<Rightarrow> statement parser" where
  "statement P e =
    (if check TLeftBrace e then
       and_then next_token (\<lambda>t. and_then (block_after P t) (\<lambda>b. yield (BlockStatement b))) e
     else if check TLet e then and_then next_token (let_statement P) e
     else if check TIf e then and_then next_token (if_statement P) e
     else if check TWhile e then and_then next_token (while_statement P) e
     else if check TFor e then and_then next_token (for_statement P) e
     else if check TAsync e \<and> check_next TFn e \<and> tok_kind (peek_at 2 e) = TIdentifier then
       and_then next_token (\<lambda>t. and_then next_token (\<lambda>u. function_declaration P t True)) e
     else if check TFn e \<and> check_next TIdentifier e then
       and_then next_token (\<lambda>t. function_declaration P t False) e
     else if check TReturn e then and_then next_token (return_statement P) e
     else if check TBreak e then and_then next_token break_statement e
     else if check TContinue e then and_then next_token continue_statement e
     else if check TImport e then and_then next_token import_statement e
     else if check TThrow e then and_then next_token (throw_statement P) e
     else if check TTry e then and_then next_token (try_statement P) e
     else if check TDefer e then and_then next_token (defer_statement P) e
     else expression_statement P e)"

section \<open>Closing the recursion\<close>

fun expression_at :: "nat \<Rightarrow> expression parser"
  and unary_at :: "nat \<Rightarrow> expression parser"
  and statement_at :: "nat \<Rightarrow> statement parser"
where
  "expression_at 0 e = OutOfFuel"
| "expression_at (Suc n) e = expression_here
     \<lparr>p_expression = expression_at n, p_unary = unary_at n, p_statement = statement_at n\<rparr> e"
| "unary_at 0 e = OutOfFuel"
| "unary_at (Suc n) e = unary
     \<lparr>p_expression = expression_at n, p_unary = unary_at n, p_statement = statement_at n\<rparr> e"
| "statement_at 0 e = OutOfFuel"
| "statement_at (Suc n) e = statement
     \<lparr>p_expression = expression_at n, p_unary = unary_at n, p_statement = statement_at n\<rparr> e"

definition knot :: "nat \<Rightarrow> parsers" where
  "knot n = \<lparr>p_expression = expression_at n, p_unary = unary_at n, p_statement = statement_at n\<rparr>"

primrec run_loop :: "nat \<Rightarrow> parsers \<Rightarrow> statement list \<Rightarrow> statement list parser" where
  "run_loop 0 P statements e = OutOfFuel"
| "run_loop (Suc n) P statements e =
    (if no_more_tokens e then Done statements e
     else and_then (statement_turn P (\<lambda>e'. \<not> no_more_tokens e') statements) (run_loop n P) e)"

record parse_result =
  pr_program :: program
  pr_diagnostics :: "diagnostic list"

definition run :: "engine \<Rightarrow> parse_result option" where
  "run e =
    (case bounded (\<lambda>n. run_loop n (knot (Suc (length (en_tokens e)))) []) e of
       Done statements e' \<Rightarrow> Some
         \<lparr>pr_program = \<lparr>program_statements = statements,
            program_span = \<lparr>span_begin = span_begin (case statements of [] \<Rightarrow> tok_span (peek e')
                | s # ss \<Rightarrow> statement_span s),
              span_end = span_end (tok_span (peek e'))\<rparr>\<rparr>,
          pr_diagnostics = en_diagnostics e'\<rparr>
     | Failed e' \<Rightarrow> None
     | OutOfFuel \<Rightarrow> None)"

definition engine_for :: "token list \<Rightarrow> diagnostic list \<Rightarrow> engine" where
  "engine_for tokens diagnostics = \<lparr>en_tokens = tokens, en_diagnostics = diagnostics, en_current = 0,
     en_loop_depth = 0, en_function_depth = 0, en_in_async = False\<rparr>"

text \<open>The constructor of \<open>Parser\<close>, which adds a missing end of file, and \<open>parse_program\<close>.\<close>

definition complete_tokens :: "token list \<Rightarrow> token list" where
  "complete_tokens tokens =
    (if tokens = [] \<or> tok_kind (last tokens) \<noteq> TEndOfFile then
       let eof = (if tokens \<noteq> [] then span_end (tok_span (last tokens))
                  else \<lparr>loc_offset = 0, loc_line = 1, loc_column = 1\<rparr>)
       in tokens @ [\<lparr>tok_kind = TEndOfFile, tok_lexeme = [], tok_value = [],
            tok_span = \<lparr>span_begin = eof, span_end = eof\<rparr>\<rparr>]
     else tokens)"

definition parse_program :: "token list \<Rightarrow> parse_result option" where
  "parse_program tokens = run (engine_for (complete_tokens tokens) [])"

definition parse :: "string \<Rightarrow> parse_result option" where
  "parse source = (let lexed = lex source in run (engine_for (lr_tokens lexed) (lr_diagnostics lexed)))"

end
