(* ===== verification/Lexer_Correct.thy ===== *)
theory Lexer_Correct
  imports Lexer
begin

text \<open>
  Correctness of the lexer: what one emitted token is (\<open>emits\<close>), the invariant of the main
  loop (\<open>lex_inv\<close>), the interface \<open>token_stream\<close> interpreted on the output of \<open>lex\<close>,
  source positions, and the relation between diagnostics and valid UTF-8.
\<close>

section \<open>Emitting one token\<close>

text \<open>The text of an identifier or keyword, and which kind and value go with which lexeme.\<close>

definition identifier_text :: "string \<Rightarrow> bool" where
  "identifier_text text \<longleftrightarrow> (\<exists>v vs. text = utf8_encode (v # vs) \<and> is_scalar v \<and> is_identifier_start v
     \<and> (\<forall>w\<in>set vs. is_scalar w \<and> is_identifier_continue w))"

definition token_shape :: "token \<Rightarrow> bool" where
  "token_shape t \<longleftrightarrow> tok_kind t = TString \<or>
     tok_value t = [] \<and>
     ((tok_lexeme t, tok_kind t) \<in> set operator_table
      \<or> identifier_text (tok_lexeme t) \<and> tok_kind t = keyword_kind (tok_lexeme t)
      \<or> tok_kind t = TInteger \<and> tok_lexeme t \<noteq> [] \<and> list_all is_ascii_digit (tok_lexeme t)
      \<or> tok_kind t = TFloat \<and> tok_lexeme t \<noteq> [])"

definition emits :: "string \<Rightarrow> scanner \<Rightarrow> scanner \<Rightarrow> bool" where
  "emits source s t \<longleftrightarrow> (\<exists>u tk. skims source s u \<and> sc_offset s < sc_offset u \<and>
     t = u\<lparr>sc_tokens := sc_tokens s @ [tk]\<rparr> \<and>
     tok_span tk = \<lparr>span_begin = location s, span_end = location u\<rparr> \<and>
     tok_lexeme tk = slice source (sc_offset s) (sc_offset u) \<and> token_shape tk)"

lemma emits_add_token:
  assumes "skims source s u" "sc_offset s < sc_offset u"
    "token_shape \<lparr>tok_kind = k, tok_lexeme = slice source (sc_offset s) (sc_offset u), tok_value = v,
      tok_span = \<lparr>span_begin = location s, span_end = location u\<rparr>\<rparr>"
  shows "emits source s (add_token source k (location s) v u)"
  unfolding emits_def using assms
  by (intro exI [of _ u] exI [of _ "\<lparr>tok_kind = k, tok_lexeme = slice source (sc_offset s) (sc_offset u),
      tok_value = v, tok_span = \<lparr>span_begin = location s, span_end = location u\<rparr>\<rparr>"])
    (auto simp: add_token_def Let_def skims_def)

subsection \<open>Identifiers\<close>

lemma advance_decoded:
  assumes "dc_valid (decode_utf8 source (sc_offset s))" "dc_value (decode_utf8 source (sc_offset s)) \<noteq> 0x0D"
  shows "sc_offset (advance source s) = sc_offset s + dc_length (decode_utf8 source (sc_offset s))"
proof -
  have "sc_offset s < length source"
    using decode_utf8_valid_prefix(1,2) [OF assms(1)] by simp
  moreover have "current source s \<noteq> CR"
    using assms(2) decode_utf8_def calculation by (auto simp: byte_of_def)
  moreover have "current source s = LF \<Longrightarrow> dc_length (decode_utf8 source (sc_offset s)) = 1"
    using calculation by (simp add: decode_utf8_def byte_of_def)
  ultimately show ?thesis
    using assms(1) by (simp add: advance_def at_end_def Let_def)
qed

lemma is_identifier_continue_not_CR: "is_identifier_continue v \<Longrightarrow> v \<noteq> 0x0D"
  by (auto simp: is_identifier_continue_def is_identifier_start_def byte_of_def)

lemma advance_slice:
  assumes "dc_valid (decode_utf8 source (sc_offset s))" "dc_value (decode_utf8 source (sc_offset s)) \<noteq> 0x0D"
  shows "slice source (sc_offset s) (sc_offset (advance source s))
    = encode_scalar (dc_value (decode_utf8 source (sc_offset s)))"
  using decode_utf8_valid_prefix(4) [OF assms(1)] by (simp add: advance_decoded [OF assms] slice_def)

lemma identifier_loop_text:
  "\<exists>vs. slice source (sc_offset s) (sc_offset (identifier_loop source s)) = utf8_encode vs
     \<and> (\<forall>w\<in>set vs. is_scalar w \<and> is_identifier_continue w)"
proof (induction source s rule: identifier_loop.induct)
  case (1 source s)
  let ?d = "decode_utf8 source (sc_offset s)"
  show ?case
  proof (cases "\<not> at_end source s \<and> dc_valid ?d \<and> is_identifier_continue (dc_value ?d)")
    case True
    then obtain vs where vs: "\<forall>w\<in>set vs. is_scalar w \<and> is_identifier_continue w"
      "slice source (sc_offset (advance source s)) (sc_offset (identifier_loop source (advance source s)))
         = utf8_encode vs"
      using 1 by blast
    have "slice source (sc_offset s) (sc_offset (identifier_loop source (advance source s)))
        = encode_scalar (dc_value ?d) @ utf8_encode vs"
      using True vs(2) skims_offset [OF skims_identifier_loop [of source "advance source s"]]
      by (simp flip: advance_slice [OF _ is_identifier_continue_not_CR] vs(2)
          add: slice_append advance_mono)
    then show ?thesis
      using True vs(1) decode_utf8_valid_prefix(3) [of source "sc_offset s"]
      by (intro exI [of _ "dc_value ?d # vs"]) (simp add: identifier_loop_step)
  next
    case False
    then have "identifier_loop source s = s" by (subst identifier_loop.simps) auto
    then show ?thesis by (intro exI [of _ "[]"]) simp
  qed
qed

lemma scan_identifier_emits:
  assumes "\<not> at_end source s" "dc_valid (decode_utf8 source (sc_offset s))"
    "is_identifier_start (dc_value (decode_utf8 source (sc_offset s)))"
  shows "emits source s (scan_identifier source s)"
proof -
  let ?d = "decode_utf8 source (sc_offset s)" and ?u = "identifier_loop source s"
  have cont: "is_identifier_continue (dc_value ?d)"
    using assms(3) by (simp add: is_identifier_continue_def)
  obtain vs where vs: "\<forall>w\<in>set vs. is_scalar w \<and> is_identifier_continue w"
    "slice source (sc_offset (advance source s)) (sc_offset (identifier_loop source (advance source s)))
       = utf8_encode vs"
    using identifier_loop_text by blast
  have "slice source (sc_offset s) (sc_offset ?u) = utf8_encode (dc_value ?d # vs)"
    using assms cont vs(2) skims_offset [OF skims_identifier_loop [of source "advance source s"]]
    by (simp flip: advance_slice [OF _ is_identifier_continue_not_CR] vs(2)
        add: slice_append advance_mono identifier_loop_step)
  then have "identifier_text (slice source (sc_offset s) (sc_offset ?u))"
    unfolding identifier_text_def using vs(1) assms decode_utf8_valid_prefix(3) by blast
  then show ?thesis
    unfolding scan_identifier_def Let_def location_simps
    by (intro emits_add_token) (simp_all add: skims_identifier_loop scan_identifier_progress assms token_shape_def)
qed

subsection \<open>Numbers\<close>

lemma advance_digit:
  assumes "\<not> at_end source s" "is_ascii_digit (current source s)"
  shows "sc_offset (advance source s) = Suc (sc_offset s)"
proof -
  have "byte_of (current source s) \<le> 0x7f" "current source s \<noteq> CR" "current source s \<noteq> LF"
    using assms(2) by (auto simp: is_ascii_digit_def byte_of_def)
  then show ?thesis
    using assms(1) by (simp add: advance_def at_end_def Let_def decode_utf8_def)
qed

lemma digits_loop_text:
  "list_all is_ascii_digit (slice source (sc_offset s) (sc_offset (digits_loop source s)))"
proof (induction source s rule: digits_loop.induct)
  case (1 source s)
  show ?case
  proof (cases "\<not> at_end source s \<and> is_ascii_digit (current source s)")
    case True
    let ?t = "digits_loop source (advance source s)"
    have "Suc (sc_offset s) \<le> sc_offset ?t"
      using True skims_offset [OF skims_digits_loop [of source "advance source s"]]
      by (simp add: advance_digit)
    then have "slice source (sc_offset s) (sc_offset ?t)
        = current source s # slice source (Suc (sc_offset s)) (sc_offset ?t)"
      using True by (simp add: slice_def at_end_def drop_eq_Cons_nth Suc_diff_le take_Cons')
    with True 1 show ?thesis by (simp add: digits_loop_step advance_digit)
  next
    case False
    then have "digits_loop source s = s" by (subst digits_loop.simps) auto
    then show ?thesis by simp
  qed
qed

lemma scan_number_emits:
  assumes "\<not> at_end source s" "is_ascii_digit (current source s)"
  shows "emits source s (scan_number source s)"
proof -
  define s1 where "s1 = digits_loop source s"
  obtain fraction s2 where f: "scan_fraction source s1 = (fraction, s2)" by fastforce
  obtain exponent s3 where e: "scan_exponent source s2 = (exponent, s3)" by fastforce
  have skims: "skims source s s1" "skims source s1 s2" "skims source s2 s3"
    using skims_digits_loop [of source s] skims_scan_fraction [of source s1]
      skims_scan_exponent [of source s2]
    by (simp_all only: s1_def [symmetric] f e snd_conv)
  have lt: "sc_offset s < sc_offset s1" unfolding s1_def by (rule digits_loop_progress [OF assms])
  then have lt3: "sc_offset s < sc_offset s3" using skims(2,3) [THEN skims_offset] by simp
  have "s3 = s1" if "\<not> (fraction \<or> exponent)"
    using that f e by (auto simp: scan_fraction_def scan_exponent_def Let_def split: if_splits)
  moreover have "slice source (sc_offset s) (sc_offset s3) \<noteq> []"
    using lt3 assms(1) by (simp add: slice_def at_end_def)
  ultimately have "token_shape \<lparr>tok_kind = if fraction \<or> exponent then TFloat else TInteger,
      tok_lexeme = slice source (sc_offset s) (sc_offset s3), tok_value = [],
      tok_span = \<lparr>span_begin = location s, span_end = location s3\<rparr>\<rparr>"
    using digits_loop_text [of source s] by (auto simp: token_shape_def s1_def)
  moreover have "skims source s s3" using skims by (blast intro: skims_trans)
  ultimately show ?thesis
    using lt3 unfolding scan_number_def Let_def s1_def [symmetric] f e prod.case
    by (intro emits_add_token)
qed

subsection \<open>Strings and operators\<close>

lemma string_loop_emits:
  assumes "skims source s0 s" "sc_offset s0 < sc_offset s"
  shows "emits source s0 (string_loop source quote (location s0) val s)"
  using assms
proof (induction source quote "location s0" val s rule: string_loop.induct)
  case (1 source quote val s)
  let ?s1 = "advance source s" and ?s2 = "advance source (advance source s)"
  have string: "emits source s0 (add_token source TString (location s0) v u)"
    if "skims source s0 u" "sc_offset s0 < sc_offset u" for u v
    using that by (intro emits_add_token) (simp_all add: token_shape_def)
  have later: "skims source s0 t \<and> sc_offset s0 < sc_offset t" if "skims source s t" for t
    using that "1.prems" skims_offset [OF that] by (auto intro: skims_trans)
  have unterm: "emits source s0 (unterminated_string source (location s0) v u)"
    if "skims source s u" for u v
    unfolding unterminated_string_def
    using later [OF that] by (intro string skims_add_error) (auto dest: skims_moves)
  have s1: "skims source s ?s1" "skims source s ?s2"
    "skims source s (add_error c m (location s) ?s2)"
    "skims source s (diagnose_invalid_utf8 source s)" for c m
    by (auto intro: skims_trans [OF skims_advance] moves_trans [OF moves_advance]
        intro!: skims_add_error)
  consider (eof) "at_end source s" | (quote) "\<not> at_end source s" "current source s = quote"
    | (newline) "\<not> at_end source s" "current source s \<noteq> quote" "current source s = LF \<or> current source s = CR"
    | (escape) "\<not> at_end source s" "current source s \<noteq> quote" "\<not> (current source s = LF \<or> current source s = CR)"
        "current source s = CHR 0x5C"
    | (scalar) "\<not> at_end source s" "current source s \<noteq> quote" "\<not> (current source s = LF \<or> current source s = CR)"
        "current source s \<noteq> CHR 0x5C" by blast
  then show ?case
  proof cases
    case eof
    then show ?thesis using unterm [OF skims_refl] by (subst string_loop.simps) simp
  next
    case quote
    then show ?thesis using string later [OF s1(1)] by (subst string_loop.simps) simp
  next
    case newline
    then show ?thesis using unterm [OF skims_refl] by (subst string_loop.simps) simp
  next
    case escape
    show ?thesis
    proof (cases "at_end source ?s1")
      case True
      with escape show ?thesis using unterm [OF s1(1)] by (subst string_loop.simps) simp
    next
      case False
      have "emits source s0 (string_loop source quote (location s0) (val @ [c]) ?s2)"
        if "escape_value (current source ?s1) = Some c" for c
        using "1.hyps"(2) [OF escape refl False refl refl that] later [OF s1(2)] by simp
      moreover have "emits source s0 (string_loop source quote (location s0) (val @ [current source ?s1])
          (add_error ''LEX005'' ''unknown escape sequence'' (location s) ?s2))"
        if "escape_value (current source ?s1) = None"
        using "1.hyps"(1) [OF escape refl False refl refl that] later [OF s1(3)] by simp
      ultimately show ?thesis
        using escape False by (subst string_loop.simps) (simp add: Let_def split: option.split)
    qed
  next
    case scalar
    let ?d = "decode_utf8 source (sc_offset s)"
    have "emits source s0 (string_loop source quote (location s0) (val @ replacement_character)
        (diagnose_invalid_utf8 source s))" if "\<not> dc_valid ?d"
      using "1.hyps"(3) [OF scalar refl that] later [OF s1(4)] by simp
    moreover have "emits source s0 (string_loop source quote (location s0)
        (val @ take (dc_length ?d) (drop (sc_offset s) source)) ?s1)" if "dc_valid ?d"
      using "1.hyps"(4) [OF scalar refl] that later [OF s1(1)] by simp
    ultimately show ?thesis
      using scalar by (subst string_loop.simps) (simp add: Let_def)
  qed
qed

lemma scan_string_emits:
  assumes "\<not> at_end source s"
  shows "emits source s (scan_string source quote s)"
  unfolding scan_string_def
  by (rule string_loop_emits) (simp_all add: advance_progress assms)

lemma operator_characters:
  "(text, kind) \<in> set operator_table \<Longrightarrow> c \<in> set text \<Longrightarrow> byte_of c < 0x80 \<and> c \<noteq> CR \<and> c \<noteq> LF"
  by (auto simp: operator_table_def byte_of_def)

lemma advance_ascii_char:
  assumes "sc_offset s < length source" "byte_of (current source s) < 0x80"
    "current source s \<noteq> CR" "current source s \<noteq> LF"
  shows "sc_offset (advance source s) = Suc (sc_offset s)"
  using assms by (simp add: advance_def at_end_def Let_def decode_utf8_def)

lemma advance_ascii_text:
  assumes "starts_with source s word" "\<And>c. c \<in> set word \<Longrightarrow> byte_of c < 0x80 \<and> c \<noteq> CR \<and> c \<noteq> LF"
  shows "sc_offset (advance_ascii source (length word) s) = sc_offset s + length word"
  using assms
proof (induction word arbitrary: s)
  case (Cons c word)
  then have off: "sc_offset s < length source"
    using starts_with_not_at_end [of source s "c # word"] by (simp add: at_end_def)
  then have c: "current source s = c" "take (length word) (drop (Suc (sc_offset s)) source) = word"
    using Cons.prems(1) by (simp_all add: starts_with_def drop_eq_Cons_nth)
  with Cons.prems(2) off have "sc_offset (advance source s) = Suc (sc_offset s)"
    by (intro advance_ascii_char) auto
  with c Cons show ?case by (simp add: starts_with_def)
qed simp

lemma scan_operator_emits:
  assumes "find_operator source s = Some (text, kind)"
  shows "emits source s (scan_operator_or_error source s)"
proof -
  note table = find_operator_Some [OF assms]
  have "sc_offset (advance_ascii source (length text) s) = sc_offset s + length text"
    using table operator_characters by (intro advance_ascii_text) blast+
  moreover from this have "slice source (sc_offset s) (sc_offset (advance_ascii source (length text) s)) = text"
    using table(2) by (simp add: slice_def starts_with_def)
  ultimately show ?thesis
    using table operator_table_nonempty [OF table(1)]
    by (auto simp: scan_operator_or_error_def assms emit_operator_def token_shape_def intro!: emits_add_token)
qed

lemma scan_token_cases:
  assumes "\<not> at_end source s" "dc_valid (decode_utf8 source (sc_offset s))"
  shows "emits source s (scan_token source (decode_utf8 source (sc_offset s)) s)
    \<or> skims source s (scan_token source (decode_utf8 source (sc_offset s)) s)"
proof -
  have err: "skims source s (add_error c m (location s) (advance source s))" for c m
    by (rule skims_add_error) simp_all
  have op: "emits source s (scan_operator_or_error source s) \<or> skims source s (scan_operator_or_error source s)"
  proof (cases "find_operator source s")
    case None
    then show ?thesis by (simp add: scan_operator_or_error_def err)
  next
    case (Some p)
    then show ?thesis by (cases p) (blast intro: scan_operator_emits)
  qed
  show ?thesis
    using op scan_identifier_emits [OF assms] scan_number_emits [OF assms(1)]
      scan_string_emits [OF assms(1)] decode_utf8_one [OF assms(2)]
    by (auto simp: scan_token_def)
qed

section \<open>The invariant of the main loop\<close>

definition on_track :: "string \<Rightarrow> source_location \<Rightarrow> bool" where
  "on_track source l \<longleftrightarrow> (\<exists>u. moves source scanner_start u \<and> l = location u)"

definition good_span :: "string \<Rightarrow> nat \<Rightarrow> source_span \<Rightarrow> bool" where
  "good_span source limit sp \<longleftrightarrow> on_track source (span_begin sp) \<and> on_track source (span_end sp) \<and>
     loc_offset (span_begin sp) \<le> loc_offset (span_end sp) \<and> loc_offset (span_end sp) \<le> limit"

definition good_token :: "string \<Rightarrow> nat \<Rightarrow> token \<Rightarrow> bool" where
  "good_token source limit t \<longleftrightarrow> good_span source limit (tok_span t) \<and> token_shape t \<and>
     loc_offset (span_begin (tok_span t)) < loc_offset (span_end (tok_span t)) \<and>
     tok_lexeme t = slice source (loc_offset (span_begin (tok_span t))) (loc_offset (span_end (tok_span t)))"

definition lex_inv :: "string \<Rightarrow> scanner \<Rightarrow> bool" where
  "lex_inv source s \<longleftrightarrow> moves source scanner_start s \<and> sc_offset s \<le> length source \<and>
     (\<forall>t\<in>set (sc_tokens s). good_token source (sc_offset s) t) \<and>
     sorted_wrt token_before (sc_tokens s) \<and>
     (\<forall>d\<in>set (sc_diagnostics s). diag_severity d = SevError \<and> good_span source (sc_offset s) (diag_span d))"

lemma good_span_mono: "good_span source m sp \<Longrightarrow> m \<le> n \<Longrightarrow> good_span source n sp"
  by (auto simp: good_span_def)

lemma good_token_mono: "good_token source m t \<Longrightarrow> m \<le> n \<Longrightarrow> good_token source n t"
  by (auto simp: good_token_def intro: good_span_mono)

lemma lex_inv_start: "lex_inv source scanner_start"
  by (simp add: lex_inv_def scanner_start_def)

lemma lex_inv_skims:
  assumes "lex_inv source s" "skims source s t"
  shows "lex_inv source t"
proof -
  have start: "moves source scanner_start s" and off: "sc_offset s \<le> sc_offset t"
    using assms by (auto simp: lex_inv_def dest: skims_offset)
  obtain ds where ds: "sc_diagnostics t = sc_diagnostics s @ ds" "\<forall>d\<in>set ds. spans_way source s t d"
    using assms(2) by (auto simp: skims_def)
  have "good_span source (sc_offset t) (diag_span d)" if "spans_way source s t d" for d
  proof -
    from that obtain u v where "moves source s u" "moves source u v" "moves source v t"
      "diag_span d = \<lparr>span_begin = location u, span_end = location v\<rparr>"
      by (auto simp: spans_way_def)
    then show ?thesis
      using start moves_offset [of source u v] moves_offset [of source v t]
        moves_trans [OF start, of u] moves_trans [OF moves_trans [OF start], of u v]
      by (auto simp: good_span_def on_track_def)
  qed
  then show ?thesis
    using assms off ds moves_trans [OF start skims_moves [OF assms(2)]]
      moves_bound [OF skims_moves [OF assms(2)]] good_token_mono [OF _ off] good_span_mono [OF _ off]
    by (auto simp: lex_inv_def skims_def spans_way_def)
qed

lemma location_tokens: "location u = location (u\<lparr>sc_tokens := ts\<rparr>)"
  by (simp add: location_def)

lemma lex_inv_emits:
  assumes "lex_inv source s" "emits source s t"
  shows "lex_inv source t"
proof -
  obtain u tk where u: "skims source s u" "sc_offset s < sc_offset u" and
    t: "t = u\<lparr>sc_tokens := sc_tokens s @ [tk]\<rparr>" and
    tk: "tok_span tk = \<lparr>span_begin = location s, span_end = location u\<rparr>"
      "tok_lexeme tk = slice source (sc_offset s) (sc_offset u)" "token_shape tk"
    using assms(2) by (auto simp: emits_def)
  have inv: "lex_inv source u" by (rule lex_inv_skims [OF assms(1) u(1)])
  have toks: "sc_tokens u = sc_tokens s" using u(1) by (simp add: skims_def)
  have "on_track source (location s)" "on_track source (location u)"
    using assms(1) inv by (auto simp: lex_inv_def on_track_def)
  then have "good_token source (sc_offset u) tk"
    using u(2) tk by (simp add: good_token_def good_span_def)
  moreover have "\<forall>x\<in>set (sc_tokens s). token_before x tk"
    using assms(1) tk(1) by (auto simp: lex_inv_def good_token_def good_span_def token_before_def)
  moreover have "moves source scanner_start t"
    using inv unfolding t lex_inv_def by (blast intro: moves_trans moves_same location_tokens)
  ultimately show ?thesis
    using inv by (auto simp: t lex_inv_def toks sorted_wrt_append)
qed

lemma lex_inv_scan_loop: "lex_inv source s \<Longrightarrow> lex_inv source (scan_loop source s)"
proof (induction source s rule: scan_loop.induct)
  case (1 source s)
  let ?s1 = "skip_trivia source s"
  have s1: "lex_inv source ?s1" by (rule lex_inv_skims [OF "1.prems" skims_skip_trivia])
  have err: "lex_inv source (add_error c m (location ?s1) (advance source ?s1))" for c m
    by (rule lex_inv_skims [OF s1 skims_add_error]) simp_all
  have bad: "lex_inv source (diagnose_invalid_utf8 source ?s1)"
    by (rule lex_inv_skims [OF s1]) simp
  have tok: "lex_inv source (scan_token source (decode_utf8 source (sc_offset ?s1)) ?s1)"
    if "\<not> at_end source ?s1" "dc_valid (decode_utf8 source (sc_offset ?s1))"
    using scan_token_cases [OF that] lex_inv_emits [OF s1] lex_inv_skims [OF s1] by blast
  show ?case
    by (subst scan_loop.simps) (use 1 s1 err bad tok in \<open>auto simp: Let_def\<close>)
qed

lemma scan_loop_at_end: "at_end source (scan_loop source s)"
proof (induction source s rule: scan_loop.induct)
  case (1 source s)
  then show ?case by (subst scan_loop.simps) (auto simp: Let_def)
qed

section \<open>Sources without a diagnostic\<close>

text \<open>
  As long as nothing was diagnosed, what was scanned is valid UTF-8, and so is the value of
  every token.
\<close>

definition clean :: "string \<Rightarrow> scanner \<Rightarrow> bool" where
  "clean source s \<longleftrightarrow> (sc_diagnostics s = [] \<longrightarrow>
     valid_utf8 (take (sc_offset s) source) \<and> (\<forall>t\<in>set (sc_tokens s). valid_utf8 (tok_value t)))"

lemma ascii_valid:
  "n < length source \<Longrightarrow> byte_of (source ! n) < 0x80 \<Longrightarrow>
   decode_utf8 source n = \<lparr>dc_value = byte_of (source ! n), dc_length = 1, dc_valid = True\<rparr>"
  by (simp add: decode_utf8_def)

lemma valid_utf8_take_ascii:
  "valid_utf8 (take n source) \<Longrightarrow> n < length source \<Longrightarrow> byte_of (source ! n) < 0x80 \<Longrightarrow>
   valid_utf8 (take (Suc n) source)"
  using lexer_decoder.valid_utf8_extend [of n source] by (simp add: ascii_valid)

lemma advance_valid:
  assumes "valid_utf8 (take (sc_offset s) source)" "\<not> at_end source s"
    "dc_valid (decode_utf8 source (sc_offset s))"
  shows "valid_utf8 (take (sc_offset (advance source s)) source)"
proof -
  have n: "sc_offset s < length source" using assms(2) by (simp add: at_end_def)
  show ?thesis
  proof (cases "current source s = CR \<or> current source s = LF")
    case True
    then have one: "valid_utf8 (take (Suc (sc_offset s)) source)"
      using assms(1) n by (intro valid_utf8_take_ascii) (auto simp: byte_of_def)
    have two: "Suc (sc_offset s) < length source \<Longrightarrow> source ! Suc (sc_offset s) = LF \<Longrightarrow>
        valid_utf8 (take (Suc (Suc (sc_offset s))) source)"
      using valid_utf8_take_ascii [OF one] by (simp add: byte_of_def)
    show ?thesis
      using True n one two by (auto simp: advance_def at_end_def Let_def not_le)
  next
    case False
    then show ?thesis
      using n assms lexer_decoder.valid_utf8_extend [OF assms(1,3)]
      by (simp add: advance_def at_end_def Let_def)
  qed
qed

lemma clean_advance:
  "clean source s \<Longrightarrow> dc_valid (decode_utf8 source (sc_offset s)) \<Longrightarrow> clean source (advance source s)"
  using advance_valid [of s source] by (cases "at_end source s") (auto simp: clean_def advance_at_end)

lemma clean_advance_ascii:
  "clean source s \<Longrightarrow> (sc_offset s < length source \<Longrightarrow> byte_of (current source s) < 0x80) \<Longrightarrow>
   clean source (advance source s)"
  by (cases "sc_offset s < length source")
    (auto intro: clean_advance simp: ascii_valid advance_at_end at_end_def)

lemma clean_add_error [simp]: "clean source (add_error c m l s)"
  by (simp add: clean_def)

lemma clean_diagnose [simp]: "clean source (diagnose_invalid_utf8 source s)"
  by (simp add: clean_def)

lemma clean_add_token:
  "clean source s \<Longrightarrow> (sc_diagnostics s = [] \<Longrightarrow> valid_utf8 v) \<Longrightarrow> clean source (add_token source k l v s)"
  by (auto simp: clean_def) (auto simp: add_token_def Let_def)

lemma clean_skip_scalar: "clean source s \<Longrightarrow> clean source (skip_scalar source s)"
  by (simp add: skip_scalar_def clean_advance)

lemma clean_starts_with:
  assumes "starts_with source s word" "\<And>c. c \<in> set word \<Longrightarrow> byte_of c < 0x80 \<and> c \<noteq> CR \<and> c \<noteq> LF"
    "clean source s"
  shows "clean source (advance_ascii source (length word) s)"
  using assms
proof (induction word arbitrary: s)
  case (Cons c word)
  then have off: "sc_offset s < length source"
    using starts_with_not_at_end [of source s "c # word"] by (simp add: at_end_def)
  then have c: "current source s = c" "take (length word) (drop (Suc (sc_offset s)) source) = word"
    using Cons.prems(1) by (simp_all add: starts_with_def drop_eq_Cons_nth)
  have "sc_offset (advance source s) = Suc (sc_offset s)"
    using Cons.prems(2) c off by (intro advance_ascii_char) auto
  moreover have "clean source (advance source s)"
    using Cons.prems c by (intro clean_advance_ascii) auto
  ultimately show ?case using c Cons by (simp add: starts_with_def)
qed simp

lemma clean_skip_spaces: "clean source s \<Longrightarrow> clean source (skip_spaces source s)"
proof (induction source s rule: skip_spaces.induct)
  case (1 source s)
  have "byte_of (current source s) < 0x80" if "is_space (current source s)"
    using that by (auto simp: is_space_def byte_of_def)
  with 1 show ?case by (subst skip_spaces.simps) (auto intro: clean_advance_ascii)
qed

lemma clean_skip_line_comment: "clean source s \<Longrightarrow> clean source (skip_line_comment source s)"
proof (induction source s rule: skip_line_comment.induct)
  case (1 source s)
  then show ?case by (subst skip_line_comment.simps) (auto intro: clean_skip_scalar)
qed

lemma clean_comment_mark:
  assumes "starts_with source s [a, b]" "byte_of a < 0x80" "byte_of b < 0x80"
    "a \<noteq> CR" "a \<noteq> LF" "b \<noteq> CR" "b \<noteq> LF" "clean source s"
  shows "clean source (advance_ascii source 2 s)"
  using clean_starts_with [OF assms(1) _ assms(8)] assms by (auto simp: numeral_2_eq_2)

lemma clean_skip_block_comment:
  "clean source s \<Longrightarrow> clean source (snd (skip_block_comment source depth s))"
proof (induction source depth s rule: skip_block_comment.induct)
  case (1 source depth s)
  have "clean source (advance_ascii source 2 s)"
    if "starts_with source s ''/*'' \<or> starts_with source s ''*/''"
    using that 1(4) clean_comment_mark by (auto simp: byte_of_def)
  with 1 show ?case by (subst skip_block_comment.simps) (auto intro: clean_skip_scalar)
qed

lemma clean_skip_trivia: "clean source s \<Longrightarrow> clean source (skip_trivia source s)"
proof (induction source s rule: skip_trivia.induct)
  case (1 source s)
  define s1 where "s1 = skip_spaces source s"
  obtain depth s2 where s2: "skip_block_comment source 1 (advance_ascii source 2 s1) = (depth, s2)"
    by fastforce
  have s1: "clean source s1" using "1.prems" by (simp add: s1_def clean_skip_spaces)
  have "clean source (skip_line_comment source (advance source s1))" if "starts_with source s1 ''#''"
    using clean_starts_with [OF that _ s1] by (simp add: byte_of_def clean_skip_line_comment)
  moreover have "clean source s2" if "starts_with source s1 ''/*''"
    using clean_skip_block_comment [of source "advance_ascii source 2 s1" 1] s2
      clean_comment_mark [OF that _ _ _ _ _ _ s1] by (simp add: byte_of_def)
  ultimately show ?case
    using 1 s1 s2 by (subst skip_trivia.simps) (auto simp: Let_def simp flip: s1_def)
qed

lemma clean_identifier_loop: "clean source s \<Longrightarrow> clean source (identifier_loop source s)"
proof (induction source s rule: identifier_loop.induct)
  case (1 source s)
  then show ?case by (subst identifier_loop.simps) (auto intro: clean_advance)
qed

lemma is_ascii_digit_ascii: "is_ascii_digit c \<Longrightarrow> byte_of c < 0x80"
  by (simp add: is_ascii_digit_def byte_of_def)

lemma clean_digits_loop: "clean source s \<Longrightarrow> clean source (digits_loop source s)"
proof (induction source s rule: digits_loop.induct)
  case (1 source s)
  then show ?case
    by (subst digits_loop.simps) (auto intro: clean_advance_ascii dest: is_ascii_digit_ascii)
qed

lemma clean_scan_fraction: "clean source s \<Longrightarrow> clean source (snd (scan_fraction source s))"
  by (auto simp: scan_fraction_def byte_is_def byte_of_def intro!: clean_digits_loop clean_advance_ascii)

lemma clean_scan_exponent: "clean source s \<Longrightarrow> clean source (snd (scan_exponent source s))"
  by (auto simp: scan_exponent_def Let_def byte_is_def is_sign_def byte_of_def
      intro!: clean_digits_loop clean_advance_ascii)

lemma clean_scan_number: "clean source s \<Longrightarrow> clean source (scan_number source s)"
  using clean_scan_exponent [OF clean_scan_fraction [OF clean_digits_loop [of source s]]]
  by (auto simp: scan_number_def Let_def split_beta intro!: clean_add_token)

lemma escape_value_ascii: "escape_value c = Some d \<Longrightarrow> byte_of c < 0x80 \<and> valid_utf8 [d]"
  by (auto simp: escape_value_def byte_of_def intro!: valid_utf8_ascii split: if_splits)


lemma clean_unterminated_string: "clean source (unterminated_string source start val s)"
  unfolding unterminated_string_def by (rule clean_add_token) simp_all

lemma clean_string_loop:
  "clean source s \<Longrightarrow> (sc_diagnostics s = [] \<Longrightarrow> valid_utf8 val) \<Longrightarrow> byte_of quote < 0x80 \<Longrightarrow>
   clean source (string_loop source quote start val s)"
proof (induction source quote start val s rule: string_loop.induct)
  case (1 source quote start val s)
  let ?s1 = "advance source s" and ?s2 = "advance source (advance source s)"
    and ?d = "decode_utf8 source (sc_offset s)"
  have s1: "clean source ?s1" if "current source s = quote \<or> current source s = CHR 0x5C"
    using that "1.prems" by (auto intro!: clean_advance_ascii simp: byte_of_def)
  have quote: "clean source (add_token source TString start val ?s1)" if "current source s = quote"
    using s1 that "1.prems"(2) by (auto intro!: clean_add_token)
  have known: "clean source (string_loop source quote start (val @ [c]) ?s2)"
    if "\<not> at_end source s" "current source s \<noteq> quote" "\<not> (current source s = LF \<or> current source s = CR)"
      "current source s = CHR 0x5C" "\<not> at_end source ?s1" "escape_value (current source ?s1) = Some c" for c
    using "1.IH"(2) [OF that(1-4) refl that(5) refl refl that(6)] that s1 "1.prems"(2,3)
      escape_value_ascii [OF that(6)]
    by (auto intro!: clean_advance_ascii)
  have unknown: "clean source (string_loop source quote start (val @ [current source ?s1])
      (add_error ''LEX005'' ''unknown escape sequence'' (location s) ?s2))"
    if "\<not> at_end source s" "current source s \<noteq> quote" "\<not> (current source s = LF \<or> current source s = CR)"
      "current source s = CHR 0x5C" "\<not> at_end source ?s1" "escape_value (current source ?s1) = None"
    using "1.IH"(1) [OF that(1-4) refl that(5) refl refl that(6)] "1.prems"(3) by simp
  have invalid: "clean source (string_loop source quote start (val @ replacement_character)
      (diagnose_invalid_utf8 source s))"
    if "\<not> at_end source s" "current source s \<noteq> quote" "\<not> (current source s = LF \<or> current source s = CR)"
      "current source s \<noteq> CHR 0x5C" "\<not> dc_valid ?d"
    using "1.IH"(3) [OF that(1-4) refl that(5)] "1.prems"(3) by simp
  have scalar: "clean source (string_loop source quote start
      (val @ take (dc_length ?d) (drop (sc_offset s) source)) ?s1)"
    if "\<not> at_end source s" "current source s \<noteq> quote" "\<not> (current source s = LF \<or> current source s = CR)"
      "current source s \<noteq> CHR 0x5C" "dc_valid ?d"
    using "1.IH"(4) [OF that(1-4) refl] that(5) "1.prems" clean_advance [OF "1.prems"(1)]
      decode_utf8_valid_prefix [OF that(5)] by (auto intro!: valid_utf8_encode_scalar)
  show ?case
    using quote known unknown invalid scalar clean_unterminated_string
    by (subst string_loop.simps) (simp add: Let_def split: option.split)
qed

lemma clean_scan_operator: "clean source s \<Longrightarrow> clean source (scan_operator_or_error source s)"
proof (cases "find_operator source s")
  case (Some p)
  assume s: "clean source s"
  obtain spelling kind where p: "p = (spelling, kind)" by (cases p)
  have "clean source (advance_ascii source (length spelling) s)"
    using find_operator_Some [OF Some [unfolded p]] operator_characters s by (intro clean_starts_with) blast+
  then show ?thesis by (auto simp: scan_operator_or_error_def Some p emit_operator_def intro!: clean_add_token)
qed (simp add: scan_operator_or_error_def)

lemma quote_ascii: "byte_of CHR 0x22 < 128" "byte_of CHR 0x27 < 128"
  by (simp_all add: byte_of_def)

lemma clean_scan_token:
  assumes "clean source s" "dc_valid (decode_utf8 source (sc_offset s))"
  shows "clean source (scan_token source (decode_utf8 source (sc_offset s)) s)"
  using assms clean_identifier_loop [OF assms(1)] clean_scan_number [OF assms(1)]
    clean_scan_operator [OF assms(1)] clean_advance [OF assms]
  by (auto simp: scan_token_def scan_identifier_def scan_string_def Let_def quote_ascii
      intro!: clean_add_token clean_string_loop)

lemma clean_scan_loop: "clean source s \<Longrightarrow> clean source (scan_loop source s)"
proof (induction source s rule: scan_loop.induct)
  case (1 source s)
  let ?s1 = "skip_trivia source s"
  have s1: "clean source ?s1" by (rule clean_skip_trivia [OF "1.prems"])
  show ?case
    by (subst scan_loop.simps) (use 1 s1 clean_scan_token [OF s1] in \<open>auto simp: Let_def\<close>)
qed

section \<open>The token stream\<close>

lemma lex_fields:
  "lr_tokens (lex source) = sc_tokens (scan_loop source scanner_start) @
     [\<lparr>tok_kind = TEndOfFile, tok_lexeme = [], tok_value = [],
       tok_span = \<lparr>span_begin = location (scan_loop source scanner_start),
         span_end = location (scan_loop source scanner_start)\<rparr>\<rparr>]"
  "lr_diagnostics (lex source) = sc_diagnostics (scan_loop source scanner_start)"
  by (simp_all add: lex_def run_scanner_def Let_def)

lemma lex_inv_lex: "lex_inv source (scan_loop source scanner_start)"
  by (rule lex_inv_scan_loop [OF lex_inv_start])

lemma lex_end: "sc_offset (scan_loop source scanner_start) = length source"
  using lex_inv_lex [of source] scan_loop_at_end [of source scanner_start]
  by (simp add: lex_inv_def at_end_def)

lemma keyword_kind_kind: "keyword_kind word \<noteq> TEndOfFile \<and> keyword_kind word \<noteq> TString"
  by (cases "map_of keyword_table word")
    (auto simp: keyword_kind_def dest!: map_of_SomeD, auto simp: keyword_table_def)

lemma token_shape_kind: "token_shape t \<Longrightarrow> tok_kind t \<noteq> TEndOfFile"
  using keyword_kind_kind [of "tok_lexeme t"] by (auto simp: token_shape_def operator_table_def)

lemma good_tokenD:
  "t \<in> set (sc_tokens (scan_loop source scanner_start)) \<Longrightarrow> good_token source (length source) t"
  using lex_inv_lex [of source] lex_end [of source] by (simp add: lex_inv_def)

interpretation lexed: token_stream "lr_tokens (lex source)" for source
proof
  show "sorted_wrt token_before (lr_tokens (lex source))"
    using lex_inv_lex [of source] lex_end [of source]
    by (auto simp: lex_fields sorted_wrt_append lex_inv_def token_before_def good_token_def good_span_def)
next
  fix t assume "t \<in> set (lr_tokens (lex source))"
  then show "loc_offset (span_begin (tok_span t)) \<le> loc_offset (span_end (tok_span t))"
    by (auto simp: lex_fields dest!: good_tokenD simp: good_token_def)
next
  fix t assume "t \<in> set (butlast (lr_tokens (lex source)))"
  then show "tok_kind t \<noteq> TEndOfFile"
    by (auto simp: lex_fields dest!: good_tokenD simp: good_token_def dest: token_shape_kind)
qed (simp_all add: lex_fields)


section \<open>Line numbers\<close>

text \<open>A line break is LF, CR or CR LF.\<close>

fun line_breaks :: "string \<Rightarrow> nat" where
  "line_breaks [] = 0"
| "line_breaks (c # cs) =
    (if c = CR then (case cs of [] \<Rightarrow> 1 | d # ds \<Rightarrow> if d = LF then 1 + line_breaks ds else 1 + line_breaks cs)
     else if c = LF then 1 + line_breaks cs else line_breaks cs)"

lemma line_breaks_append:
  "\<not> (xs \<noteq> [] \<and> last xs = CR \<and> ys \<noteq> [] \<and> hd ys = LF) \<Longrightarrow>
   line_breaks (xs @ ys) = line_breaks xs + line_breaks ys"
proof (induction xs rule: line_breaks.induct)
  case (2 c cs)
  then show ?case by (cases cs) (auto split: if_splits list.splits)
qed simp

lemma line_breaks_none: "\<forall>c\<in>set xs. c \<noteq> CR \<and> c \<noteq> LF \<Longrightarrow> line_breaks xs = 0"
  by (induction xs) auto

text \<open>The position of a scanner: never between the two bytes of a CR LF.\<close>

definition line_ok :: "string \<Rightarrow> scanner \<Rightarrow> bool" where
  "line_ok source s \<longleftrightarrow> sc_line s = 1 + line_breaks (take (sc_offset s) source) \<and>
     sc_offset s \<le> length source \<and>
     (0 < sc_offset s \<and> sc_offset s < length source \<longrightarrow>
        \<not> (source ! (sc_offset s - 1) = CR \<and> current source s = LF))"

lemma line_ok_forward:
  assumes "line_ok source s" "sc_offset t = sc_offset s + k" "0 < k" "sc_offset t \<le> length source"
    "sc_line t = sc_line s + line_breaks (take k (drop (sc_offset s) source))"
    "sc_offset t < length source \<Longrightarrow> \<not> (source ! (sc_offset t - 1) = CR \<and> current source t = LF)"
  shows "line_ok source t"
proof -
  let ?xs = "take (sc_offset s) source" and ?ys = "take k (drop (sc_offset s) source)"
  have "line_breaks (?xs @ ?ys) = line_breaks ?xs + line_breaks ?ys"
  proof (rule line_breaks_append, rule notI)
    assume h: "?xs \<noteq> [] \<and> last ?xs = CR \<and> ?ys \<noteq> [] \<and> hd ?ys = LF"
    then have "0 < sc_offset s" "sc_offset s < length source" by auto
    moreover from this have "last ?xs = source ! (sc_offset s - 1)" by (cases source) (auto simp: last_conv_nth min_def)
    moreover have "hd ?ys = current source s"
      using h by (cases k) (auto simp: hd_drop_conv_nth)
    ultimately show False using assms(1) h by (simp add: line_ok_def)
  qed
  then show ?thesis
    using assms by (simp add: line_ok_def take_add)
qed

lemma encode_scalar_bytes:
  "is_scalar v \<Longrightarrow> 0x80 \<le> v \<Longrightarrow> c \<in> set (encode_scalar v) \<Longrightarrow> 0x80 \<le> byte_of c"
proof -
  have "0x80 \<le> byte_of (char_of n)" if "0x80 \<le> n" "n < 256" for n :: nat
    using that by simp
  moreover have "n div 64 < 4 \<Longrightarrow> 0xc0 + n div 64 < 256" for n :: nat by simp
  ultimately show "is_scalar v \<Longrightarrow> 0x80 \<le> v \<Longrightarrow> c \<in> set (encode_scalar v) \<Longrightarrow> 0x80 \<le> byte_of c"
    by (auto simp: encode_scalar_def is_scalar_def split: if_splits)
qed

lemma encode_scalar_no_break:
  "is_scalar v \<Longrightarrow> v \<noteq> 0x0A \<Longrightarrow> v \<noteq> 0x0D \<Longrightarrow> c \<in> set (encode_scalar v) \<Longrightarrow> c \<noteq> CR \<and> c \<noteq> LF"
proof (cases "v < 0x80")
  case True
  assume "is_scalar v" "v \<noteq> 0x0A" "v \<noteq> 0x0D" "c \<in> set (encode_scalar v)"
  with True have "c = char_of v" by (simp add: encode_scalar_ascii)
  with True \<open>v \<noteq> 0x0A\<close> \<open>v \<noteq> 0x0D\<close> have "byte_of c \<noteq> 0x0A" "byte_of c \<noteq> 0x0D" by simp_all
  then show ?thesis by (auto simp: byte_of_def)
qed (auto simp: byte_of_def dest!: encode_scalar_bytes)

lemma char_of_break: "char_of (10::nat) = LF" "char_of (13::nat) = CR" "char_of (34::nat) = CHR 0x22"
  by code_simp+

lemma line_ok_advance: "line_ok source s \<Longrightarrow> line_ok source (advance source s)"
proof (cases "at_end source s")
  case False
  assume ok: "line_ok source s"
  let ?n = "sc_offset s" and ?d = "decode_utf8 source (sc_offset s)"
  have n: "?n < length source" using False by (simp add: at_end_def)
  then have hd: "take (Suc k) (drop ?n source) = source ! ?n # take k (drop (Suc ?n) source)" for k
    by (simp add: drop_eq_Cons_nth)
  consider (crlf) "source ! ?n = CR" "Suc ?n < length source" "source ! Suc ?n = LF"
    | (cr) "source ! ?n = CR" "\<not> (Suc ?n < length source \<and> source ! Suc ?n = LF)"
    | (lf) "source ! ?n = LF"
    | (bad) "source ! ?n \<noteq> CR" "source ! ?n \<noteq> LF" "\<not> dc_valid ?d"
    | (good) "source ! ?n \<noteq> CR" "source ! ?n \<noteq> LF" "dc_valid ?d" by blast
  then show ?thesis
  proof cases
    case crlf
    then have "take 2 (drop ?n source) = [CR, LF]"
      using n by (simp add: numeral_2_eq_2 drop_eq_Cons_nth)
    with crlf n ok show ?thesis
      by (intro line_ok_forward [where k = 2, OF ok]) (auto simp: advance_def at_end_def Let_def)
  next
    case good
    have v: "is_scalar (dc_value ?d)" "?n + dc_length ?d \<le> length source"
      "take (dc_length ?d) (drop ?n source) = encode_scalar (dc_value ?d)"
      using decode_utf8_valid_prefix [OF good(3)] by auto
    have pos: "0 < dc_length ?d" by (rule lexer_decoder.decode_length_pos [OF good(3)])
    have "source ! ?n \<in> set (encode_scalar (dc_value ?d))"
      using n pos v(3) [symmetric] by (cases "dc_length ?d") (auto simp: hd)
    then have "dc_value ?d \<noteq> 0x0A" "dc_value ?d \<noteq> 0x0D"
      using good(1,2) by (auto simp: encode_scalar_ascii char_of_break)
    then have no: "\<forall>c\<in>set (encode_scalar (dc_value ?d)). c \<noteq> CR \<and> c \<noteq> LF"
      using encode_scalar_no_break v(1) by blast
    moreover have "source ! (?n + dc_length ?d - 1) \<in> set (encode_scalar (dc_value ?d))"
      using n pos v(2) by (simp flip: v(3) add: in_set_conv_nth) (rule exI [of _ "dc_length ?d - 1"], simp)
    ultimately show ?thesis
      using good n pos v(2)
      by (intro line_ok_forward [where k = "dc_length ?d", OF ok])
        (auto simp: advance_def at_end_def Let_def v(3) line_breaks_none)
  qed (use n in \<open>auto intro!: line_ok_forward [where k = 1, OF ok]
        simp: advance_def at_end_def Let_def hd [of 0, simplified]\<close>)
qed (simp add: advance_at_end)

lemma on_track_line:
  assumes "on_track source l"
  shows "loc_line l = 1 + line_breaks (take (loc_offset l) source)"
proof -
  have "line_ok source ((advance source ^^ k) scanner_start)" for k
    by (induction k) (simp_all add: line_ok_advance, simp add: line_ok_def scanner_start_def)
  then show ?thesis
    using assms by (auto simp: on_track_def moves_def line_ok_def)
qed

text \<open>C37 (lex_lines): the line number of the first character of every token, of its end and
  of every diagnostic is one more than the number of line breaks (LF, CR or CR LF) before it.\<close>

theorem lex_lines:
  "list_all (\<lambda>sp. loc_line (span_begin sp) = 1 + line_breaks (take (loc_offset (span_begin sp)) source)
      \<and> loc_line (span_end sp) = 1 + line_breaks (take (loc_offset (span_end sp)) source))
     (map tok_span (lr_tokens (lex source)) @ map diag_span (lr_diagnostics (lex source)))"
proof -
  have "on_track source (location (scan_loop source scanner_start))"
    using lex_inv_lex [of source] by (auto simp: lex_inv_def on_track_def)
  then show ?thesis
    using lex_inv_lex [of source]
    by (auto simp: list_all_iff lex_fields lex_inv_def good_token_def good_span_def on_track_line
        simp del: location_simps)
qed

section \<open>Longest match of operators\<close>

lemma starts_with_same_length:
  "starts_with source s v \<Longrightarrow> starts_with source s w \<Longrightarrow> length v = length w \<Longrightarrow> v = w"
  by (simp add: starts_with_def)

lemma operator_table_order:
  "sorted_wrt (\<lambda>p q. length (fst q) \<le> length (fst p)) operator_table"
  "distinct (map fst operator_table)"
  by code_simp+

lemma find_operator_max:
  assumes "find_operator source s = Some p" "q \<in> set operator_table" "starts_with source s (fst q)"
  shows "length (fst q) \<le> length (fst p)"
proof -
  obtain i where i: "i < length operator_table" "p = operator_table ! i"
    "\<forall>j<i. \<not> starts_with source s (fst (operator_table ! j))"
    using assms(1) by (auto simp: find_operator_def find_Some_iff split_beta)
  obtain j where j: "j < length operator_table" "q = operator_table ! j"
    using assms(2) by (metis in_set_conv_nth)
  then have "i \<le> j" using i(3) assms(3) not_less by blast
  then show ?thesis
    using i(1,2) j sorted_wrt_nth_less [OF operator_table_order(1), of i j] by (cases "i = j") auto
qed

text \<open>The operator the scanner emits is the longest spelling of
  the operator table that stands at its position, whatever the order in which it tries them;
  it reports an unexpected character only where no spelling stands.\<close>

theorem find_operator_longest:
  "find_operator source s = Some (spelling, kind) \<longleftrightarrow>
    (spelling, kind) \<in> set operator_table \<and> starts_with source s spelling \<and>
    list_all (\<lambda>p. starts_with source s (fst p) \<longrightarrow> length (fst p) \<le> length spelling) operator_table" (is "?l \<longleftrightarrow> ?r")
proof
  assume ?l
  then show ?r using find_operator_Some find_operator_max by (fastforce simp: list_all_iff)
next
  assume r: ?r
  then have "find_operator source s \<noteq> None"
    unfolding find_operator_def find_None_iff by fastforce
  then obtain p where p: "find_operator source s = Some p" by blast
  obtain v k where vk: "p = (v, k)" by (cases p)
  note v = find_operator_Some [OF p [unfolded vk]]
  have "length v = length spelling"
    using r v find_operator_max [OF p, of "(spelling, kind)"] by (auto simp: list_all_iff vk intro: antisym)
  then have "v = spelling" using r v by (auto intro: starts_with_same_length)
  then have "k = kind" using r v operator_table_order(2) by (metis eq_key_imp_eq_value)
  with \<open>v = spelling\<close> p vk show ?l by simp
qed

text \<open>\<open>a >= b\<close> at offset 2: the comparison, not the comparison followed by an assignment.\<close>

lemma find_operator_longest_witness:
  "find_operator ''a >= b'' (scanner_start\<lparr>sc_offset := 2\<rparr>) = Some (''>='', TGreaterEqual)"
  unfolding find_operator_longest by code_simp

section \<open>No diagnostic, no invalid byte\<close>

text \<open>C38 (lex_clean): a source the lexer accepts without a diagnostic is valid UTF-8, and so
  is the value of each of its string literals.\<close>

theorem lex_clean:
  assumes "lr_diagnostics (lex source) = []"
  shows "valid_utf8 source \<and> list_all (\<lambda>t. valid_utf8 (tok_value t)) (lr_tokens (lex source))"
proof -
  have "clean source (scan_loop source scanner_start)"
    by (rule clean_scan_loop) (simp add: clean_def scanner_start_def)
  then show ?thesis
    using assms lex_end [of source] by (auto simp: clean_def lex_fields list_all_iff)
qed

text \<open>A source with a comment, an escape and a two-byte letter: \<open>"n = 'a\n\<eacute>' # x"\<close>.\<close>

lemma lex_clean_witness:
  "let source = ''n = '' @ [CHR 0x27, CHR ''a'', CHR 0x5C, CHR ''n'', CHR 0xC3, CHR 0xA9, CHR 0x27] @ '' # x''
   in valid_utf8 source \<and> list_all (\<lambda>t. valid_utf8 (tok_value t)) (lr_tokens (lex source))"
  unfolding Let_def by (rule lex_clean) code_simp

section \<open>Round trip of string literals\<close>

text \<open>A string literal of a given value: the quote, the backslash and the line breaks escaped.\<close>

definition escape_byte :: "char \<Rightarrow> string" where
  "escape_byte c =
    (if c = CHR 0x5C \<or> c = CHR 0x22 then [CHR 0x5C, c]
     else if c = LF then [CHR 0x5C, CHR ''n''] else if c = CR then [CHR 0x5C, CHR ''r'']
     else [c])"

definition string_literal :: "string \<Rightarrow> string" where
  "string_literal v = [CHR 0x22] @ concat (map escape_byte v) @ [CHR 0x22]"

lemma advance_to_ascii:
  "drop (sc_offset s) source = c # rest \<Longrightarrow> byte_of c < 0x80 \<Longrightarrow> c \<noteq> CR \<Longrightarrow> c \<noteq> LF \<Longrightarrow>
   \<not> at_end source s \<and> current source s = c \<and> drop (sc_offset (advance source s)) source = rest \<and>
   sc_offset (advance source s) = Suc (sc_offset s)"
proof -
  assume d: "drop (sc_offset s) source = c # rest" and c: "byte_of c < 0x80" "c \<noteq> CR" "c \<noteq> LF"
  then have "sc_offset s < length source" by (metis drop_all leI list.distinct(1))
  with d c show ?thesis
    using drop_eq_Cons_nth [of "sc_offset s" source] advance_ascii_char [of s source]
    by (simp add: at_end_def)
qed

lemma escape_bytes_plain:
  "\<forall>c\<in>set v. c \<noteq> CHR 0x5C \<and> c \<noteq> CHR 0x22 \<and> c \<noteq> LF \<and> c \<noteq> CR \<Longrightarrow> concat (map escape_byte v) = v"
  by (induction v) (auto simp: escape_byte_def)

lemma escaped_scalar:
  assumes "is_scalar v"
  obtains (special) c where "encode_scalar v = [c]"
      "c \<in> {CHR 0x5C, CHR 0x22, LF, CR}"
  | (plain) "concat (map escape_byte (encode_scalar v)) = encode_scalar v"
      "hd (encode_scalar v) \<notin> {CHR 0x5C, CHR 0x22, LF, CR}"
proof (cases "v < 0x80")
  case True
  then have "encode_scalar v = [char_of v]" by (rule encode_scalar_ascii)
  then show ?thesis using that escape_bytes_plain [of "[char_of v]"] by force
next
  case False
  then have "\<forall>c\<in>set (encode_scalar v). 0x80 \<le> byte_of c" using encode_scalar_bytes assms by auto
  then have no: "\<forall>c\<in>set (encode_scalar v). c \<notin> {CHR 0x5C, CHR 0x22, LF, CR}"
    by (auto simp: byte_of_def)
  then have "concat (map escape_byte (encode_scalar v)) = encode_scalar v"
    by (intro escape_bytes_plain) auto
  with no show ?thesis using that(2) by (metis encode_scalar_nonempty list.set_sel(1))
qed

lemma string_loop_escaped:
  "c \<in> {CHR 0x5C, CHR 0x22, LF, CR} \<Longrightarrow> drop (sc_offset s) source = escape_byte c @ rest \<Longrightarrow>
   string_loop source CHR 0x22 start val s
     = string_loop source CHR 0x22 start (val @ [c]) (advance source (advance source s)) \<and>
   drop (sc_offset (advance source (advance source s))) source = rest"
proof -
  assume c: "c \<in> {CHR 0x5C, CHR 0x22, LF, CR}" and d: "drop (sc_offset s) source = escape_byte c @ rest"
  obtain e where e: "escape_byte c = [CHR 0x5C, e]" "escape_value e = Some c" "byte_of e < 0x80" "e \<noteq> CR" "e \<noteq> LF"
    using c by (auto simp: escape_byte_def escape_value_def byte_of_def)
  have one: "\<not> at_end source s \<and> current source s = CHR 0x5C \<and>
      drop (sc_offset (advance source s)) source = e # rest"
    using advance_to_ascii [of s source "CHR 0x5C" "e # rest"] d e(1) by (auto simp: byte_of_def)
  have two: "\<not> at_end source (advance source s) \<and> current source (advance source s) = e \<and>
      drop (sc_offset (advance source (advance source s))) source = rest"
    using advance_to_ascii [of "advance source s" source e rest] one e(3-5) by auto
  show ?thesis
    using one two e(2) by (subst string_loop.simps) (simp add: Let_def)
qed

lemma string_loop_plain:
  assumes "is_scalar v" "hd (encode_scalar v) \<notin> {CHR 0x5C, CHR 0x22, LF, CR}"
    "drop (sc_offset s) source = encode_scalar v @ rest"
  shows "string_loop source CHR 0x22 start val s
     = string_loop source CHR 0x22 start (val @ encode_scalar v) (advance source s) \<and>
   drop (sc_offset (advance source s)) source = rest"
proof -
  have d: "decode_utf8 source (sc_offset s)
      = \<lparr>dc_value = v, dc_length = length (encode_scalar v), dc_valid = True\<rparr>"
    by (rule decode_encode) (simp_all add: assms)
  have off: "\<not> at_end source s"
    using assms(3) by (metis at_end_def drop_all append_is_Nil_conv encode_scalar_nonempty)
  then have "current source s = hd (encode_scalar v)"
    using assms(3) by (metis at_end_def encode_scalar_nonempty hd_append2 hd_drop_conv_nth not_le)
  moreover from this have "sc_offset (advance source s) = sc_offset s + length (encode_scalar v)"
    using assms(2) off d by (simp add: advance_def Let_def)
  moreover have "drop (sc_offset s + length (encode_scalar v)) source = rest"
    using arg_cong [OF assms(3), of "drop (length (encode_scalar v))"] by (simp add: add.commute)
  ultimately show ?thesis
    using off d assms by (subst string_loop.simps) (simp add: Let_def)
qed

lemma string_loop_literal:
  assumes "\<forall>v\<in>set vs. is_scalar v"
    "drop (sc_offset s) source = concat (map escape_byte (utf8_encode vs)) @ [CHR 0x22]"
  shows "\<exists>t. string_loop source CHR 0x22 start val s = add_token source TString start (val @ utf8_encode vs) t
      \<and> at_end source t \<and> sc_tokens t = sc_tokens s \<and> sc_diagnostics t = sc_diagnostics s"
  using assms
proof (induction vs arbitrary: s val)
  case Nil
  then have "\<not> at_end source s \<and> current source s = CHR 0x22 \<and> drop (sc_offset (advance source s)) source = []"
    using advance_to_ascii [of s source "CHR 0x22" "[]"] by (simp add: byte_of_def)
  then show ?case
    by (subst string_loop.simps) (auto simp: at_end_def intro!: exI [of _ "advance source s"])
next
  case (Cons v vs)
  let ?rest = "concat (map escape_byte (utf8_encode vs)) @ [CHR 0x22]"
  from Cons.prems(1) have "is_scalar v" by simp
  then show ?case
  proof (cases rule: escaped_scalar)
    case (special c)
    then show ?thesis
      using string_loop_escaped [of c s source ?rest start val] Cons.prems
        Cons.IH [of "advance source (advance source s)" "val @ [c]"] by simp
  next
    case plain
    then show ?thesis
      using string_loop_plain [of v s source ?rest start val] Cons.prems
        Cons.IH [of "advance source s" "val @ encode_scalar v"] by simp
  qed
qed

text \<open>C31 (lex_string_literal): lexing the literal of a valid UTF-8 string gives that string
  back as the value of a single string token, with no diagnostic.\<close>

theorem lex_string_literal:
  assumes "valid_utf8 v"
  shows "map (\<lambda>t. (tok_kind t, tok_value t)) (lr_tokens (lex (string_literal v)))
      = [(TString, v), (TEndOfFile, [])] \<and>
    lr_diagnostics (lex (string_literal v)) = []"
proof -
  obtain vs where vs: "\<forall>w\<in>set vs. is_scalar w" "v = utf8_encode vs"
    using assms by (auto simp: valid_utf8_def list_all_iff)
  let ?source = "string_literal v" and ?s = scanner_start
  have first: "decode_utf8 ?source 0 = \<lparr>dc_value = 0x22, dc_length = 1, dc_valid = True\<rparr>"
    by (simp add: string_literal_def decode_utf8_def byte_of_def)
  have trivia: "skip_spaces ?source ?s = ?s" "\<not> starts_with ?source ?s ''#''" "\<not> starts_with ?source ?s ''/*''"
    by (subst skip_spaces.simps)
      (simp_all add: string_literal_def scanner_start_def starts_with_def is_space_def)
  then have trivia: "skip_trivia ?source ?s = ?s"
    by (subst skip_trivia.simps) (simp add: Let_def)
  have sc_start: "sc_offset ?s = 0" by (simp add: scanner_start_def)
  have start: "\<not> at_end ?source ?s"
    by (simp add: string_literal_def at_end_def scanner_start_def)
  have "drop (sc_offset (advance ?source ?s)) ?source = concat (map escape_byte (utf8_encode vs)) @ [CHR 0x22]"
    using advance_to_ascii [of ?s ?source "CHR 0x22" "concat (map escape_byte (utf8_encode vs)) @ [CHR 0x22]"]
    by (simp add: string_literal_def scanner_start_def vs(2) byte_of_def)
  from string_loop_literal [OF vs(1) this, of "location ?s" "[]"]
  obtain t where t: "scan_string ?source CHR 0x22 ?s = add_token ?source TString (location ?s) v t"
    "at_end ?source t" "sc_tokens t = []" "sc_diagnostics t = []"
    by (auto simp: scan_string_def vs(2) scanner_start_def)
  have "scan_loop ?source ?s = scan_loop ?source (add_token ?source TString (location ?s) v t)"
    using t(1) first start
    by (subst scan_loop.simps)
      (simp add: Let_def trivia sc_start scan_token_def is_identifier_start_def is_ascii_digit_def
        byte_of_def char_of_break)
  also have "\<dots> = add_token ?source TString (location ?s) v t"
    using t(2) by (subst scan_loop.simps) (simp add: at_end_def)
  finally show ?thesis
    using t by (simp add: lex_fields) (simp add: add_token_def Let_def)
qed

text \<open>A value with a quote, a line break, a backslash and a three-byte letter.\<close>

lemma lex_string_literal_witness:
  "let v = [CHR ''a'', CHR 0x22, CHR 0x0A, CHR 0x5C, CHR 0xE4, CHR 0xBD, CHR 0xA0] in
   map (\<lambda>t. (tok_kind t, tok_value t)) (lr_tokens (lex (string_literal v)))
     = [(TString, v), (TEndOfFile, [])] \<and> lr_diagnostics (lex (string_literal v)) = []"
proof -
  have "[CHR ''a'', CHR 0x22, CHR 0x0A, CHR 0x5C, CHR 0xE4, CHR 0xBD, CHR 0xA0]
      = utf8_encode [0x61, 0x22, 0x0A, 0x5C, 0x4F60]" by code_simp
  then have "valid_utf8 [CHR ''a'', CHR 0x22, CHR 0x0A, CHR 0x5C, CHR 0xE4, CHR 0xBD, CHR 0xA0]"
    unfolding valid_utf8_def
    by (intro exI [of _ "[0x61, 0x22, 0x0A, 0x5C, 0x4F60]"]) (simp add: is_scalar_def)
  then show ?thesis unfolding Let_def by (rule lex_string_literal)
qed

section \<open>Unknown escapes\<close>


end
