(* ===== verification/Parser_Correct.thy ===== *)
theory Parser_Correct
  imports Parser Lexer_Correct
begin

text \<open>
  Correctness of the parser: the contract of one production (\<open>meets\<close>), the contract of the
  productions that are entered again as the locale \<open>subparsers\<close>, in which every other
  production is shown to meet its own, and its interpretation on \<open>knot\<close>, which gives
  termination, progress, the preservation of the context and the validity of the tree for
  \<open>run\<close>, \<open>parse_program\<close> and \<open>parse\<close>.
\<close>

section \<open>Contracts\<close>

definition engine_ok :: "engine \<Rightarrow> bool" where
  "engine_ok e \<longleftrightarrow> en_tokens e \<noteq> [] \<and> tok_kind (last (en_tokens e)) = TEndOfFile \<and>
     en_current e < length (en_tokens e)"

abbreviation noise :: "engine \<Rightarrow> nat" where
  "noise e \<equiv> length (en_diagnostics e)"

text \<open>What every operation keeps: the tokens, the diagnostics so far and the context.\<close>

definition extends :: "engine \<Rightarrow> engine \<Rightarrow> bool" where
  "extends e e' \<longleftrightarrow> engine_ok e' \<and> en_tokens e' = en_tokens e \<and> en_current e \<le> en_current e' \<and>
     prefix (en_diagnostics e) (en_diagnostics e') \<and> en_loop_depth e' = en_loop_depth e \<and>
     en_function_depth e' = en_function_depth e \<and> en_in_async e' = en_in_async e \<and>
     (has_errors (en_diagnostics e') \<longleftrightarrow> has_errors (en_diagnostics e) \<or> noise e < noise e')"

text \<open>
  \<open>meets e Q r\<close>: measured from the engine \<open>e\<close>, the outcome \<open>r\<close> is a result that satisfies
  \<open>Q\<close> or a failure that reported an error; the fuel was not exhausted.
\<close>

definition meets :: "engine \<Rightarrow> ('a \<Rightarrow> engine \<Rightarrow> bool) \<Rightarrow> 'a outcome \<Rightarrow> bool" where
  "meets e Q r = (case r of
      Done x e' \<Rightarrow> extends e e' \<and> Q x e'
    | Failed e' \<Rightarrow> extends e e' \<and> noise e < noise e'
    | OutOfFuel \<Rightarrow> False)"

lemma meets_simps [simp]:
  "meets e Q (Done x e') \<longleftrightarrow> extends e e' \<and> Q x e'"
  "meets e Q (Failed e') \<longleftrightarrow> extends e e' \<and> noise e < noise e'"
  "\<not> meets e Q OutOfFuel"
  by (simp_all add: meets_def)

lemma extends_refl: "engine_ok e \<Longrightarrow> extends e e"
  by (simp add: extends_def)

lemma extends_noise: "extends e e' \<Longrightarrow> noise e \<le> noise e'"
  by (auto simp: extends_def dest: prefix_length_le)

lemma extends_trans: "extends e e1 \<Longrightarrow> extends e1 e2 \<Longrightarrow> extends e e2"
  using extends_noise [of e e1] extends_noise [of e1 e2]
  by (auto simp: extends_def intro: prefix_order.trans)

lemma extendsD:
  assumes "extends e e'"
  shows "engine_ok e'" "en_tokens e' = en_tokens e" "en_current e \<le> en_current e'"
    "en_current e' < length (en_tokens e)" "noise e \<le> noise e'"
    "en_loop_depth e' = en_loop_depth e" "en_function_depth e' = en_function_depth e"
    "en_in_async e' = en_in_async e"
  using assms extends_noise [OF assms] by (auto simp: extends_def engine_ok_def)

section \<open>The elementary operations\<close>

lemma meets_and_then [parse_intros]:
  "meets e (\<lambda>x e'. meets e Q (f x e')) (m e1) \<Longrightarrow> meets e Q (and_then m f e1)"
  by (cases "m e1") (simp_all add: and_then_def)

lemma meets_weaken:
  assumes "meets e1 Q1 r" "extends e e1"
    "\<And>x e2. extends e e2 \<Longrightarrow> extends e1 e2 \<Longrightarrow> Q1 x e2 \<Longrightarrow> Q x e2"
  shows "meets e Q r"
  using assms extends_noise [OF assms(2)] by (cases r) (auto intro: extends_trans)

lemma meets_mono:
  "meets e Q1 r \<Longrightarrow> (\<And>x e2. extends e e2 \<Longrightarrow> en_current e \<le> en_current e2 \<Longrightarrow>
     noise e \<le> noise e2 \<Longrightarrow> Q1 x e2 \<Longrightarrow> Q x e2) \<Longrightarrow> meets e Q r"
  by (cases r) (auto simp: extendsD)

lemma meets_yield [parse_intros]: "extends e e1 \<Longrightarrow> Q x e1 \<Longrightarrow> meets e Q (yield x e1)"
  by (simp add: yield_def)

lemma meets_asks: "extends e e1 \<Longrightarrow> Q (f e1) e1 \<Longrightarrow> meets e Q (asks f e1)"
  by (simp add: asks_def)

lemma meets_asks_token [parse_intros]:
  "extends e e1 \<Longrightarrow> Q (check kind e1) e1 \<Longrightarrow> meets e Q (asks (check kind) e1)"
  "extends e e1 \<Longrightarrow> R (peek e1) e1 \<Longrightarrow> meets e R (asks peek e1)"
  "extends e e1 \<Longrightarrow> R (previous e1) e1 \<Longrightarrow> meets e R (asks previous e1)"
  by (simp_all add: asks_def)

lemma meets_asks_context [parse_intros]:
  "extends e e1 \<Longrightarrow> Q (en_in_async e) e1 \<Longrightarrow> meets e Q (asks en_in_async e1)"
  "extends e e1 \<Longrightarrow> R (en_loop_depth e) e1 \<Longrightarrow> meets e R (asks en_loop_depth e1)"
  "extends e e1 \<Longrightarrow> R (en_function_depth e) e1 \<Longrightarrow> meets e R (asks en_function_depth e1)"
  by (simp_all add: asks_def extendsD(6-8))

lemma meets_report [parse_intros]:
  "extends e e1 \<Longrightarrow> (\<And>e2. extends e e2 \<Longrightarrow> en_current e2 = en_current e1 \<Longrightarrow> noise e2 = Suc (noise e1) \<Longrightarrow> Q () e2) \<Longrightarrow>
   meets e Q (report code message sp e1)"
proof -
  assume e1: "extends e e1" and q: "\<And>e2. extends e e2 \<Longrightarrow> en_current e2 = en_current e1 \<Longrightarrow>
    noise e2 = Suc (noise e1) \<Longrightarrow> Q () e2"
  let ?e2 = "e1\<lparr>en_diagnostics := en_diagnostics e1 @
    [\<lparr>diag_severity = SevError, diag_code = code, diag_message = message, diag_span = sp\<rparr>]\<rparr>"
  have "extends e ?e2"
    using e1 by (auto simp: extends_def engine_ok_def prefix_append_trans dest: prefix_length_le)
  then show ?thesis using q [of ?e2] by (simp add: report_def)
qed

lemma peek_current: "engine_ok e \<Longrightarrow> peek e = en_tokens e ! en_current e"
  by (auto simp: peek_at_def engine_ok_def min_def)

lemma more_tokens:
  assumes "engine_ok e" "\<not> no_more_tokens e"
  shows "Suc (en_current e) < length (en_tokens e)"
proof -
  have "en_current e \<noteq> length (en_tokens e) - 1"
    using assms peek_current [OF assms(1)] by (auto simp: no_more_tokens_def engine_ok_def last_conv_nth)
  then show ?thesis using assms(1) by (auto simp: engine_ok_def)
qed

lemma extends_skip_token:
  assumes "engine_ok e" "\<not> no_more_tokens e"
  shows "extends e (skip_token e)"
  using assms more_tokens [OF assms] by (simp add: extends_def skip_token_def engine_ok_def)

lemma next_token_more:
  "\<not> no_more_tokens e \<Longrightarrow> engine_ok e \<Longrightarrow> next_token e = Done (peek e) (skip_token e)"
  by (simp add: next_token_def previous_def skip_token_def peek_current)

lemma meets_next_token:
  assumes "extends e e1" "tok_kind (peek e1) \<noteq> TEndOfFile"
    "\<And>e2. extends e e2 \<Longrightarrow> extends e1 e2 \<Longrightarrow> en_current e2 = Suc (en_current e1) \<Longrightarrow> noise e2 = noise e1 \<Longrightarrow>
       tok_kind (peek e2) = tok_kind (peek_at 1 e1) \<Longrightarrow> Q (peek e1) e2"
  shows "meets e Q (next_token e1)"
proof -
  have ok: "engine_ok e1" "\<not> no_more_tokens e1"
    using assms(1,2) by (simp_all add: extendsD no_more_tokens_def)
  show ?thesis
    using assms(3) [OF extends_trans [OF assms(1) extends_skip_token [OF ok]] extends_skip_token [OF ok]]
      extends_trans [OF assms(1) extends_skip_token [OF ok]]
    by (simp add: next_token_more [OF ok(2,1)]) (simp add: skip_token_def peek_at_def)
qed

lemma meets_reject [parse_intros]: "extends e e1 \<Longrightarrow> meets e Q (reject code message e1)"
  unfolding reject_def
  by (rule meets_and_then, rule meets_report, assumption)
    (auto simp: throw_failure_def dest: extendsD(5))

lemma meets_consume:
  assumes "extends e e1" "kind \<noteq> TEndOfFile"
    "\<And>t e2. extends e e2 \<Longrightarrow> en_current e2 = Suc (en_current e1) \<Longrightarrow> noise e2 = noise e1 \<Longrightarrow> Q t e2"
  shows "meets e Q (consume kind message e1)"
  using assms meets_reject [OF assms(1)]
  by (auto simp: consume_def check_def intro!: meets_next_token)

lemma meets_match_token:
  assumes "extends e e1" "kind \<noteq> TEndOfFile"
    "\<And>e2. extends e e2 \<Longrightarrow> en_current e2 = Suc (en_current e1) \<Longrightarrow> noise e2 = noise e1 \<Longrightarrow> Q True e2"
    "Q False e1"
  shows "meets e Q (match_token kind e1)"
  using assms
  by (auto simp: match_token_def check_def intro!: meets_and_then meets_next_token meets_yield)

lemma meets_report_if [parse_intros]:
  "extends e e1 \<Longrightarrow> (\<And>e2. b \<Longrightarrow> extends e e2 \<Longrightarrow> en_current e2 = en_current e1 \<Longrightarrow> noise e2 = Suc (noise e1) \<Longrightarrow> Q () e2) \<Longrightarrow>
   (\<not> b \<Longrightarrow> Q () e1) \<Longrightarrow> meets e Q (report_if b code message sp e1)"
  by (auto simp: report_if_def intro: meets_report meets_yield)

lemma meets_match_choice:
  assumes "extends e e1" "TEndOfFile \<notin> set (map fst choices)"
    "\<And>x e2. x \<in> set (map snd choices) \<Longrightarrow> extends e e2 \<Longrightarrow> en_current e2 = Suc (en_current e1) \<Longrightarrow> noise e2 = noise e1 \<Longrightarrow>
       Q (Some x) e2"
    "Q None e1"
  shows "meets e Q (match_choice choices e1)"
  using assms
proof (induction choices)
  case (Cons c choices)
  obtain kind x where c: "c = (kind, x)" by (cases c)
  show ?case
    unfolding c match_choice.simps
    by (rule meets_and_then, rule meets_match_token) (use Cons in \<open>auto simp: c intro!: meets_yield\<close>)
qed (simp add: meets_yield)


lemma meets_bounded [parse_intros]:
  "extends e e1 \<Longrightarrow> meets e Q (loop (Suc (length (en_tokens e) - en_current e1)) e1) \<Longrightarrow>
   meets e Q (bounded loop e1)"
  by (simp add: bounded_def extendsD)

lemma meets_if [parse_intros]:
  "(b \<Longrightarrow> meets e Q (m1 e1)) \<Longrightarrow> (\<not> b \<Longrightarrow> meets e Q (m2 e1)) \<Longrightarrow> meets e Q ((if b then m1 else m2) e1)"
  by simp

subsection \<open>Contracts of productions\<close>

text \<open>\<open>produces k Q m\<close>: \<open>m\<close> meets \<open>Q\<close> wherever fewer than \<open>k\<close> tokens are left.\<close>

definition produces :: "nat \<Rightarrow> (engine \<Rightarrow> 'a \<Rightarrow> engine \<Rightarrow> bool) \<Rightarrow> 'a parser \<Rightarrow> bool" where
  "produces k Q m \<longleftrightarrow> (\<forall>e. engine_ok e \<longrightarrow> length (en_tokens e) < k + en_current e \<longrightarrow> meets e (Q e) (m e))"

definition expression_post :: "engine \<Rightarrow> expression \<Rightarrow> engine \<Rightarrow> bool" where
  "expression_post e x e' \<longleftrightarrow> en_current e < en_current e' \<and>
     (noise e' = noise e \<longrightarrow> expression_valid (en_in_async e) x)"

definition statement_post :: "engine \<Rightarrow> statement \<Rightarrow> engine \<Rightarrow> bool" where
  "statement_post e s e' \<longleftrightarrow> en_current e < en_current e' \<and>
     (noise e' = noise e \<longrightarrow>
        statement_valid (0 < en_loop_depth e) (0 < en_function_depth e) (en_in_async e) s)"

definition block_post :: "engine \<Rightarrow> block \<Rightarrow> engine \<Rightarrow> bool" where
  "block_post e b e' \<longleftrightarrow> en_current e < en_current e' \<and>
     (noise e' = noise e \<longrightarrow>
        block_valid (0 < en_loop_depth e) (0 < en_function_depth e) (en_in_async e) b)"

definition parameters_post :: "engine \<Rightarrow> parameter list \<Rightarrow> engine \<Rightarrow> bool" where
  "parameters_post e ps e' \<longleftrightarrow> (noise e' = noise e \<longrightarrow>
     parameters_ordered ps \<and> list_all (parameter_valid (en_in_async e)) ps)"

lemma producesI:
  "(\<And>e. engine_ok e \<Longrightarrow> length (en_tokens e) < k + en_current e \<Longrightarrow> extends e e \<Longrightarrow> meets e (Q e) (m e)) \<Longrightarrow>
   produces k Q m"
  by (simp add: produces_def extends_refl)

lemma producesD:
  assumes "produces k Q1 m" "extends e e1" "length (en_tokens e) < k + en_current e1"
    "\<And>x e2. extends e e2 \<Longrightarrow> extends e1 e2 \<Longrightarrow> Q1 e1 x e2 \<Longrightarrow> Q x e2"
  shows "meets e Q (m e1)"
proof (rule meets_weaken [OF _ assms(2) assms(4)])
  show "meets e1 (Q1 e1) (m e1)"
    using assms(1,3) extendsD(1,2) [OF assms(2)] by (simp add: produces_def)
qed

lemma call_expression:
  assumes "produces k expression_post m" "extends e e1" "length (en_tokens e) < k + en_current e1"
    "\<And>x e2. extends e e2 \<Longrightarrow> en_current e1 < en_current e2 \<Longrightarrow> noise e \<le> noise e1 \<Longrightarrow> noise e1 \<le> noise e2 \<Longrightarrow>
       (noise e2 = noise e1 \<longrightarrow> expression_valid (en_in_async e) x) \<Longrightarrow> Q x e2"
  shows "meets e Q (m e1)"
  by (rule producesD [OF assms(1-3)]) (auto simp: expression_post_def extendsD [OF assms(2)] dest: extendsD(5) intro!: assms(4))

lemma call_statement:
  assumes "produces k statement_post m" "extends e e1" "length (en_tokens e) < k + en_current e1"
    "\<And>s e2. extends e e2 \<Longrightarrow> en_current e1 < en_current e2 \<Longrightarrow> noise e \<le> noise e1 \<Longrightarrow> noise e1 \<le> noise e2 \<Longrightarrow>
       (noise e2 = noise e1 \<longrightarrow>
         statement_valid (0 < en_loop_depth e) (0 < en_function_depth e) (en_in_async e) s) \<Longrightarrow> Q s e2"
  shows "meets e Q (m e1)"
  by (rule producesD [OF assms(1-3)]) (auto simp: statement_post_def extendsD [OF assms(2)] dest: extendsD(5) intro!: assms(4))

lemma call_block:
  assumes "produces k block_post m" "extends e e1" "length (en_tokens e) < k + en_current e1"
    "\<And>b e2. extends e e2 \<Longrightarrow> en_current e1 < en_current e2 \<Longrightarrow> noise e \<le> noise e1 \<Longrightarrow> noise e1 \<le> noise e2 \<Longrightarrow>
       (noise e2 = noise e1 \<longrightarrow>
         block_valid (0 < en_loop_depth e) (0 < en_function_depth e) (en_in_async e) b) \<Longrightarrow> Q b e2"
  shows "meets e Q (m e1)"
  by (rule producesD [OF assms(1-3)]) (auto simp: block_post_def extendsD [OF assms(2)] dest: extendsD(5) intro!: assms(4))

lemma call_parameters:
  assumes "produces k parameters_post m" "extends e e1" "length (en_tokens e) < k + en_current e1"
    "\<And>ps e2. extends e e2 \<Longrightarrow> en_current e1 \<le> en_current e2 \<Longrightarrow> noise e \<le> noise e1 \<Longrightarrow> noise e1 \<le> noise e2 \<Longrightarrow>
       (noise e2 = noise e1 \<longrightarrow> parameters_ordered ps \<and> list_all (parameter_valid (en_in_async e)) ps) \<Longrightarrow> Q ps e2"
  shows "meets e Q (m e1)"
  by (rule producesD [OF assms(1-3)])
    (auto simp: parameters_post_def extendsD [OF assms(2)] dest: extendsD(3,5) intro!: assms(4))

subsection \<open>Contexts\<close>

lemma extends_engine_ok: "extends e e1 \<Longrightarrow> engine_ok e1"
  by (rule extendsD(1))

lemma call_in_loop:
  assumes "produces k statement_post m" "extends e e1" "length (en_tokens e) < k + en_current e1"
    "\<And>s e2. extends e e2 \<Longrightarrow> en_current e1 < en_current e2 \<Longrightarrow> noise e \<le> noise e1 \<Longrightarrow> noise e1 \<le> noise e2 \<Longrightarrow>
       (noise e2 = noise e1 \<longrightarrow> statement_valid True (0 < en_function_depth e) (en_in_async e) s) \<Longrightarrow> Q s e2"
  shows "meets e Q (in_loop m e1)"
proof -
  let ?e1 = "e1\<lparr>en_loop_depth := Suc (en_loop_depth e1)\<rparr>"
    and ?leave = "\<lambda>e2. e2\<lparr>en_loop_depth := en_loop_depth e2 - Suc 0\<rparr>"
  have kept: "extends e1 (?leave e2)" if "extends ?e1 e2" for e2
    using that by (auto simp: extends_def engine_ok_def)
  have "engine_ok ?e1" using extends_engine_ok [OF assms(2)] by (simp add: engine_ok_def)
  then have "meets ?e1 (statement_post ?e1) (m ?e1)"
    using assms(1-3) by (simp add: produces_def extendsD)
  then have "meets e1 (\<lambda>s e2. en_current e1 < en_current e2 \<and> (noise e2 = noise e1 \<longrightarrow>
      statement_valid True (0 < en_function_depth e1) (en_in_async e1) s)) (in_loop m e1)"
    by (cases "m ?e1") (auto simp: in_loop_def with_context_def statement_post_def kept)
  then show ?thesis
    by (rule meets_weaken [OF _ assms(2)]) (auto simp: extendsD(5,7,8) [OF assms(2)] dest: extendsD(5) intro!: assms(4))
qed

lemma call_in_function:
  assumes "produces k block_post m" "extends e e1" "length (en_tokens e) < k + en_current e1"
    "\<And>b e2. extends e e2 \<Longrightarrow> en_current e1 < en_current e2 \<Longrightarrow> noise e \<le> noise e1 \<Longrightarrow> noise e1 \<le> noise e2 \<Longrightarrow>
       (noise e2 = noise e1 \<longrightarrow> block_valid False True a b) \<Longrightarrow> Q b e2"
  shows "meets e Q (in_function a m e1)"
proof -
  let ?e1 = "e1\<lparr>en_function_depth := Suc (en_function_depth e1), en_loop_depth := 0, en_in_async := a\<rparr>"
    and ?leave = "\<lambda>e2. e2\<lparr>en_function_depth := en_function_depth e2 - Suc 0,
        en_loop_depth := en_loop_depth e1, en_in_async := en_in_async e1\<rparr>"
  have kept: "extends e1 (?leave e2)" if "extends ?e1 e2" for e2
    using that by (auto simp: extends_def engine_ok_def)
  have "engine_ok ?e1" using extends_engine_ok [OF assms(2)] by (simp add: engine_ok_def)
  then have "meets ?e1 (block_post ?e1) (m ?e1)"
    using assms(1-3) by (simp add: produces_def extendsD)
  then have "meets e1 (\<lambda>b e2. en_current e1 < en_current e2 \<and> (noise e2 = noise e1 \<longrightarrow>
      block_valid False True a b)) (in_function a m e1)"
    by (cases "m ?e1") (auto simp: in_function_def with_context_def block_post_def kept)
  then show ?thesis
    by (rule meets_weaken [OF _ assms(2)]) (auto simp: extendsD(5) [OF assms(2)] dest: extendsD(5) intro!: assms(4))
qed

section \<open>Recovery\<close>

lemma extends_synchronize_loop: "extends e0 e \<Longrightarrow> extends e0 (synchronize_loop k e)"
  by (induction k arbitrary: e)
    (auto simp: Let_def intro: extends_trans [OF _ extends_skip_token] extendsD(1))

lemma extends_synchronize: "extends e0 e \<Longrightarrow> extends e0 (synchronize e)"
  by (simp add: synchronize_def extends_synchronize_loop)

section \<open>The productions\<close>

lemmas operations = parse_intros meets_consume meets_match_token

definition operator_parser :: "'a option parser \<Rightarrow> bool" where
  "operator_parser operation \<longleftrightarrow> (\<forall>e e1 Q. extends e e1 \<longrightarrow> Q None e1 \<longrightarrow>
     (\<forall>x e2. extends e e2 \<longrightarrow> en_current e1 < en_current e2 \<longrightarrow> noise e2 = noise e1 \<longrightarrow> Q (Some x) e2) \<longrightarrow>
     meets e Q (operation e1))"

lemma operator_parserD:
  assumes "operator_parser operation" "extends e e1" "Q None e1"
    "\<And>x e2. extends e e2 \<Longrightarrow> en_current e1 < en_current e2 \<Longrightarrow> noise e2 = noise e1 \<Longrightarrow> Q (Some x) e2"
  shows "meets e Q (operation e1)"
  using assms by (simp add: operator_parser_def)

lemma operator_match_choice: "TEndOfFile \<notin> set (map fst choices) \<Longrightarrow> operator_parser (match_choice choices)"
  unfolding operator_parser_def by (auto intro!: meets_match_choice)

lemma operator_negatable:
  assumes "TEndOfFile \<notin> set (map fst choices)" "second \<noteq> TEndOfFile"
  shows "operator_parser (negatable choices second negated)"
proof -
  have "meets e Q (negatable choices second negated e1)"
    if e1: "extends e e1" and Q: "Q None e1"
      "\<And>x e2. extends e e2 \<Longrightarrow> en_current e1 < en_current e2 \<Longrightarrow> noise e2 = noise e1 \<Longrightarrow> Q (Some x) e2"
    for e e1 and Q :: "binary_operator option \<Rightarrow> engine \<Rightarrow> bool"
    unfolding negatable_def using assms e1 Q
    by (auto simp: check_def check_next_def
        intro!: meets_and_then meets_match_choice meets_next_token meets_yield)
  then show ?thesis unfolding operator_parser_def by blast
qed

text \<open>
  What the productions below one level rely on: the productions of the record \<open>P\<close> meet their
  contracts wherever fewer than \<open>n\<close> tokens are left.
\<close>

locale subparsers =
  fixes P :: parsers
    and n :: nat
  assumes sub_expression: "produces n expression_post (p_expression P)"
    and sub_unary: "produces n expression_post (p_unary P)"
    and sub_statement: "produces n statement_post (p_statement P)"
begin

lemmas calls = call_expression [OF sub_expression] call_expression [OF sub_unary]
  call_statement [OF sub_statement] call_in_loop [OF sub_statement]

lemma comma_then_meets:
  "extends e e1 \<Longrightarrow> Q False e1 \<Longrightarrow>
   (\<And>b e2. extends e e2 \<Longrightarrow> en_current e2 = Suc (en_current e1) \<Longrightarrow> noise e2 = noise e1 \<Longrightarrow> Q b e2) \<Longrightarrow>
   meets e Q (comma_then k e1)"
  unfolding comma_then_def by (auto intro!: operations)

lemma optional_unless_meets:
  assumes "extends e e1" "Q None e1" "meets e (\<lambda>x e2. Q (Some x) e2) (m e1)"
  shows "meets e Q (optional_unless kinds m e1)"
  unfolding optional_unless_def using assms
  by (auto intro!: meets_and_then meets_yield elim: meets_mono)

lemma elements_loop_meets:
  "extends e0 e \<Longrightarrow> length (en_tokens e0) < n + en_current e \<Longrightarrow> length (en_tokens e0) < k + en_current e \<Longrightarrow>
   (noise e = noise e0 \<longrightarrow> list_all (expression_valid (en_in_async e0)) xs) \<Longrightarrow>
   meets e0 (\<lambda>ys e'. noise e' = noise e0 \<longrightarrow> list_all (expression_valid (en_in_async e0)) ys) (elements_loop k P xs e)"
proof (induction k arbitrary: e xs)
  case 0
  then show ?case using extendsD(4) [OF 0(1)] by simp
next
  case (Suc k)
  show ?case
    unfolding elements_loop.simps using Suc.prems
    by (auto intro!: operations calls comma_then_meets Suc.IH)
qed

lemma entries_loop_meets:
  "extends e0 e \<Longrightarrow> length (en_tokens e0) < n + en_current e \<Longrightarrow> length (en_tokens e0) < k + en_current e \<Longrightarrow>
   (noise e = noise e0 \<longrightarrow> list_all (entry_valid (en_in_async e0)) xs) \<Longrightarrow>
   meets e0 (\<lambda>ys e'. noise e' = noise e0 \<longrightarrow> list_all (entry_valid (en_in_async e0)) ys) (entries_loop k P xs e)"
proof (induction k arbitrary: e xs)
  case 0
  then show ?case using extendsD(4) [OF 0(1)] by simp
next
  case (Suc k)
  show ?case
    unfolding entries_loop.simps Let_def using Suc.prems
    by (auto intro!: operations calls comma_then_meets Suc.IH)
qed

lemma list_literal_produces: "produces n expression_post (list_literal P t)"
  unfolding list_literal_def expression_post_def
  by (rule producesI) (auto intro!: operations meets_mono [OF elements_loop_meets])

lemma map_literal_produces: "produces n expression_post (map_literal P t)"
  unfolding map_literal_def expression_post_def
  by (rule producesI) (auto intro!: operations meets_mono [OF entries_loop_meets])

lemma parameters_ordered_snoc:
  "parameters_ordered ps \<Longrightarrow> parameter_name p \<notin> parameter_name ` set ps \<Longrightarrow>
   (list_ex (\<lambda>q. parameter_default q \<noteq> None) ps \<longrightarrow> parameter_default p \<noteq> None) \<Longrightarrow>
   parameters_ordered (ps @ [p])"
  by (auto simp: parameters_ordered_def sorted_wrt_append list_ex_iff)

lemma arguments_ordered_snoc:
  "arguments_ordered as \<Longrightarrow>
   (case argument_name p of None \<Rightarrow> List.map_filter argument_name as = []
    | Some n \<Rightarrow> n \<notin> set (List.map_filter argument_name as)) \<Longrightarrow>
   arguments_ordered (as @ [p])"
  by (auto simp: arguments_ordered_def sorted_wrt_append List.map_filter_def filter_empty_conv
      split: option.splits)

lemma default_value_meets:
  "extends e e1 \<Longrightarrow> length (en_tokens e) < n + en_current e1 \<Longrightarrow>
   (\<And>d e2. extends e e2 \<Longrightarrow> en_current e1 \<le> en_current e2 \<Longrightarrow> noise e \<le> noise e1 \<Longrightarrow> noise e1 \<le> noise e2 \<Longrightarrow>
      (noise e2 = noise e1 \<longrightarrow> pred_option (expression_valid (en_in_async e)) d \<and> (saw \<longrightarrow> d \<noteq> None)) \<Longrightarrow> Q d e2) \<Longrightarrow>
   meets e Q (default_value P saw t e1)"
  unfolding default_value_def using extendsD(5) [of e e1] by (auto intro!: operations calls)

lemma parameters_loop_meets:
  "extends e0 e \<Longrightarrow> length (en_tokens e0) < n + en_current e \<Longrightarrow> length (en_tokens e0) < k + en_current e \<Longrightarrow>
   (noise e = noise e0 \<longrightarrow> parameters_ordered ps \<and> list_all (parameter_valid (en_in_async e0)) ps) \<Longrightarrow>
   meets e0 (\<lambda>qs e'. noise e' = noise e0 \<longrightarrow> parameters_ordered qs \<and> list_all (parameter_valid (en_in_async e0)) qs)
     (parameters_loop k P ps e)"
proof (induction k arbitrary: e ps)
  case 0
  then show ?case using extendsD(4) [OF 0(1)] by simp
next
  case (Suc k)
  show ?case
    unfolding parameters_loop.simps Let_def using Suc.prems
    by (auto intro!: operations calls comma_then_meets default_value_meets Suc.IH parameters_ordered_snoc)
qed

subsection \<open>Blocks\<close>

abbreviation statements_valid :: "engine \<Rightarrow> statement list \<Rightarrow> bool" where
  "statements_valid e ss \<equiv>
     list_all (statement_valid (0 < en_loop_depth e) (0 < en_function_depth e) (en_in_async e)) ss"

lemma statement_turn_meets:
  assumes e: "extends e0 e" "length (en_tokens e0) < n + en_current e"
    and stuck: "\<And>e'. stuck e' \<Longrightarrow> \<not> no_more_tokens e'"
    and valid: "noise e = noise e0 \<longrightarrow> statements_valid e0 ss"
    and Q: "\<And>ts e'. extends e0 e' \<Longrightarrow> en_current e < en_current e' \<or> en_current e = en_current e' \<and> \<not> stuck e' \<Longrightarrow>
      (noise e' = noise e0 \<longrightarrow> statements_valid e0 ts) \<Longrightarrow> Q ts e'"
  shows "meets e0 Q (statement_turn P stuck ss e)"
proof -
  have sub: "meets e (statement_post e) (p_statement P e)"
    using sub_statement e by (simp add: produces_def extendsD)
  note noise = extendsD(5) [OF e(1)]
  show ?thesis
  proof (cases "p_statement P e")
    case (Done s e1)
    then have "extends e e1" "statement_post e s e1" using sub by simp_all
    with Done show ?thesis
      using extends_trans [OF e(1), of e1] noise valid extendsD(5) [of e e1]
      by (auto simp: statement_turn_def statement_post_def extendsD(6-8) [OF e(1)] intro!: Q)
  next
    case (Failed e1)
    then have e1: "extends e e1" "noise e < noise e1" using sub by simp_all
    let ?e2 = "synchronize e1"
    have e2: "extends e1 ?e2"
      using extends_refl [OF extendsD(1) [OF e1(1)]] by (rule extends_synchronize)
    have "extends e0 ?e2" "noise e1 \<le> noise ?e2" "en_current e \<le> en_current ?e2"
      using extends_trans [OF e(1) extends_trans [OF e1(1) e2]] extendsD(3,5) [OF e2] extendsD(3) [OF e1(1)]
      by simp_all
    moreover have "extends e0 (skip_token ?e2)" if "stuck ?e2"
      using extends_trans [OF \<open>extends e0 ?e2\<close>] stuck [OF that] extends_skip_token [OF extendsD(1) [OF e2]] by blast
    ultimately show ?thesis
      using Failed e1(2) noise
      by (auto simp: statement_turn_def intro!: Q) (auto simp: skip_token_def)
  qed (use sub in simp)
qed

lemma block_loop_meets:
  "extends e0 e \<Longrightarrow> length (en_tokens e0) < n + en_current e \<Longrightarrow>
   length (en_tokens e0) < k + en_current e \<or> 0 < k \<and> (check TRightBrace e \<or> no_more_tokens e) \<Longrightarrow>
   (noise e = noise e0 \<longrightarrow> statements_valid e0 ss) \<Longrightarrow>
   meets e0 (\<lambda>ts e'. noise e' = noise e0 \<longrightarrow> statements_valid e0 ts) (block_loop k P ss e)"
proof (induction k arbitrary: e ss)
  case 0
  then show ?case using extendsD(4) [OF 0(1)] by simp
next
  case (Suc k)
  have "en_current e < length (en_tokens e0)" using extendsD(4) [OF Suc.prems(1)] .
  then show ?case
    using Suc.prems
    by (auto intro!: meets_and_then statement_turn_meets Suc.IH)
qed

lemma block_after_produces: "produces n block_post (block_after P t)"
  unfolding block_after_def block_post_def
  by (rule producesI) (auto intro!: operations meets_mono [OF block_loop_meets])

lemma required_block_produces: "produces n block_post (required_block P message)"
  unfolding required_block_def
  by (rule producesI)
    (auto simp: block_post_def intro!: operations call_block [OF block_after_produces])

subsection \<open>Functions and calls\<close>

lemma parameters_produces: "produces n parameters_post (parameters P)"
  unfolding parameters_def parameters_post_def
  by (rule producesI)
    (auto simp: parameters_ordered_def intro!: operations meets_mono [OF parameters_loop_meets])

lemma function_body_meets:
  assumes "extends e e1" "length (en_tokens e) < n + en_current e1"
    "\<And>b e2. extends e e2 \<Longrightarrow> en_current e1 < en_current e2 \<Longrightarrow> noise e \<le> noise e1 \<Longrightarrow> noise e1 \<le> noise e2 \<Longrightarrow>
       (noise e2 = noise e1 \<longrightarrow> block_valid False True a b) \<Longrightarrow> Q b e2"
  shows "meets e Q (function_body P a e1)"
  unfolding function_body_def using assms
  by (auto intro!: operations call_in_function [OF block_after_produces])

lemma function_expression_produces: "produces n expression_post (function_expression P t a)"
  unfolding function_expression_def expression_post_def
  by (rule producesI)
    (auto intro!: operations function_body_meets call_parameters [OF parameters_produces])

lemma argument_label_meets:
  assumes "extends e e1"
    "\<And>label e2. extends e e2 \<Longrightarrow> en_current e1 \<le> en_current e2 \<Longrightarrow> noise e \<le> noise e1 \<Longrightarrow> noise e1 \<le> noise e2 \<Longrightarrow>
       (noise e2 = noise e1 \<longrightarrow> (case label of None \<Rightarrow> names = [] | Some m \<Rightarrow> m \<notin> set names)) \<Longrightarrow> Q label e2"
  shows "meets e Q (argument_label names e1)"
  unfolding argument_label_def using assms extendsD(5) [OF assms(1)]
  by (auto simp: check_def check_next_def intro!: operations meets_next_token)

lemma arguments_loop_meets:
  "extends e0 e \<Longrightarrow> length (en_tokens e0) < n + en_current e \<Longrightarrow> length (en_tokens e0) < k + en_current e \<Longrightarrow>
   low \<le> en_current e \<Longrightarrow> few \<le> noise e \<Longrightarrow>
   (noise e = noise e0 \<longrightarrow> arguments_ordered as \<and> list_all (argument_valid (en_in_async e0)) as) \<Longrightarrow>
   meets e0 (\<lambda>bs e'. low \<le> en_current e' \<and> few \<le> noise e' \<and> (noise e' = noise e0 \<longrightarrow> arguments_ordered bs \<and> list_all (argument_valid (en_in_async e0)) bs))
     (arguments_loop k P as e)"
proof (induction k arbitrary: e as)
  case 0
  then show ?case using extendsD(4) [OF 0(1)] by simp
next
  case (Suc k)
  show ?case
    unfolding arguments_loop.simps Let_def using Suc.prems
    by (auto intro!: operations calls comma_then_meets argument_label_meets Suc.IH arguments_ordered_snoc)
qed

text \<open>The operations that extend an expression parsed before: what is valid stays so.\<close>

lemma finish_call_meets:
  assumes "extends e e1" "length (en_tokens e) < n + en_current e1"
    "noise e1 = noise e \<longrightarrow> expression_valid (en_in_async e) callee"
    "\<And>x e2. extends e e2 \<Longrightarrow> en_current e1 < en_current e2 \<Longrightarrow>
       (noise e2 = noise e \<longrightarrow> expression_valid (en_in_async e) x) \<Longrightarrow> Q x e2"
  shows "meets e Q (finish_call P callee e1)"
  unfolding finish_call_def using assms extendsD(5) [OF assms(1)]
  by (auto simp: arguments_ordered_def List.map_filter_def
      intro!: operations meets_mono [OF arguments_loop_meets [where low = "en_current e1" and few = "noise e1"]])

lemma finish_subscript_meets:
  assumes "extends e e1" "length (en_tokens e) < n + en_current e1"
    "noise e1 = noise e \<longrightarrow> expression_valid (en_in_async e) object"
    "\<And>x e2. extends e e2 \<Longrightarrow> en_current e1 < en_current e2 \<Longrightarrow>
       (noise e2 = noise e \<longrightarrow> expression_valid (en_in_async e) x) \<Longrightarrow> Q x e2"
  shows "meets e Q (finish_subscript P object e1)"
  unfolding finish_subscript_def using assms extendsD(5) [OF assms(1)]
  by (auto intro!: operations calls optional_unless_meets)

lemma primary_produces: "produces (Suc n) expression_post (primary P)"
proof (rule producesI)
  fix e
  assume "engine_ok e" "length (en_tokens e) < Suc n + en_current e" "extends e e"
  then show "meets e (expression_post e) (primary P e)"
    unfolding primary_def expression_post_def check_def
    by (auto simp: literal_def integer_literal_def float_literal_def split: prod.split
        intro!: operations meets_next_token calls
          call_expression [OF list_literal_produces] call_expression [OF map_literal_produces]
          call_expression [OF function_expression_produces])
qed

subsection \<open>Operators\<close>

lemma postfix_loop_meets:
  "extends e0 e \<Longrightarrow> length (en_tokens e0) < Suc n + en_current e \<Longrightarrow> length (en_tokens e0) < k + en_current e \<Longrightarrow>
   en_current e0 < en_current e \<Longrightarrow> (noise e = noise e0 \<longrightarrow> expression_valid (en_in_async e0) x) \<Longrightarrow>
   meets e0 (expression_post e0) (postfix_loop k P x e)"
proof (induction k arbitrary: e x)
  case 0
  then show ?case using extendsD(4) [OF 0(1)] by simp
next
  case (Suc k)
  show ?case
    unfolding postfix_loop.simps check_def using Suc.prems
    by (auto simp: expression_post_def
        intro!: meets_and_then meets_consume meets_next_token finish_call_meets finish_subscript_meets
          Suc.IH [unfolded expression_post_def])
qed

lemma postfix_produces: "produces (Suc n) expression_post (postfix P)"
  unfolding postfix_def
  by (rule producesI)
    (auto intro!: operations call_expression [OF primary_produces] postfix_loop_meets)

lemma power_produces: "produces (Suc n) expression_post (power_expression P)"
  unfolding power_expression_def binary_def
  by (rule producesI)
    (auto simp: expression_post_def intro!: operations call_expression [OF postfix_produces] calls)

lemma unary_produces: "produces (Suc n) expression_post (unary P)"
proof (rule producesI)
  fix e
  assume "engine_ok e" "length (en_tokens e) < Suc n + en_current e" "extends e e"
  then show "meets e (expression_post e) (unary P e)"
    unfolding unary_def check_def
    by (auto simp: expression_post_def
        intro!: operations meets_next_token calls call_expression [OF power_produces])
qed

lemma left_loop_meets:
  assumes operand: "produces (Suc n) expression_post operand" and operation: "operator_parser operation"
  shows "extends e0 e \<Longrightarrow> length (en_tokens e0) < Suc n + en_current e \<Longrightarrow> length (en_tokens e0) < k + en_current e \<Longrightarrow>
   en_current e0 < en_current e \<Longrightarrow> (noise e = noise e0 \<longrightarrow> expression_valid (en_in_async e0) x) \<Longrightarrow>
   meets e0 (expression_post e0) (left_loop k operand operation x e)"
proof (induction k arbitrary: e x)
  case 0
  then show ?case using extendsD(4) [OF 0(1)] by simp
next
  case (Suc k)
  show ?case
    unfolding left_loop.simps using Suc.prems
    by (auto simp: expression_post_def binary_def
        intro!: meets_and_then meets_yield operator_parserD [OF operation] call_expression [OF operand]
          Suc.IH [unfolded expression_post_def])
qed

lemma left_associative_produces:
  assumes "produces (Suc n) expression_post operand" "operator_parser operation"
  shows "produces (Suc n) expression_post (left_associative operand operation)"
  unfolding left_associative_def
  by (rule producesI)
    (auto intro!: operations call_expression [OF assms(1)] left_loop_meets [OF assms])

lemmas level = left_associative_produces operator_match_choice operator_negatable

lemma logical_or_produces: "produces (Suc n) expression_post (logical_or P)"
  unfolding logical_or_def logical_and_def equality_def ordering_def additive_def multiplicative_def
  by (intro level unary_produces) simp_all

lemma assignment_produces: "produces (Suc n) expression_post (assignment P)"
proof (rule producesI)
  fix e
  assume "engine_ok e" "length (en_tokens e) < Suc n + en_current e" "extends e e"
  then show "meets e (expression_post e) (assignment P e)"
    unfolding assignment_def
    by (auto simp: expression_post_def
        intro!: operations operator_parserD [OF operator_match_choice] calls
          call_expression [OF logical_or_produces])
qed

subsection \<open>Statements\<close>

lemma condition_meets:
  assumes "extends e e1" "length (en_tokens e) < n + en_current e1"
    "\<And>x e2. extends e e2 \<Longrightarrow> en_current e1 < en_current e2 \<Longrightarrow> noise e \<le> noise e1 \<Longrightarrow> noise e1 \<le> noise e2 \<Longrightarrow>
       (noise e2 = noise e1 \<longrightarrow> expression_valid (en_in_async e) x) \<Longrightarrow> Q x e2"
  shows "meets e Q (parenthesized_condition P message e1)"
  unfolding parenthesized_condition_def using assms by (auto intro!: operations calls)

named_theorems statement_rules

lemma let_produces [statement_rules]: "produces n statement_post (let_statement P t)"
  unfolding let_statement_def statement_post_def by (rule producesI) (auto intro!: operations calls)

lemma if_produces [statement_rules]: "produces n statement_post (if_statement P t)"
  unfolding if_statement_def statement_post_def
  by (rule producesI) (auto intro!: operations calls condition_meets)

lemma while_produces [statement_rules]: "produces n statement_post (while_statement P t)"
  unfolding while_statement_def statement_post_def
  by (rule producesI) (auto intro!: operations calls condition_meets)

lemma for_produces [statement_rules]: "produces n statement_post (for_statement P t)"
  unfolding for_statement_def statement_post_def
  by (rule producesI) (auto intro!: operations calls)

lemma function_declaration_produces [statement_rules]:
  "produces n statement_post (function_declaration P t a)"
  unfolding function_declaration_def statement_post_def
  by (rule producesI) (auto intro!: operations function_body_meets call_parameters [OF parameters_produces])

lemma return_produces [statement_rules]: "produces n statement_post (return_statement P t)"
  unfolding return_statement_def statement_post_def
  by (rule producesI) (auto intro!: operations optional_unless_meets calls)

lemma exit_produces [statement_rules]:
  "produces n statement_post (break_statement t)" "produces n statement_post (continue_statement t)"
  unfolding break_statement_def continue_statement_def loop_exit_def statement_post_def
  by (rule producesI, auto intro!: operations)+

lemma import_produces [statement_rules]: "produces n statement_post (import_statement t)"
  unfolding import_statement_def statement_post_def by (rule producesI) (auto intro!: operations)

lemma throw_produces [statement_rules]: "produces n statement_post (throw_statement P t)"
  unfolding throw_statement_def statement_post_def by (rule producesI) (auto intro!: operations calls)

lemma try_produces [statement_rules]: "produces n statement_post (try_statement P t)"
  unfolding try_statement_def statement_post_def
  by (rule producesI) (auto intro!: operations call_block [OF required_block_produces])

lemma defer_produces [statement_rules]: "produces n statement_post (defer_statement P t)"
  unfolding defer_statement_def statement_post_def
  by (rule producesI) (auto intro!: operations calls)

lemma expression_statement_produces: "produces (Suc n) statement_post (expression_statement P)"
  unfolding expression_statement_def statement_post_def
  by (rule producesI) (auto intro!: operations call_expression [OF assignment_produces])

lemma block_statement_produces:
  "produces n statement_post (and_then (block_after P t) (\<lambda>b. yield (BlockStatement b)))"
  unfolding statement_post_def
  by (rule producesI) (auto intro!: operations call_block [OF block_after_produces])

lemma statement_produces: "produces (Suc n) statement_post (statement P)"
proof (rule producesI)
  fix e
  assume e: "engine_ok e" "length (en_tokens e) < Suc n + en_current e" "extends e e"
  have one: "meets e (statement_post e) (and_then next_token m e)"
    if "tok_kind (peek e) \<noteq> TEndOfFile" "\<And>t. produces n statement_post (m t)" for m
    using e that
    by (auto simp: statement_post_def intro!: meets_and_then meets_next_token call_statement [OF that(2)])
  have async: "meets e (statement_post e)
      (and_then next_token (\<lambda>t. and_then next_token (\<lambda>u. function_declaration P t True)) e)"
    if "tok_kind (peek e) = TAsync" "tok_kind (peek_at (Suc 0) e) = TFn"
    using e that function_declaration_produces
    by (auto simp: statement_post_def intro!: meets_and_then meets_next_token call_statement)
  have rest: "meets e (statement_post e) (expression_statement P e)"
    using expression_statement_produces e by (simp add: produces_def)
  show "meets e (statement_post e) (statement P e)"
    unfolding statement_def check_def check_next_def
    by (auto simp: async intro!: one rest statement_rules block_statement_produces)
qed

end

section \<open>The recursion closed\<close>

lemma knot_Suc:
  "knot (Suc n) = \<lparr>p_expression = assignment (knot n), p_unary = unary (knot n), p_statement = statement (knot n)\<rparr>"
  by (simp add: knot_def fun_eq_iff)

lemma produces_nothing: "produces 0 Q m"
  by (simp add: produces_def engine_ok_def)

lemma subparsers_knot: "subparsers (knot n) n"
proof (induction n)
  case 0
  show ?case by unfold_locales (rule produces_nothing)+
next
  case (Suc n)
  then show ?case
    by unfold_locales
      (simp_all add: knot_Suc subparsers.assignment_produces subparsers.unary_produces subparsers.statement_produces)
qed

interpretation knot_parsers: subparsers "knot n" n for n
  by (rule subparsers_knot)

lemma knot_statement_turn:
  "extends e0 e \<Longrightarrow> length (en_tokens e0) < n + en_current e \<Longrightarrow> (\<And>e'. stuck e' \<Longrightarrow> \<not> no_more_tokens e') \<Longrightarrow>
   (noise e = noise e0 \<longrightarrow>
     list_all (statement_valid (0 < en_loop_depth e0) (0 < en_function_depth e0) (en_in_async e0)) ss) \<Longrightarrow>
   (\<And>ts e'. extends e0 e' \<Longrightarrow> en_current e < en_current e' \<or> en_current e = en_current e' \<and> \<not> stuck e' \<Longrightarrow>
      (noise e' = noise e0 \<longrightarrow>
        list_all (statement_valid (0 < en_loop_depth e0) (0 < en_function_depth e0) (en_in_async e0)) ts) \<Longrightarrow> Q ts e') \<Longrightarrow>
   meets e0 Q (statement_turn (knot n) stuck ss e)"
  by (rule knot_parsers.statement_turn_meets)

lemma run_loop_meets:
  "extends e0 e \<Longrightarrow> length (en_tokens e0) < n + en_current e \<Longrightarrow>
   length (en_tokens e0) < k + en_current e \<or> 0 < k \<and> no_more_tokens e \<Longrightarrow>
   (noise e = noise e0 \<longrightarrow>
     list_all (statement_valid (0 < en_loop_depth e0) (0 < en_function_depth e0) (en_in_async e0)) ss) \<Longrightarrow>
   meets e0 (\<lambda>ts e'. no_more_tokens e' \<and> (noise e' = noise e0 \<longrightarrow>
     list_all (statement_valid (0 < en_loop_depth e0) (0 < en_function_depth e0) (en_in_async e0)) ts))
     (run_loop k (knot n) ss e)"
proof (induction k arbitrary: e ss)
  case 0
  then show ?case using extendsD(4) [OF 0(1)] by simp
next
  case (Suc k)
  have "en_current e < length (en_tokens e0)" using extendsD(4) [OF Suc.prems(1)] .
  then show ?case
    using Suc.prems by (auto intro!: meets_and_then knot_statement_turn Suc.IH)
qed

lemma run_loop_never_fails: "run_loop k P ss e \<noteq> Failed e'"
  by (induction k arbitrary: ss e) (auto simp: and_then_def statement_turn_def Let_def split: outcome.splits)

lemma run_result:
  assumes "engine_ok e"
  obtains ss e' where "run e = Some \<lparr>pr_program = \<lparr>program_statements = ss,
        program_span = \<lparr>span_begin = span_begin (case ss of [] \<Rightarrow> tok_span (peek e') | s # _ \<Rightarrow> statement_span s),
          span_end = span_end (tok_span (peek e'))\<rparr>\<rparr>, pr_diagnostics = en_diagnostics e'\<rparr>"
    "extends e e'" "no_more_tokens e'"
    "noise e' = noise e \<longrightarrow> list_all (statement_valid (0 < en_loop_depth e) (0 < en_function_depth e) (en_in_async e)) ss"
proof -
  let ?r = "bounded (\<lambda>n. run_loop n (knot (Suc (length (en_tokens e)))) []) e"
  have "meets e (\<lambda>ts e'. no_more_tokens e' \<and> (noise e' = noise e \<longrightarrow>
      list_all (statement_valid (0 < en_loop_depth e) (0 < en_function_depth e) (en_in_async e)) ts)) ?r"
    unfolding bounded_def
    by (rule run_loop_meets [OF extends_refl [OF assms]]) auto
  moreover have "?r \<noteq> Failed e'" for e'
    unfolding bounded_def by (rule run_loop_never_fails)
  ultimately show ?thesis
    using that by (cases ?r) (auto simp: run_def)
qed

section \<open>Parsing a source\<close>

lemma engine_ok_lexed: "engine_ok (engine_for (lr_tokens (lex source)) ds)"
  using lexed.nonempty lexed.last_eof by (auto simp: engine_ok_def engine_for_def)

text \<open>C14 (parse_total): parsing any source returns a tree: the recovery loops and the recursion
  of the grammar end for every input. The lexical diagnostics come first, and the span of the
  program ends where the token stream ends, at the end of the source.\<close>

theorem parse_total:
  "\<exists>r. parse source = Some r \<and> prefix (lr_diagnostics (lex source)) (pr_diagnostics r) \<and>
     loc_offset (span_end (program_span (pr_program r))) = length source"
proof -
  let ?e = "engine_for (lr_tokens (lex source)) (lr_diagnostics (lex source))"
  obtain ss e' where r: "run ?e = Some \<lparr>pr_program = \<lparr>program_statements = ss,
        program_span = \<lparr>span_begin = span_begin (case ss of [] \<Rightarrow> tok_span (peek e') | s # _ \<Rightarrow> statement_span s),
          span_end = span_end (tok_span (peek e'))\<rparr>\<rparr>, pr_diagnostics = en_diagnostics e'\<rparr>"
    and e': "extends ?e e'" "no_more_tokens e'"
    by (rule run_result [OF engine_ok_lexed])
  have "en_tokens e' = lr_tokens (lex source)" "en_current e' < length (lr_tokens (lex source))"
    using extendsD(2,4) [OF e'(1)] by (simp_all add: engine_for_def)
  moreover from this have "en_current e' = length (lr_tokens (lex source)) - 1"
    using e'(2) lexed.eof_iff_last [of "en_current e'" source]
    by (simp add: no_more_tokens_def peek_current [OF extendsD(1) [OF e'(1)]])
  ultimately have "peek e' = last (lr_tokens (lex source))"
    using lexed.nonempty by (simp add: peek_current [OF extendsD(1) [OF e'(1)]] last_conv_nth)
  moreover have "prefix (lr_diagnostics (lex source)) (en_diagnostics e')"
    using e'(1) by (simp add: extends_def engine_for_def)
  ultimately show ?thesis
    using r by (simp add: parse_def Let_def) (simp add: lex_fields lex_end)
qed

text \<open>The parser also returns on every other sequence of tokens, in
  any order and with or without an end of file.\<close>

theorem parse_program_total: "\<exists>r. parse_program tokens = Some r"
proof -
  have "engine_ok (engine_for (complete_tokens tokens) [])"
    by (auto simp: engine_ok_def engine_for_def complete_tokens_def Let_def)
  then show ?thesis unfolding parse_program_def by (rule run_result) blast
qed

lemma parsed_tree_valid:
  assumes "parse source = Some r" "\<not> has_errors (pr_diagnostics r)"
  shows "list_all (statement_valid False False False) (program_statements (pr_program r))"
proof -
  let ?e = "engine_for (lr_tokens (lex source)) (lr_diagnostics (lex source))"
  obtain ss e' where r: "run ?e = Some \<lparr>pr_program = \<lparr>program_statements = ss,
        program_span = \<lparr>span_begin = span_begin (case ss of [] \<Rightarrow> tok_span (peek e') | s # _ \<Rightarrow> statement_span s),
          span_end = span_end (tok_span (peek e'))\<rparr>\<rparr>, pr_diagnostics = en_diagnostics e'\<rparr>"
    and e': "extends ?e e'"
    and valid: "noise e' = noise ?e \<longrightarrow>
      list_all (statement_valid (0 < en_loop_depth ?e) (0 < en_function_depth ?e) (en_in_async ?e)) ss"
    by (rule run_result [OF engine_ok_lexed])
  have "\<not> has_errors (en_diagnostics e')" using r assms by (auto simp: parse_def Let_def)
  then have "noise e' = noise ?e" using e' extendsD(5) [OF e'] by (auto simp: extends_def)
  with valid show ?thesis using r assms by (auto simp: parse_def Let_def engine_for_def)
qed

lemma parse_returns: "\<exists>r. parse source = Some r"
proof -
  obtain r where "run (engine_for (lr_tokens (lex source)) (lr_diagnostics (lex source))) = Some r"
    by (rule run_result [OF engine_ok_lexed]) blast
  then show ?thesis by (simp add: parse_def Let_def)
qed

text \<open>C2 (parse_valid): the tree of a source that is parsed without an error obeys every
  context rule of the grammar: break and continue stand in a loop, return and defer in a
  function, await in an async function, at every depth of nesting; the names of parameters and
  of named arguments are distinct and in order; assignments have a target.\<close>

theorem parse_valid:
  assumes "parse source = Some r" "\<not> has_errors (pr_diagnostics r)"
  shows "list_all (statement_valid False False False) (program_statements (pr_program r))"
  by (rule parsed_tree_valid [OF assms])

text \<open>A function with a default parameter and a return.\<close>

lemma parse_valid_witness:
  "list_all (statement_valid False False False) (program_statements (pr_program
     (the (parse ''fn f(a = 1) { return a; }''))))"
proof (rule parse_valid [where source = "''fn f(a = 1) { return a; }''"])
  show "\<not> has_errors (pr_diagnostics (the (parse ''fn f(a = 1) { return a; }'')))"
    by code_simp
next
  show "parse ''fn f(a = 1) { return a; }'' = Some (the (parse ''fn f(a = 1) { return a; }''))"
    using parse_returns [of "''fn f(a = 1) { return a; }''"] by auto
qed

end
