(* ===== verification/Semantic.thy ===== *)
theory Semantic
  imports Ast
begin

text \<open>
  The lexical semantic analyzer (src/include/script/SemanticAnalyzer.h,
  src/src/script/SemanticAnalyzer.cpp): the class \<open>Engine\<close> is the record \<open>analysis\<close>, its
  methods are functions on it, and the visitors recurse on the syntax tree.  A borrowed pointer
  to a node is the span of the node (and its name); the scopes are listed with the innermost
  one first.
\<close>

section \<open>Results and state\<close>

datatype binding_kind = KindLet | KindParameter | KindFunction | KindImport | KindFor | KindCatch

datatype access_mode = Read | Write | ReadWrite

record semantic_options =
  max_ast_nodes :: nat
  max_nesting_depth :: nat

definition default_semantic_options :: semantic_options where
  "default_semantic_options = \<lparr>max_ast_nodes = 100000, max_nesting_depth = 256\<rparr>"

definition implementation_depth_ceiling :: nat where
  "implementation_depth_ceiling = 1024"

definition effective_max_depth :: "semantic_options \<Rightarrow> nat" where
  "effective_max_depth opts = min (max_nesting_depth opts) implementation_depth_ceiling"

record binding_info =
  bi_id :: nat
  bi_name :: string
  bi_kind :: binding_kind
  bi_span :: source_span
  bi_scope_depth :: nat
  bi_owner :: "nat option"
  bi_initialized :: bool
  bi_captured :: bool

record reference_resolution =
  rr_span :: source_span
  rr_name :: string
  rr_binding :: nat
  rr_distance :: nat
  rr_is_write :: bool
  rr_requires_read :: bool
  rr_captured :: bool

record function_info =
  fi_id :: nat
  fi_span :: source_span
  fi_parent :: "nat option"
  fi_captures :: "nat list"

record analysis =
  an_diagnostics :: "diagnostic list"
  an_bindings :: "binding_info list"
  an_references :: "reference_resolution list"
  an_functions :: "function_info list"
  an_imports :: "(source_span \<times> string \<times> string) list"
  an_scopes :: "(string \<rightharpoonup> nat) list"
  an_current :: "nat option"
  an_cleanup_depth :: nat
  an_visited :: nat
  an_node_reported :: bool
  an_depth_reported :: bool

definition analysis_start :: analysis where
  "analysis_start = \<lparr>an_diagnostics = [], an_bindings = [], an_references = [], an_functions = [],
     an_imports = [], an_scopes = [Map.empty], an_current = None, an_cleanup_depth = 0, an_visited = 0,
     an_node_reported = False, an_depth_reported = False\<rparr>"

section \<open>Diagnostics and limits\<close>

definition diagnose :: "string \<Rightarrow> string \<Rightarrow> source_span \<Rightarrow> analysis \<Rightarrow> analysis" where
  "diagnose code message sp a = a\<lparr>an_diagnostics := an_diagnostics a @
     [\<lparr>diag_severity = SevError, diag_code = code, diag_message = message, diag_span = sp\<rparr>]\<rparr>"

definition single_quoted :: "string \<Rightarrow> string" where
  "single_quoted word = [CHR 0x27] @ word @ [CHR 0x27]"

definition enter :: "semantic_options \<Rightarrow> source_span \<Rightarrow> nat \<Rightarrow> analysis \<Rightarrow> bool \<times> analysis" where
  "enter opts sp depth a =
    (if an_visited a \<ge> max_ast_nodes opts then
       (False, if \<not> an_node_reported a
               then (diagnose ''SEM006'' ''maximum AST node count exceeded'' sp a)\<lparr>an_node_reported := True\<rparr>
               else a)
     else let a1 = a\<lparr>an_visited := an_visited a + 1\<rparr> in
       if depth > effective_max_depth opts then
         (False, if \<not> an_depth_reported a1
                 then (diagnose ''SEM007'' ''maximum semantic nesting depth exceeded'' sp a1)
                        \<lparr>an_depth_reported := True\<rparr>
                 else a1)
       else (True, a1))"

definition entered ::
  "semantic_options \<Rightarrow> source_span \<Rightarrow> nat \<Rightarrow> (analysis \<Rightarrow> analysis) \<Rightarrow> analysis \<Rightarrow> analysis" where
  "entered opts sp depth visit a = (let (ok, a1) = enter opts sp depth a in if ok then visit a1 else a1)"

definition reject_cleanup_control :: "source_span \<Rightarrow> string \<Rightarrow> analysis \<Rightarrow> analysis" where
  "reject_cleanup_control sp operation a =
    (if an_cleanup_depth a = 0 then a
     else diagnose ''SEM009'' (operation @ '' is not allowed in a defer cleanup body'') sp a)"

section \<open>Scopes and bindings\<close>

definition push_scope :: "analysis \<Rightarrow> analysis" where
  "push_scope a = a\<lparr>an_scopes := Map.empty # an_scopes a\<rparr>"

definition pop_scope :: "analysis \<Rightarrow> analysis" where
  "pop_scope a = a\<lparr>an_scopes := tl (an_scopes a)\<rparr>"

text \<open>The guards, around the visit they protect.\<close>

definition in_scope :: "(analysis \<Rightarrow> analysis) \<Rightarrow> analysis \<Rightarrow> analysis" where
  "in_scope visit a = pop_scope (visit (push_scope a))"

definition function_guard :: "source_span \<Rightarrow> (analysis \<Rightarrow> analysis) \<Rightarrow> analysis \<Rightarrow> analysis" where
  "function_guard sp visit a =
    (let i = length (an_functions a);
         a1 = a\<lparr>an_functions := an_functions a @
                 [\<lparr>fi_id = i, fi_span = sp, fi_parent = an_current a, fi_captures = []\<rparr>],
               an_current := Some i, an_cleanup_depth := 0\<rparr>
     in (pop_scope (visit (push_scope a1)))
          \<lparr>an_current := an_current a, an_cleanup_depth := an_cleanup_depth a\<rparr>)"

definition in_cleanup_body :: "(analysis \<Rightarrow> analysis) \<Rightarrow> analysis \<Rightarrow> analysis" where
  "in_cleanup_body visit a =
    (let a' = visit (a\<lparr>an_cleanup_depth := an_cleanup_depth a + 1\<rparr>)
     in a'\<lparr>an_cleanup_depth := an_cleanup_depth a' - 1\<rparr>)"

definition declare_name ::
  "string \<Rightarrow> binding_kind \<Rightarrow> source_span \<Rightarrow> bool \<Rightarrow> bool \<Rightarrow> analysis \<Rightarrow> nat option \<times> analysis" where
  "declare_name name kind sp initialized parameter a =
    (if hd (an_scopes a) name \<noteq> None then
       (None, if parameter then diagnose ''SEM004'' (''duplicate parameter '' @ single_quoted name) sp a
              else diagnose ''SEM002'' (''duplicate declaration of '' @ single_quoted name) sp a)
     else let i = length (an_bindings a) in
       (Some i, a\<lparr>an_scopes := (hd (an_scopes a))(name \<mapsto> i) # tl (an_scopes a),
          an_bindings := an_bindings a @ [\<lparr>bi_id = i, bi_name = name, bi_kind = kind, bi_span = sp,
            bi_scope_depth = length (an_scopes a) - 1, bi_owner = an_current a,
            bi_initialized = initialized, bi_captured = False\<rparr>]\<rparr>))"

definition initialize :: "nat option \<Rightarrow> analysis \<Rightarrow> analysis" where
  "initialize i a = (case i of None \<Rightarrow> a
     | Some i \<Rightarrow> a\<lparr>an_bindings := (an_bindings a)[i := (an_bindings a ! i)\<lparr>bi_initialized := True\<rparr>]\<rparr>)"

text \<open>\<open>find\<close>: the innermost scope that declares the name, and its distance.\<close>

fun find_binding :: "(string \<rightharpoonup> nat) list \<Rightarrow> string \<Rightarrow> (nat \<times> nat) option" where
  "find_binding [] name = None"
| "find_binding (scope # scopes) name = (case scope name of
      Some i \<Rightarrow> Some (i, 0)
    | None \<Rightarrow> map_option (\<lambda>(i, distance). (i, distance + 1)) (find_binding scopes name))"

text \<open>
  The loop of \<open>add_capture\<close> up the chain of enclosing functions; the parent of a function is
  an earlier one, so \<open>Suc id\<close> rounds reach its end.
\<close>

fun capture_chain :: "nat \<Rightarrow> nat option \<Rightarrow> nat option \<Rightarrow> nat \<Rightarrow> function_info list \<Rightarrow> function_info list" where
  "capture_chain 0 owner current binding functions = functions"
| "capture_chain (Suc n) owner current binding functions =
    (case current of
       None \<Rightarrow> functions
     | Some i \<Rightarrow>
         if current = owner then functions
         else let f = functions ! i;
                  f' = (if binding \<in> set (fi_captures f) then f
                        else f\<lparr>fi_captures := fi_captures f @ [binding]\<rparr>)
           in capture_chain n owner (fi_parent f) binding (functions[i := f']))"

definition add_capture :: "nat \<Rightarrow> analysis \<Rightarrow> analysis" where
  "add_capture binding a =
    (case an_current a of
       None \<Rightarrow> a
     | Some i \<Rightarrow>
         a\<lparr>an_functions := capture_chain (Suc i) (bi_owner (an_bindings a ! binding)) (Some i) binding (an_functions a),
           an_bindings := (an_bindings a)[binding := (an_bindings a ! binding)\<lparr>bi_captured := True\<rparr>]\<rparr>)"

definition resolve :: "source_span \<Rightarrow> string \<Rightarrow> access_mode \<Rightarrow> analysis \<Rightarrow> analysis" where
  "resolve sp name access a =
    (case find_binding (an_scopes a) name of
       None \<Rightarrow> diagnose ''SEM001'' (''unknown name '' @ single_quoted name) sp a
     | Some (i, distance) \<Rightarrow>
         let binding = an_bindings a ! i;
             requires_read = (access \<noteq> Write);
             a1 = (if requires_read \<and> \<not> bi_initialized binding
                   then diagnose ''SEM003''
                     (''binding '' @ single_quoted name @ '' is read before initialization'') sp a
                   else a);
             captured = (an_current a \<noteq> None \<and> bi_owner binding \<noteq> None \<and> an_current a \<noteq> bi_owner binding);
             a2 = (if captured then add_capture i a1 else a1)
         in a2\<lparr>an_references := an_references a2 @
              [\<lparr>rr_span = sp, rr_name = name, rr_binding = i, rr_distance = distance,
                rr_is_write = (access \<noteq> Read), rr_requires_read = requires_read,
                rr_captured = captured\<rparr>]\<rparr>)"

section \<open>The visitors\<close>

definition then_do :: "(analysis \<Rightarrow> analysis) \<Rightarrow> (analysis \<Rightarrow> analysis) \<Rightarrow> analysis \<Rightarrow> analysis" where
  "then_do f g a = g (f a)"

definition declare_only :: "string \<Rightarrow> binding_kind \<Rightarrow> source_span \<Rightarrow> analysis \<Rightarrow> analysis" where
  "declare_only name kind sp a = snd (declare_name name kind sp True False a)"

text \<open>A declaration that becomes initialized after the visit of what it is bound to.\<close>

definition declare_around ::
  "string \<Rightarrow> binding_kind \<Rightarrow> source_span \<Rightarrow> bool \<Rightarrow> bool \<Rightarrow> (analysis \<Rightarrow> analysis) \<Rightarrow> analysis \<Rightarrow> analysis" where
  "declare_around name kind sp initialized parameter visit a =
    (let (i, a1) = declare_name name kind sp initialized parameter a in initialize i (visit a1))"

definition record_import :: "source_span \<Rightarrow> string \<Rightarrow> string \<Rightarrow> analysis \<Rightarrow> analysis" where
  "record_import sp module alias a = a\<lparr>an_imports := an_imports a @ [(sp, module, alias)]\<rparr>"

text \<open>\<open>visit_assignment_target\<close> chooses how the target is accessed.\<close>

definition target_access :: "assignment_operator \<Rightarrow> expression \<Rightarrow> access_mode" where
  "target_access operation target = (case target of
     IdentifierExpression sp n \<Rightarrow> if operation = AssignPlain then Write else ReadWrite | _ \<Rightarrow> Read)"

text \<open>The loops over the children of a node, and a child that may be missing.\<close>

primrec each :: "(analysis \<Rightarrow> analysis) list \<Rightarrow> analysis \<Rightarrow> analysis" where
  "each [] a = a"
| "each (visit # visits) a = each visits (visit a)"

primrec if_present :: "(analysis \<Rightarrow> analysis) option \<Rightarrow> analysis \<Rightarrow> analysis" where
  "if_present None a = a"
| "if_present (Some visit) a = visit a"

text \<open>\<open>analyze_function\<close>, given the visits of the parameters and of the body.\<close>

definition analyze_function ::
  "source_span \<Rightarrow> (analysis \<Rightarrow> analysis) list \<Rightarrow> (analysis \<Rightarrow> analysis) \<Rightarrow> analysis \<Rightarrow> analysis" where
  "analyze_function sp parameters body = function_guard sp (then_do (each parameters) body)"

text \<open>A block statement has a scope of its own; the block of a function body has none.\<close>

primrec visit_expression :: "semantic_options \<Rightarrow> access_mode \<Rightarrow> nat \<Rightarrow> expression \<Rightarrow> analysis \<Rightarrow> analysis"
  and visit_entry :: "semantic_options \<Rightarrow> nat \<Rightarrow> map_entry \<Rightarrow> analysis \<Rightarrow> analysis"
  and visit_parameter :: "semantic_options \<Rightarrow> nat \<Rightarrow> parameter \<Rightarrow> analysis \<Rightarrow> analysis"
  and visit_argument :: "semantic_options \<Rightarrow> nat \<Rightarrow> call_argument \<Rightarrow> analysis \<Rightarrow> analysis"
  and visit_block :: "semantic_options \<Rightarrow> ((analysis \<Rightarrow> analysis) \<Rightarrow> analysis \<Rightarrow> analysis) \<Rightarrow> nat \<Rightarrow> block \<Rightarrow>
    analysis \<Rightarrow> analysis"
  and visit_statement :: "semantic_options \<Rightarrow> nat \<Rightarrow> statement \<Rightarrow> analysis \<Rightarrow> analysis"
where
  "visit_expression opts access d (LiteralExpression sp v) = entered opts sp d (\<lambda>a. a)"
| "visit_expression opts access d (IdentifierExpression sp n) = entered opts sp d (resolve sp n access)"
| "visit_expression opts access d (ListExpression sp es) =
     entered opts sp d (each (map (visit_expression opts Read (d + 1)) es))"
| "visit_expression opts access d (MapExpression sp es) =
     entered opts sp d (each (map (visit_entry opts (d + 1)) es))"
| "visit_expression opts access d (FunctionExpression sp is_async ps b) =
     entered opts sp d (analyze_function sp (map (visit_parameter opts (d + 1)) ps)
       (visit_block opts (\<lambda>visit. visit) (d + 1) b))"
| "visit_expression opts access d (UnaryExpression sp f x) =
     entered opts sp d (visit_expression opts Read (d + 1) x)"
| "visit_expression opts access d (BinaryExpression sp f l r) =
     entered opts sp d (then_do (visit_expression opts Read (d + 1) l) (visit_expression opts Read (d + 1) r))"
| "visit_expression opts access d (AssignmentExpression sp f l r) =
     entered opts sp d (then_do (visit_expression opts (target_access f l) (d + 1) l)
       (visit_expression opts Read (d + 1) r))"
| "visit_expression opts access d (MemberExpression sp x n) =
     entered opts sp d (visit_expression opts Read (d + 1) x)"
| "visit_expression opts access d (IndexExpression sp x i) =
     entered opts sp d (then_do (visit_expression opts Read (d + 1) x) (visit_expression opts Read (d + 1) i))"
| "visit_expression opts access d (SliceExpression sp x s t u) =
     entered opts sp d (then_do (visit_expression opts Read (d + 1) x)
       (then_do (if_present (map_option (visit_expression opts Read (d + 1)) s))
         (then_do (if_present (map_option (visit_expression opts Read (d + 1)) t))
           (if_present (map_option (visit_expression opts Read (d + 1)) u)))))"
| "visit_expression opts access d (CallExpression sp f as) =
     entered opts sp d (then_do (visit_expression opts Read (d + 1) f)
       (each (map (visit_argument opts (d + 1)) as)))"
| "visit_expression opts access d (AwaitExpression sp x) =
     entered opts sp d (then_do (reject_cleanup_control sp ''await'') (visit_expression opts Read (d + 1) x))"
| "visit_entry opts d (MapEntry k v sp) =
     then_do (visit_expression opts Read d k) (visit_expression opts Read d v)"
| "visit_parameter opts d (Parameter n preset sp) =
     declare_around n KindParameter sp (preset = None) True
       (if_present (map_option (visit_expression opts Read d) preset))"
| "visit_argument opts d (CallArgument n x sp) = visit_expression opts Read d x"
| "visit_block opts guard d (Block sp ss) =
     entered opts sp d (guard (each (map (visit_statement opts (d + 1)) ss)))"
| "visit_statement opts d (BlockStatement b) = visit_block opts in_scope d b"
| "visit_statement opts d (LetStatement sp n e) =
     entered opts sp d (declare_around n KindLet sp False False (visit_expression opts Read (d + 1) e))"
| "visit_statement opts d (ExpressionStatement sp e) =
     entered opts sp d (visit_expression opts Read (d + 1) e)"
| "visit_statement opts d (IfStatement sp c t e) =
     entered opts sp d (then_do (visit_expression opts Read (d + 1) c)
       (then_do (visit_statement opts (d + 1) t)
         (if_present (map_option (visit_statement opts (d + 1)) e))))"
| "visit_statement opts d (WhileStatement sp c b) =
     entered opts sp d (then_do (visit_expression opts Read (d + 1) c) (visit_statement opts (d + 1) b))"
| "visit_statement opts d (ForStatement sp n e b) =
     entered opts sp d (then_do (visit_expression opts Read (d + 1) e)
       (in_scope (then_do (declare_only n KindFor sp) (visit_statement opts (d + 1) b))))"
| "visit_statement opts d (FunctionDeclaration sp n is_async ps b) =
     entered opts sp d (then_do (declare_only n KindFunction sp)
       (analyze_function sp (map (visit_parameter opts (d + 1)) ps)
         (visit_block opts (\<lambda>visit. visit) (d + 1) b)))"
| "visit_statement opts d (ReturnStatement sp e) =
     entered opts sp d (then_do (reject_cleanup_control sp ''return'')
       (if_present (map_option (visit_expression opts Read (d + 1)) e)))"
| "visit_statement opts d (BreakStatement sp) = entered opts sp d (reject_cleanup_control sp ''break'')"
| "visit_statement opts d (ContinueStatement sp) = entered opts sp d (reject_cleanup_control sp ''continue'')"
| "visit_statement opts d (ImportStatement sp m n) =
     entered opts sp d (then_do (record_import sp m n) (declare_only n KindImport sp))"
| "visit_statement opts d (ThrowStatement sp e) =
     entered opts sp d (visit_expression opts Read (d + 1) e)"
| "visit_statement opts d (TryCatchStatement sp t n c) =
     entered opts sp d (then_do (visit_block opts in_scope (d + 1) t)
       (in_scope (then_do (declare_only n KindCatch (block_span c)) (visit_block opts in_scope (d + 1) c))))"
| "visit_statement opts d (DeferStatement sp s) =
     entered opts sp d (then_do (reject_cleanup_control sp ''nested defer'')
       (in_cleanup_body (visit_statement opts (d + 1) s)))"

definition run_analysis :: "semantic_options \<Rightarrow> program \<Rightarrow> analysis" where
  "run_analysis opts program = each (map (visit_statement opts 1) (program_statements program)) analysis_start"

record semantic_result =
  sr_diagnostics :: "diagnostic list"
  sr_bindings :: "binding_info list"
  sr_references :: "reference_resolution list"
  sr_functions :: "function_info list"
  sr_imports :: "(source_span \<times> string \<times> string) list"
  sr_visited :: nat

definition analyze_semantics :: "program \<Rightarrow> semantic_options \<Rightarrow> semantic_result" where
  "analyze_semantics program opts = (let a = run_analysis opts program in
     \<lparr>sr_diagnostics = an_diagnostics a, sr_bindings = an_bindings a, sr_references = an_references a,
      sr_functions = an_functions a, sr_imports = an_imports a, sr_visited = an_visited a\<rparr>)"

end
