(* ===== verification/Scoping.thy ===== *)
theory Scoping
  imports Semantic
begin

text \<open>
  The abstract specification of the semantic analyzer: which programs obey the scoping rules of
  the language, stated with nothing but the names in scope and whether they are initialized,
  without binding records, references, captures, diagnostics or limits, and the number of nodes
  and the height of a tree.  A check takes whether it runs inside a cleanup body and the names in
  scope, and returns the names in scope afterwards or rejects.
\<close>

section \<open>Names in scope\<close>

text \<open>The scopes, innermost first; a name that is mapped to \<open>False\<close> is declared but not yet
  initialized.\<close>

type_synonym names = "(string \<rightharpoonup> bool) list"

type_synonym check = "bool \<Rightarrow> names \<Rightarrow> names option"

fun visible :: "names \<Rightarrow> string \<Rightarrow> bool option" where
  "visible [] n = None"
| "visible (s # ss) n = (case s n of Some ready \<Rightarrow> Some ready | None \<Rightarrow> visible ss n)"

definition add_name :: "string \<Rightarrow> bool \<Rightarrow> names \<Rightarrow> names option" where
  "add_name n ready ss = (if hd ss n = None then Some ((hd ss)(n \<mapsto> ready) # tl ss) else None)"

definition mark_ready :: "string \<Rightarrow> names \<Rightarrow> names" where
  "mark_ready n ss = (hd ss)(n \<mapsto> True) # tl ss"

section \<open>Checks\<close>

definition accept :: check where
  "accept cleanup ss = Some ss"

definition then_check :: "check \<Rightarrow> check \<Rightarrow> check" where
  "then_check c c' cleanup ss = (case c cleanup ss of None \<Rightarrow> None | Some ss' \<Rightarrow> c' cleanup ss')"

primrec each_check :: "check list \<Rightarrow> check" where
  "each_check [] = accept"
| "each_check (c # cs) = then_check c (each_check cs)"

primrec check_present :: "check option \<Rightarrow> check" where
  "check_present None = accept"
| "check_present (Some c) = c"

definition name_check :: "string \<Rightarrow> access_mode \<Rightarrow> check" where
  "name_check n access cleanup ss = (case visible ss n of
      None \<Rightarrow> None
    | Some ready \<Rightarrow> if access = Write \<or> ready then Some ss else None)"

definition outside_cleanup :: check where
  "outside_cleanup cleanup ss = (if cleanup then None else Some ss)"

definition scope_check :: "check \<Rightarrow> check" where
  "scope_check c cleanup ss = map_option tl (c cleanup (Map.empty # ss))"

definition function_check :: "check list \<Rightarrow> check \<Rightarrow> check" where
  "function_check parameters body cleanup ss =
     scope_check (then_check (each_check parameters) body) False ss"

definition cleanup_check :: "check \<Rightarrow> check" where
  "cleanup_check c cleanup ss = c True ss"

definition declare_check :: "string \<Rightarrow> check" where
  "declare_check n cleanup ss = add_name n True ss"

definition around_check :: "string \<Rightarrow> bool \<Rightarrow> check \<Rightarrow> check" where
  "around_check n ready c cleanup ss =
     (case add_name n ready ss of None \<Rightarrow> None | Some ss' \<Rightarrow> map_option (mark_ready n) (c cleanup ss'))"

primrec scoped_expression :: "access_mode \<Rightarrow> expression \<Rightarrow> check"
  and scoped_entry :: "map_entry \<Rightarrow> check"
  and scoped_parameter :: "parameter \<Rightarrow> check"
  and scoped_argument :: "call_argument \<Rightarrow> check"
  and scoped_block :: "(check \<Rightarrow> check) \<Rightarrow> block \<Rightarrow> check"
  and scoped_statement :: "statement \<Rightarrow> check"
where
  "scoped_expression access (LiteralExpression sp v) = accept"
| "scoped_expression access (IdentifierExpression sp n) = name_check n access"
| "scoped_expression access (ListExpression sp es) = each_check (map (scoped_expression Read) es)"
| "scoped_expression access (MapExpression sp es) = each_check (map scoped_entry es)"
| "scoped_expression access (FunctionExpression sp is_async ps b) =
     function_check (map scoped_parameter ps) (scoped_block (\<lambda>c. c) b)"
| "scoped_expression access (UnaryExpression sp f x) = scoped_expression Read x"
| "scoped_expression access (BinaryExpression sp f l r) =
     then_check (scoped_expression Read l) (scoped_expression Read r)"
| "scoped_expression access (AssignmentExpression sp f l r) =
     then_check (scoped_expression (target_access f l) l) (scoped_expression Read r)"
| "scoped_expression access (MemberExpression sp x n) = scoped_expression Read x"
| "scoped_expression access (IndexExpression sp x i) =
     then_check (scoped_expression Read x) (scoped_expression Read i)"
| "scoped_expression access (SliceExpression sp x s t u) =
     then_check (scoped_expression Read x)
       (then_check (check_present (map_option (scoped_expression Read) s))
         (then_check (check_present (map_option (scoped_expression Read) t))
           (check_present (map_option (scoped_expression Read) u))))"
| "scoped_expression access (CallExpression sp f as) =
     then_check (scoped_expression Read f) (each_check (map scoped_argument as))"
| "scoped_expression access (AwaitExpression sp x) =
     then_check outside_cleanup (scoped_expression Read x)"
| "scoped_entry (MapEntry k v sp) = then_check (scoped_expression Read k) (scoped_expression Read v)"
| "scoped_parameter (Parameter n preset sp) =
     around_check n (preset = None) (check_present (map_option (scoped_expression Read) preset))"
| "scoped_argument (CallArgument n x sp) = scoped_expression Read x"
| "scoped_block guard (Block sp ss) = guard (each_check (map scoped_statement ss))"
| "scoped_statement (BlockStatement b) = scoped_block scope_check b"
| "scoped_statement (LetStatement sp n e) = around_check n False (scoped_expression Read e)"
| "scoped_statement (ExpressionStatement sp e) = scoped_expression Read e"
| "scoped_statement (IfStatement sp c t e) =
     then_check (scoped_expression Read c)
       (then_check (scoped_statement t) (check_present (map_option scoped_statement e)))"
| "scoped_statement (WhileStatement sp c b) =
     then_check (scoped_expression Read c) (scoped_statement b)"
| "scoped_statement (ForStatement sp n e b) =
     then_check (scoped_expression Read e) (scope_check (then_check (declare_check n) (scoped_statement b)))"
| "scoped_statement (FunctionDeclaration sp n is_async ps b) =
     then_check (declare_check n) (function_check (map scoped_parameter ps) (scoped_block (\<lambda>c. c) b))"
| "scoped_statement (ReturnStatement sp e) =
     then_check outside_cleanup (check_present (map_option (scoped_expression Read) e))"
| "scoped_statement (BreakStatement sp) = outside_cleanup"
| "scoped_statement (ContinueStatement sp) = outside_cleanup"
| "scoped_statement (ImportStatement sp m n) = declare_check n"
| "scoped_statement (ThrowStatement sp e) = scoped_expression Read e"
| "scoped_statement (TryCatchStatement sp t n c) =
     then_check (scoped_block scope_check t)
       (scope_check (then_check (declare_check n) (scoped_block scope_check c)))"
| "scoped_statement (DeferStatement sp s) = then_check outside_cleanup (cleanup_check (scoped_statement s))"

definition well_scoped :: "program \<Rightarrow> bool" where
  "well_scoped program \<longleftrightarrow>
     each_check (map scoped_statement (program_statements program)) False [Map.empty] \<noteq> None"

section \<open>Size of a tree\<close>

text \<open>The number of nodes and the height.\<close>

type_synonym extent = "nat \<times> nat"

definition node_extent :: "extent \<Rightarrow> extent" where
  "node_extent x = (fst x + 1, snd x + 1)"

definition then_extent :: "extent \<Rightarrow> extent \<Rightarrow> extent" where
  "then_extent x y = (fst x + fst y, max (snd x) (snd y))"

primrec each_extent :: "extent list \<Rightarrow> extent" where
  "each_extent [] = (0, 0)"
| "each_extent (x # xs) = then_extent x (each_extent xs)"

primrec extent_present :: "extent option \<Rightarrow> extent" where
  "extent_present None = (0, 0)"
| "extent_present (Some x) = x"

primrec expression_extent :: "expression \<Rightarrow> extent"
  and entry_extent :: "map_entry \<Rightarrow> extent"
  and parameter_extent :: "parameter \<Rightarrow> extent"
  and argument_extent :: "call_argument \<Rightarrow> extent"
  and block_extent :: "block \<Rightarrow> extent"
  and statement_extent :: "statement \<Rightarrow> extent"
where
  "expression_extent (LiteralExpression sp v) = node_extent (0, 0)"
| "expression_extent (IdentifierExpression sp n) = node_extent (0, 0)"
| "expression_extent (ListExpression sp es) = node_extent (each_extent (map expression_extent es))"
| "expression_extent (MapExpression sp es) = node_extent (each_extent (map entry_extent es))"
| "expression_extent (FunctionExpression sp is_async ps b) =
     node_extent (then_extent (each_extent (map parameter_extent ps)) (block_extent b))"
| "expression_extent (UnaryExpression sp f x) = node_extent (expression_extent x)"
| "expression_extent (BinaryExpression sp f l r) =
     node_extent (then_extent (expression_extent l) (expression_extent r))"
| "expression_extent (AssignmentExpression sp f l r) =
     node_extent (then_extent (expression_extent l) (expression_extent r))"
| "expression_extent (MemberExpression sp x n) = node_extent (expression_extent x)"
| "expression_extent (IndexExpression sp x i) =
     node_extent (then_extent (expression_extent x) (expression_extent i))"
| "expression_extent (SliceExpression sp x s t u) =
     node_extent (then_extent (expression_extent x)
       (then_extent (extent_present (map_option expression_extent s))
         (then_extent (extent_present (map_option expression_extent t))
           (extent_present (map_option expression_extent u)))))"
| "expression_extent (CallExpression sp f as) =
     node_extent (then_extent (expression_extent f) (each_extent (map argument_extent as)))"
| "expression_extent (AwaitExpression sp x) = node_extent (then_extent (0, 0) (expression_extent x))"
| "entry_extent (MapEntry k v sp) = then_extent (expression_extent k) (expression_extent v)"
| "parameter_extent (Parameter n preset sp) = extent_present (map_option expression_extent preset)"
| "argument_extent (CallArgument n x sp) = expression_extent x"
| "block_extent (Block sp ss) = node_extent (each_extent (map statement_extent ss))"
| "statement_extent (BlockStatement b) = block_extent b"
| "statement_extent (LetStatement sp n e) = node_extent (expression_extent e)"
| "statement_extent (ExpressionStatement sp e) = node_extent (expression_extent e)"
| "statement_extent (IfStatement sp c t e) =
     node_extent (then_extent (expression_extent c)
       (then_extent (statement_extent t) (extent_present (map_option statement_extent e))))"
| "statement_extent (WhileStatement sp c b) =
     node_extent (then_extent (expression_extent c) (statement_extent b))"
| "statement_extent (ForStatement sp n e b) =
     node_extent (then_extent (expression_extent e) (then_extent (0, 0) (statement_extent b)))"
| "statement_extent (FunctionDeclaration sp n is_async ps b) =
     node_extent (then_extent (0, 0) (then_extent (each_extent (map parameter_extent ps)) (block_extent b)))"
| "statement_extent (ReturnStatement sp e) =
     node_extent (then_extent (0, 0) (extent_present (map_option expression_extent e)))"
| "statement_extent (BreakStatement sp) = node_extent (0, 0)"
| "statement_extent (ContinueStatement sp) = node_extent (0, 0)"
| "statement_extent (ImportStatement sp m n) = node_extent (then_extent (0, 0) (0, 0))"
| "statement_extent (ThrowStatement sp e) = node_extent (expression_extent e)"
| "statement_extent (TryCatchStatement sp t n c) =
     node_extent (then_extent (block_extent t) (then_extent (0, 0) (block_extent c)))"
| "statement_extent (DeferStatement sp s) = node_extent (then_extent (0, 0) (statement_extent s))"

definition program_extent :: "program \<Rightarrow> extent" where
  "program_extent program = each_extent (map statement_extent (program_statements program))"

end
