(* ===== verification/Semantic_Correct.thy ===== *)
theory Semantic_Correct
  imports Scoping
begin

text \<open>
  Correctness of the semantic analyzer: the invariant of its state (\<open>sem_ok\<close>), what every visit
  keeps (\<open>grows\<close>), and the simulation of the abstract checks of the theory Scoping by the visits
  (\<open>conforms\<close>), from which the analyzer reports no error exactly for the programs that are well
  scoped and within its limits.
\<close>

section \<open>The invariant\<close>

abbreviation reports :: "analysis \<Rightarrow> nat" where
  "reports a \<equiv> length (an_diagnostics a)"

definition clean_flags :: "analysis \<Rightarrow> bool" where
  "clean_flags a \<longleftrightarrow> \<not> an_node_reported a \<and> \<not> an_depth_reported a"

text \<open>A scope at distance \<open>k\<close> from the innermost one maps a name to a binding of that name whose
  depth is the position of the scope.\<close>

definition scopes_ok :: "analysis \<Rightarrow> bool" where
  "scopes_ok a \<longleftrightarrow> an_scopes a \<noteq> [] \<and> (\<forall>k n i. k < length (an_scopes a) \<longrightarrow> (an_scopes a ! k) n = Some i \<longrightarrow>
     i < length (an_bindings a) \<and> bi_name (an_bindings a ! i) = n \<and>
     bi_scope_depth (an_bindings a ! i) = length (an_scopes a) - 1 - k)"

definition references_ok :: "analysis \<Rightarrow> bool" where
  "references_ok a \<longleftrightarrow> (\<forall>r\<in>set (an_references a).
     rr_binding r < length (an_bindings a) \<and> bi_name (an_bindings a ! rr_binding r) = rr_name r \<and>
     (rr_captured r \<longrightarrow> bi_captured (an_bindings a ! rr_binding r)))"

definition parents_ok :: "analysis \<Rightarrow> bool" where
  "parents_ok a \<longleftrightarrow>
     (\<forall>f p. f < length (an_functions a) \<longrightarrow> fi_parent (an_functions a ! f) = Some p \<longrightarrow> p < f) \<and>
     (\<forall>f. an_current a = Some f \<longrightarrow> f < length (an_functions a))"

text \<open>A capture is recorded in every function between the reference and the owner.\<close>

definition propagated :: "nat option \<Rightarrow> nat \<Rightarrow> function_info list \<Rightarrow> bool" where
  "propagated owner b fs \<longleftrightarrow> (\<forall>f p. f < length fs \<longrightarrow> b \<in> set (fi_captures (fs ! f)) \<longrightarrow>
     fi_parent (fs ! f) = Some p \<longrightarrow> Some p = owner \<or> b \<in> set (fi_captures (fs ! p)))"

definition captures_ok :: "analysis \<Rightarrow> bool" where
  "captures_ok a \<longleftrightarrow>
     (\<forall>f. f < length (an_functions a) \<longrightarrow> distinct (fi_captures (an_functions a ! f)) \<and>
        set (fi_captures (an_functions a ! f)) \<subseteq> {..<length (an_bindings a)}) \<and>
     (\<forall>b<length (an_bindings a). propagated (bi_owner (an_bindings a ! b)) b (an_functions a))"

definition sem_ok :: "semantic_options \<Rightarrow> analysis \<Rightarrow> bool" where
  "sem_ok opts a \<longleftrightarrow> scopes_ok a \<and> references_ok a \<and> parents_ok a \<and> captures_ok a \<and>
     an_visited a \<le> max_ast_nodes opts"

section \<open>What a visit keeps\<close>

text \<open>Only errors are added to the diagnostics.\<close>

definition errors_after :: "diagnostic list \<Rightarrow> diagnostic list \<Rightarrow> bool" where
  "errors_after ds ds' \<longleftrightarrow> (\<exists>new. ds' = ds @ new \<and> list_all (\<lambda>d. diag_severity d = SevError) new)"

lemma errors_after_simps [simp]:
  "errors_after ds ds"
  "errors_after ds (ds @ [d]) \<longleftrightarrow> diag_severity d = SevError"
  by (auto simp: errors_after_def)

lemma errors_after_trans: "errors_after ds ds1 \<Longrightarrow> errors_after ds1 ds2 \<Longrightarrow> errors_after ds ds2"
  by (auto simp: errors_after_def)

lemma errors_after_length: "errors_after ds ds' \<Longrightarrow> length ds \<le> length ds'"
  by (auto simp: errors_after_def)

definition grows :: "analysis \<Rightarrow> analysis \<Rightarrow> bool" where
  "grows a a' \<longleftrightarrow>
     errors_after (an_diagnostics a) (an_diagnostics a') \<and>
     length (an_scopes a') = length (an_scopes a) \<and> tl (an_scopes a') = tl (an_scopes a) \<and>
     hd (an_scopes a) \<subseteq>\<^sub>m hd (an_scopes a') \<and>
     an_current a' = an_current a \<and> an_cleanup_depth a' = an_cleanup_depth a \<and>
     length (an_bindings a) \<le> length (an_bindings a') \<and>
     (\<forall>i<length (an_bindings a). bi_name (an_bindings a' ! i) = bi_name (an_bindings a ! i) \<and>
        bi_scope_depth (an_bindings a' ! i) = bi_scope_depth (an_bindings a ! i) \<and>
        bi_owner (an_bindings a' ! i) = bi_owner (an_bindings a ! i)) \<and>
     length (an_functions a) \<le> length (an_functions a') \<and>
     (reports a' = reports a \<longrightarrow> clean_flags a \<longrightarrow> clean_flags a')"

lemma grows_refl [simp]: "grows a a"
  by (simp add: grows_def)

lemma grows_reports: "grows a a' \<Longrightarrow> reports a \<le> reports a'"
  by (auto simp: grows_def dest: errors_after_length)

lemma grows_trans: "grows a a' \<Longrightarrow> grows a' a'' \<Longrightarrow> grows a a''"
  using grows_reports [of a a'] grows_reports [of a' a'']
  by (auto simp: grows_def intro: errors_after_trans map_le_trans)

section \<open>The simulation\<close>

definition names_of :: "analysis \<Rightarrow> names" where
  "names_of a = map (\<lambda>s n. map_option (\<lambda>i. bi_initialized (an_bindings a ! i)) (s n)) (an_scopes a)"

definition fits :: "semantic_options \<Rightarrow> nat \<Rightarrow> analysis \<Rightarrow> extent \<Rightarrow> bool" where
  "fits opts d a x \<longleftrightarrow> an_visited a + fst x \<le> max_ast_nodes opts \<and>
     (snd x = 0 \<or> d + snd x \<le> Suc (effective_max_depth opts))"

definition verdict :: "semantic_options \<Rightarrow> nat \<Rightarrow> extent \<Rightarrow> check \<Rightarrow> analysis \<Rightarrow> names option" where
  "verdict opts d x c a = (if fits opts d a x then c (an_cleanup_depth a \<noteq> 0) (names_of a) else None)"

text \<open>
  \<open>conforms opts d x c f\<close>: the visit \<open>f\<close> of a tree of extent \<open>x\<close> at depth \<open>d\<close> keeps the
  invariant, and from a state without a reported limit it reports nothing exactly if the tree fits
  the limits and the check \<open>c\<close> accepts, and then leaves the names in scope that \<open>c\<close> returns.
\<close>

definition conforms :: "semantic_options \<Rightarrow> nat \<Rightarrow> extent \<Rightarrow> check \<Rightarrow> (analysis \<Rightarrow> analysis) \<Rightarrow> bool" where
  "conforms opts d x c f \<longleftrightarrow> (\<forall>a. sem_ok opts a \<longrightarrow>
     sem_ok opts (f a) \<and> grows a (f a) \<and>
     (clean_flags a \<longrightarrow> (case verdict opts d x c a of
         None \<Rightarrow> reports a < reports (f a)
       | Some ss \<Rightarrow> reports (f a) = reports a \<and> names_of (f a) = ss \<and>
           an_visited (f a) = an_visited a + fst x)))"

lemma conformsI:
  assumes "\<And>a. sem_ok opts a \<Longrightarrow> sem_ok opts (f a)"
    "\<And>a. sem_ok opts a \<Longrightarrow> grows a (f a)"
    "\<And>a. sem_ok opts a \<Longrightarrow> clean_flags a \<Longrightarrow> verdict opts d x c a = None \<Longrightarrow> reports a < reports (f a)"
    "\<And>a ss. sem_ok opts a \<Longrightarrow> clean_flags a \<Longrightarrow> verdict opts d x c a = Some ss \<Longrightarrow>
       reports (f a) = reports a \<and> names_of (f a) = ss \<and> an_visited (f a) = an_visited a + fst x"
  shows "conforms opts d x c f"
  unfolding conforms_def using assms by (auto split: option.split)

lemma conformsD:
  assumes "conforms opts d x c f" "sem_ok opts a"
  shows "sem_ok opts (f a)" "grows a (f a)"
    "clean_flags a \<Longrightarrow> verdict opts d x c a = None \<Longrightarrow> reports a < reports (f a)"
    "clean_flags a \<Longrightarrow> verdict opts d x c a = Some ss \<Longrightarrow>
       reports (f a) = reports a \<and> names_of (f a) = ss \<and> an_visited (f a) = an_visited a + fst x \<and>
       clean_flags (f a)"
  using assms by (auto simp: conforms_def grows_def split: option.splits)

lemma conforms_nothing: "conforms opts d (0, 0) accept (\<lambda>a. a)"
  by (rule conformsI) (auto simp: verdict_def accept_def fits_def sem_ok_def)

lemma fits_then:
  "an_visited b = an_visited a + fst x \<Longrightarrow>
   fits opts d a (then_extent x y) \<longleftrightarrow> fits opts d a x \<and> fits opts d b y"
  by (auto simp: fits_def then_extent_def)

lemma fits_then_first: "fits opts d a (then_extent x y) \<Longrightarrow> fits opts d a x"
  by (auto simp: fits_def then_extent_def)

lemma conforms_then:
  assumes "conforms opts d x c f" "conforms opts d y c' g"
  shows "conforms opts d (then_extent x y) (then_check c c') (then_do f g)"
proof (rule conformsI)
  fix a assume a: "sem_ok opts a"
  note f = conformsD [OF assms(1) a]
  note g = conformsD [OF assms(2) f(1)]
  have cleanup: "an_cleanup_depth (f a) = an_cleanup_depth a" using f(2) by (simp add: grows_def)
  show "sem_ok opts (then_do f g a)" "grows a (then_do f g a)"
    using g(1) grows_trans [OF f(2) g(2)] by (simp_all add: then_do_def)
  have mono: "reports a \<le> reports (f a)" "reports (f a) \<le> reports (g (f a))"
    using f(2) g(2) by (auto dest: grows_reports)
  assume clean: "clean_flags a"
  {
    assume none: "verdict opts d (then_extent x y) (then_check c c') a = None"
    show "reports a < reports (then_do f g a)"
    proof (cases "verdict opts d x c a")
      case None
      then show ?thesis using f(3) [OF clean] mono by (simp add: then_do_def)
    next
      case (Some ss)
      note f' = f(4) [OF clean Some]
      have "verdict opts d y c' (f a) = None"
        using none Some f' cleanup fits_then [of "f a" a x opts d y]
        by (auto simp: verdict_def then_check_def split: if_splits)
      then show ?thesis using g(3) f' by (simp add: then_do_def)
    qed
  next
    fix ss assume some: "verdict opts d (then_extent x y) (then_check c c') a = Some ss"
    then obtain ss1 where 1: "verdict opts d x c a = Some ss1" and c': "c' (an_cleanup_depth a \<noteq> 0) ss1 = Some ss"
      by (auto simp: verdict_def then_check_def fits_then_first split: if_splits option.splits)
    note f' = f(4) [OF clean 1]
    have 2: "verdict opts d y c' (f a) = Some ss"
      using some c' f' cleanup fits_then [of "f a" a x opts d y]
      by (auto simp: verdict_def split: if_splits)
    show "reports (then_do f g a) = reports a \<and> names_of (then_do f g a) = ss \<and>
        an_visited (then_do f g a) = an_visited a + fst (then_extent x y)"
      using g(4) [OF _ 2] f' by (simp add: then_do_def then_extent_def)
  }
qed

lemma conforms_each_map:
  "(\<And>t. t \<in> set ts \<Longrightarrow> conforms opts d (x t) (c t) (f t)) \<Longrightarrow>
   conforms opts d (each_extent (map x ts)) (each_check (map c ts)) (each (map f ts))"
proof (induction ts)
  case Nil
  then show ?case using conforms_nothing [of opts d] by (simp add: fun_eq_iff)
next
  case (Cons t ts)
  have "each (map f (t # ts)) = then_do (f t) (each (map f ts))"
    by (simp add: fun_eq_iff then_do_def)
  with Cons show ?case by (simp add: conforms_then)
qed

lemma if_present_fun: "if_present None = (\<lambda>a. a)" "if_present (Some f) = f"
  by (simp_all add: fun_eq_iff)

lemma conforms_present:
  "(\<And>t. t \<in> set_option m \<Longrightarrow> conforms opts d (x t) (c t) (f t)) \<Longrightarrow>
   conforms opts d (extent_present (map_option x m)) (check_present (map_option c m))
     (if_present (map_option f m))"
  by (cases m) (simp_all add: if_present_fun conforms_nothing)

section \<open>The elementary operations\<close>

text \<open>Changes of the state that touch neither bindings nor functions nor scopes.\<close>

definition same_tables :: "analysis \<Rightarrow> analysis \<Rightarrow> bool" where
  "same_tables a a' \<longleftrightarrow> an_bindings a' = an_bindings a \<and> an_functions a' = an_functions a \<and>
     an_scopes a' = an_scopes a \<and> an_references a' = an_references a \<and> an_current a' = an_current a \<and>
     an_cleanup_depth a' = an_cleanup_depth a"

lemma same_tables_ok:
  "same_tables a a' \<Longrightarrow> an_visited a' \<le> max_ast_nodes opts \<Longrightarrow> sem_ok opts a \<Longrightarrow> sem_ok opts a'"
  by (simp add: same_tables_def sem_ok_def scopes_ok_def references_ok_def parents_ok_def captures_ok_def)

lemma same_tables_grows:
  "same_tables a a' \<Longrightarrow> errors_after (an_diagnostics a) (an_diagnostics a') \<Longrightarrow>
   (reports a' = reports a \<Longrightarrow> clean_flags a \<Longrightarrow> clean_flags a') \<Longrightarrow> grows a a'"
  by (simp add: same_tables_def grows_def)

lemma same_tables_names: "same_tables a a' \<Longrightarrow> names_of a' = names_of a"
  by (simp add: same_tables_def names_of_def)

lemma diagnose_same [simp]: "same_tables a (diagnose code message sp a)"
  by (simp add: same_tables_def diagnose_def)

lemma diagnose_simps [simp]:
  "an_diagnostics (diagnose code message sp a) = an_diagnostics a @
     [\<lparr>diag_severity = SevError, diag_code = code, diag_message = message, diag_span = sp\<rparr>]"
  "an_visited (diagnose code message sp a) = an_visited a"
  "clean_flags (diagnose code message sp a) = clean_flags a"
  by (simp_all add: diagnose_def clean_flags_def)

lemma sem_ok_visited: "sem_ok opts a \<Longrightarrow> an_visited a \<le> max_ast_nodes opts"
  by (simp add: sem_ok_def)

lemma diagnose_ok: "sem_ok opts a \<Longrightarrow> sem_ok opts (diagnose code message sp a)"
  by (rule same_tables_ok [OF diagnose_same]) (simp_all add: sem_ok_visited)

lemma diagnose_grows: "grows a (diagnose code message sp a)"
  by (rule same_tables_grows [OF diagnose_same]) simp_all

lemma enter_cases:
  obtains (limit) a' where "enter opts sp d a = (False, a')" "same_tables a a'"
      "errors_after (an_diagnostics a) (an_diagnostics a')" "an_visited a' \<le> max (an_visited a) (max_ast_nodes opts)"
      "reports a' = reports a \<Longrightarrow> \<not> clean_flags a"
      "max_ast_nodes opts \<le> an_visited a \<or> effective_max_depth opts < d"
  | (ok) a' where "enter opts sp d a = (True, a')" "same_tables a a'" "an_diagnostics a' = an_diagnostics a"
      "an_visited a' = Suc (an_visited a)" "an_visited a < max_ast_nodes opts" "d \<le> effective_max_depth opts"
      "clean_flags a' = clean_flags a"
proof (cases "fst (enter opts sp d a)")
  case True
  then show ?thesis
    by (intro ok [of "snd (enter opts sp d a)"])
      (auto simp: enter_def Let_def same_tables_def clean_flags_def split: if_splits)
next
  case False
  then show ?thesis
    by (intro limit [of "snd (enter opts sp d a)"])
      (auto simp: enter_def Let_def same_tables_def clean_flags_def diagnose_def split: if_splits)
qed

lemma conforms_entered:
  assumes "conforms opts (d + 1) x c f"
  shows "conforms opts d (node_extent x) c (entered opts sp d f)"
proof (rule conformsI)
  fix a assume a: "sem_ok opts a"
  let ?r = "entered opts sp d f a"
  have both: "sem_ok opts ?r \<and> grows a ?r \<and> (clean_flags a \<longrightarrow> (case verdict opts d (node_extent x) c a of
      None \<Rightarrow> reports a < reports ?r
    | Some ss \<Rightarrow> reports ?r = reports a \<and> names_of ?r = ss \<and> an_visited ?r = an_visited a + fst (node_extent x)))"
  proof (cases rule: enter_cases [of opts sp d a])
    case (limit a')
    then have "?r = a'" by (simp add: entered_def)
    moreover have "sem_ok opts a'"
      using limit a sem_ok_visited [OF a] by (intro same_tables_ok [OF limit(2)]) auto
    moreover have g: "grows a a'"
      using limit by (intro same_tables_grows) auto
    moreover have "verdict opts d (node_extent x) c a = None"
      using limit(6) by (auto simp: verdict_def fits_def node_extent_def)
    moreover have "clean_flags a \<Longrightarrow> reports a < reports a'"
      using limit(5) grows_reports [OF g] by fastforce
    ultimately show ?thesis by simp
  next
    case (ok a')
    then have r: "?r = f a'" by (simp add: entered_def)
    have a': "sem_ok opts a'" using ok a by (intro same_tables_ok [OF ok(2)]) auto
    note f = conformsD [OF assms a']
    have grows: "grows a a'" using ok by (intro same_tables_grows) auto
    have v: "verdict opts d (node_extent x) c a = verdict opts (d + 1) x c a'"
      using ok same_tables_names [OF ok(2)] ok(2)
      by (auto simp: verdict_def fits_def node_extent_def same_tables_def)
    show ?thesis
    proof (cases "verdict opts (d + 1) x c a'")
      case None
      then show ?thesis using f(1,2,3) ok(3,7) v r grows_trans [OF grows f(2)] by simp
    next
      case (Some ss)
      then show ?thesis
        using f(1,2) f(4) [of ss] ok(3,4,7) v r grows_trans [OF grows f(2)] by (simp add: node_extent_def)
    qed
  qed
  then show "sem_ok opts ?r" "grows a ?r" by auto
  {
    assume "clean_flags a" "verdict opts d (node_extent x) c a = None"
    with both show "reports a < reports ?r" by simp
  next
    fix ss assume "clean_flags a" "verdict opts d (node_extent x) c a = Some ss"
    with both show "reports ?r = reports a \<and> names_of ?r = ss \<and> an_visited ?r = an_visited a + fst (node_extent x)"
      by simp
  }
qed

lemma fits_nothing: "sem_ok opts a \<Longrightarrow> fits opts d a (0, 0)"
  by (simp add: fits_def sem_ok_def)

lemma conforms_reject: "conforms opts d (0, 0) outside_cleanup (reject_cleanup_control sp operation)"
  by (rule conformsI)
    (auto simp: reject_cleanup_control_def verdict_def fits_nothing outside_cleanup_def diagnose_ok diagnose_grows
      split: if_splits)

subsection \<open>Scopes and functions\<close>

lemma push_scope_ok: "sem_ok opts a \<Longrightarrow> sem_ok opts (push_scope a)"
proof -
  assume a: "sem_ok opts a"
  have "scopes_ok (push_scope a)"
    unfolding scopes_ok_def
  proof (intro conjI allI impI)
    fix k n i
    assume "k < length (an_scopes (push_scope a))" "(an_scopes (push_scope a) ! k) n = Some i"
    with a show "i < length (an_bindings (push_scope a))" "bi_name (an_bindings (push_scope a) ! i) = n"
      "bi_scope_depth (an_bindings (push_scope a) ! i) = length (an_scopes (push_scope a)) - 1 - k"
      by (cases k; auto simp: sem_ok_def scopes_ok_def push_scope_def)+
  qed (simp add: push_scope_def)
  with a show ?thesis
    by (simp add: sem_ok_def references_ok_def parents_ok_def captures_ok_def push_scope_def)
qed

lemma pop_scope_ok: "sem_ok opts a \<Longrightarrow> tl (an_scopes a) \<noteq> [] \<Longrightarrow> sem_ok opts (pop_scope a)"
proof -
  assume a: "sem_ok opts a" "tl (an_scopes a) \<noteq> []"
  have "scopes_ok (pop_scope a)"
    unfolding scopes_ok_def
  proof (intro conjI allI impI)
    fix k n i
    assume k: "k < length (an_scopes (pop_scope a))" "(an_scopes (pop_scope a) ! k) n = Some i"
    then have "Suc k < length (an_scopes a)" "(an_scopes a ! Suc k) n = Some i"
      by (simp_all add: pop_scope_def nth_tl)
    with a(1) show "i < length (an_bindings (pop_scope a))" "bi_name (an_bindings (pop_scope a) ! i) = n"
      "bi_scope_depth (an_bindings (pop_scope a) ! i) = length (an_scopes (pop_scope a)) - 1 - k"
      by (auto simp: sem_ok_def scopes_ok_def pop_scope_def)
  qed (use a(2) in \<open>simp add: pop_scope_def\<close>)
  with a show ?thesis
    by (simp add: sem_ok_def references_ok_def parents_ok_def captures_ok_def pop_scope_def)
qed

lemma scopes_nonempty: "sem_ok opts a \<Longrightarrow> an_scopes a \<noteq> []"
  by (simp add: sem_ok_def scopes_ok_def)

lemma push_then_pop:
  assumes "sem_ok opts a" "sem_ok opts b" "grows (push_scope a) b"
  shows "sem_ok opts (pop_scope b)" "an_scopes (pop_scope b) = an_scopes a" "grows a (pop_scope b)"
proof -
  show scopes: "an_scopes (pop_scope b) = an_scopes a"
    using assms(3) by (simp add: grows_def push_scope_def pop_scope_def)
  then show "sem_ok opts (pop_scope b)"
    using scopes_nonempty [OF assms(1)] by (intro pop_scope_ok assms) (simp add: pop_scope_def)
  show "grows a (pop_scope b)"
    using assms(3) scopes by (simp add: grows_def push_scope_def pop_scope_def clean_flags_def)
qed

lemma names_push_pop [simp]:
  "names_of (push_scope a) = Map.empty # names_of a"
  "names_of (pop_scope a) = tl (names_of a)"
  by (simp_all add: names_of_def push_scope_def pop_scope_def map_tl)

lemma pop_push_simps [simp]:
  "an_diagnostics (push_scope a) = an_diagnostics a" "an_diagnostics (pop_scope a) = an_diagnostics a"
  "an_visited (push_scope a) = an_visited a" "an_visited (pop_scope a) = an_visited a"
  "clean_flags (push_scope a) = clean_flags a" "clean_flags (pop_scope a) = clean_flags a"
  "an_cleanup_depth (push_scope a) = an_cleanup_depth a"
  by (simp_all add: push_scope_def pop_scope_def clean_flags_def)

lemma conforms_in_scope:
  assumes "conforms opts d x c f"
  shows "conforms opts d x (scope_check c) (in_scope f)"
proof (rule conformsI)
  fix a assume a: "sem_ok opts a"
  note f = conformsD [OF assms push_scope_ok [OF a]]
  note pop = push_then_pop [OF a f(1,2)]
  show "sem_ok opts (in_scope f a)" "grows a (in_scope f a)" using pop by (simp_all add: in_scope_def)
  assume clean: "clean_flags a"
  have v: "verdict opts d x (scope_check c) a = map_option tl (verdict opts d x c (push_scope a))"
    by (auto simp: verdict_def scope_check_def fits_def)
  {
    assume "verdict opts d x (scope_check c) a = None"
    then show "reports a < reports (in_scope f a)" using f(3) clean by (simp add: v in_scope_def)
  next
    fix ss assume "verdict opts d x (scope_check c) a = Some ss"
    then obtain ss1 where "verdict opts d x c (push_scope a) = Some ss1" "ss = tl ss1" by (auto simp: v)
    then show "reports (in_scope f a) = reports a \<and> names_of (in_scope f a) = ss \<and>
        an_visited (in_scope f a) = an_visited a + fst x"
      using f(4) clean by (simp add: in_scope_def)
  }
qed

lemma conforms_cleanup_body:
  assumes "conforms opts d x c f"
  shows "conforms opts d x (cleanup_check c) (in_cleanup_body f)"
proof -
  let ?up = "\<lambda>a. a\<lparr>an_cleanup_depth := Suc (an_cleanup_depth a)\<rparr>"
    and ?down = "\<lambda>a. a\<lparr>an_cleanup_depth := an_cleanup_depth a - Suc 0\<rparr>"
  have r: "in_cleanup_body f a = ?down (f (?up a))" for a
    by (simp add: in_cleanup_body_def Let_def)
  have ok: "sem_ok opts (?up a) = sem_ok opts a" "sem_ok opts (?down a) = sem_ok opts a"
    "clean_flags (?up a) = clean_flags a" "names_of (?up a) = names_of a" "names_of (?down a) = names_of a" for a
    by (simp_all add: sem_ok_def scopes_ok_def references_ok_def parents_ok_def captures_ok_def
        clean_flags_def names_of_def)
  have grows: "grows a (?down b)" if "grows (?up a) b" for a b
    using that by (simp add: grows_def clean_flags_def)
  have v: "verdict opts d x (cleanup_check c) a = verdict opts d x c (?up a)" for a
    by (auto simp: verdict_def cleanup_check_def fits_def ok)
  show ?thesis
  proof (rule conformsI)
    fix a assume a: "sem_ok opts a"
    then have up: "sem_ok opts (?up a)" by (simp add: ok)
    note f = conformsD [OF assms up]
    show "sem_ok opts (in_cleanup_body f a)" "grows a (in_cleanup_body f a)"
      using f(1,2) by (simp_all add: r ok grows)
    assume "clean_flags a"
    {
      assume "verdict opts d x (cleanup_check c) a = None"
      with \<open>clean_flags a\<close> show "reports a < reports (in_cleanup_body f a)" using f(3) by (simp add: r v ok)
    next
      fix ss assume "verdict opts d x (cleanup_check c) a = Some ss"
      with \<open>clean_flags a\<close> show "reports (in_cleanup_body f a) = reports a \<and> names_of (in_cleanup_body f a) = ss \<and>
          an_visited (in_cleanup_body f a) = an_visited a + fst x"
        using f(4) by (simp add: r v ok)
    }
  qed
qed

lemma enter_function_ok:
  assumes "sem_ok opts a"
  shows "sem_ok opts (a\<lparr>an_functions := an_functions a @
      [\<lparr>fi_id = length (an_functions a), fi_span = sp, fi_parent = an_current a, fi_captures = []\<rparr>],
      an_current := Some (length (an_functions a)), an_cleanup_depth := 0\<rparr>)" (is "sem_ok opts ?b")
proof -
  have "parents_ok ?b"
    using assms by (auto simp: sem_ok_def parents_ok_def nth_append less_Suc_eq)
  moreover have "captures_ok ?b"
    using assms by (fastforce simp: sem_ok_def parents_ok_def captures_ok_def propagated_def nth_append less_Suc_eq)
  ultimately show ?thesis
    using assms by (simp add: sem_ok_def scopes_ok_def references_ok_def)
qed

lemma conforms_function_guard:
  assumes "conforms opts d x c f"
  shows "conforms opts d x (\<lambda>cleanup. scope_check c False) (function_guard sp f)"
proof -
  define up :: "analysis \<Rightarrow> analysis" where "up a = a\<lparr>an_functions := an_functions a @
      [\<lparr>fi_id = length (an_functions a), fi_span = sp, fi_parent = an_current a, fi_captures = []\<rparr>],
      an_current := Some (length (an_functions a)), an_cleanup_depth := 0\<rparr>" for a
  define down where "down a b = b\<lparr>an_current := an_current a, an_cleanup_depth := an_cleanup_depth a\<rparr>"
    for a b :: analysis
  have r: "function_guard sp f a = down a (pop_scope (f (push_scope (up a))))" for a
    by (simp add: function_guard_def Let_def up_def down_def)
  have up: "an_diagnostics (up a) = an_diagnostics a" "names_of (up a) = names_of a" "clean_flags (up a) = clean_flags a"
    "an_visited (up a) = an_visited a" "an_cleanup_depth (up a) = 0" "an_scopes (up a) = an_scopes a" for a
    by (simp_all add: up_def names_of_def clean_flags_def)
  have down: "an_diagnostics (down a b) = an_diagnostics b" "names_of (down a b) = names_of b"
    "an_visited (down a b) = an_visited b" for a b
    by (simp_all add: down_def names_of_def)
  have ok: "sem_ok opts (down a b) \<and> grows a (down a b)" if "sem_ok opts a" "sem_ok opts b" "grows (up a) b" for a b
  proof -
    have "length (an_functions a) \<le> length (an_functions b)" using that(3) by (simp add: grows_def up_def)
    with that(1,2) have "parents_ok (down a b)"
      by (auto simp: sem_ok_def parents_ok_def down_def)
    then show ?thesis
      using that(2,3)
      by (simp add: sem_ok_def scopes_ok_def references_ok_def captures_ok_def down_def up_def grows_def clean_flags_def)
  qed
  have v: "verdict opts d x (\<lambda>cleanup. scope_check c False) a = map_option tl (verdict opts d x c (push_scope (up a)))" for a
    by (auto simp: verdict_def scope_check_def fits_def up)
  show ?thesis
  proof (rule conformsI)
    fix a assume a: "sem_ok opts a"
    then have a': "sem_ok opts (up a)" unfolding up_def by (rule enter_function_ok)
    note f = conformsD [OF assms push_scope_ok [OF a']]
    note pop = push_then_pop [OF a' f(1,2)]
    show "sem_ok opts (function_guard sp f a)" "grows a (function_guard sp f a)"
      using ok [OF a pop(1,3)] by (simp_all add: r)
    assume clean: "clean_flags a"
    {
      assume "verdict opts d x (\<lambda>cleanup. scope_check c False) a = None"
      with clean show "reports a < reports (function_guard sp f a)" using f(3) by (simp add: r v up down)
    next
      fix ss assume "verdict opts d x (\<lambda>cleanup. scope_check c False) a = Some ss"
      then obtain ss1 where "verdict opts d x c (push_scope (up a)) = Some ss1" "ss = tl ss1" by (auto simp: v)
      with clean show "reports (function_guard sp f a) = reports a \<and> names_of (function_guard sp f a) = ss \<and>
          an_visited (function_guard sp f a) = an_visited a + fst x"
        using f(4) by (simp add: r up down)
    }
  qed
qed

subsection \<open>Declarations\<close>

definition with_binding :: "binding_info \<Rightarrow> analysis \<Rightarrow> analysis" where
  "with_binding b a = a\<lparr>an_scopes := (hd (an_scopes a))(bi_name b \<mapsto> length (an_bindings a)) # tl (an_scopes a),
     an_bindings := an_bindings a @ [b]\<rparr>"

lemma with_binding_ok:
  assumes a: "sem_ok opts a" and b: "bi_scope_depth b = length (an_scopes a) - 1"
  shows "sem_ok opts (with_binding b a)"
proof -
  let ?a' = "with_binding b a"
  obtain s ss where s: "an_scopes a = s # ss" using scopes_nonempty [OF a] by (cases "an_scopes a") auto
  have "scopes_ok ?a'"
    unfolding scopes_ok_def
  proof (intro conjI allI impI)
    fix k m i
    assume k: "k < length (an_scopes ?a')" "(an_scopes ?a' ! k) m = Some i"
    have "i < length (an_bindings ?a') \<and> bi_name (an_bindings ?a' ! i) = m \<and>
      bi_scope_depth (an_bindings ?a' ! i) = length (an_scopes ?a') - 1 - k"
    proof (cases "k = 0 \<and> m = bi_name b")
      case True
      then have "i = length (an_bindings a)" using k by (simp add: with_binding_def s)
      then show ?thesis using True b s by (simp add: with_binding_def)
    next
      case False
      then have "k < length (an_scopes a)" "(an_scopes a ! k) m = Some i"
        using k by (auto simp: with_binding_def s nth_Cons split: nat.splits if_splits)
      then have "i < length (an_bindings a)" "bi_name (an_bindings a ! i) = m"
        "bi_scope_depth (an_bindings a ! i) = length (an_scopes a) - 1 - k"
        using a unfolding sem_ok_def scopes_ok_def by blast+
      then show ?thesis by (simp add: with_binding_def nth_append s)
    qed
    then show "i < length (an_bindings ?a')" "bi_name (an_bindings ?a' ! i) = m"
      "bi_scope_depth (an_bindings ?a' ! i) = length (an_scopes ?a') - 1 - k" by auto
  qed (simp add: with_binding_def)
  moreover have "references_ok ?a'"
    using a by (auto simp: sem_ok_def references_ok_def with_binding_def nth_append)
  moreover have "captures_ok ?a'"
  proof -
    have "propagated owner (length (an_bindings a)) (an_functions a)" for owner
      using a unfolding sem_ok_def captures_ok_def propagated_def by (metis lessThan_iff less_irrefl subsetD)
    moreover have "x < Suc (length (an_bindings a))"
      if "f < length (an_functions a)" "x \<in> set (fi_captures (an_functions a ! f))" for f x
      using a that unfolding sem_ok_def captures_ok_def by (metis lessThan_iff less_SucI subsetD)
    ultimately show ?thesis
      using a by (auto simp: sem_ok_def captures_ok_def with_binding_def nth_append less_Suc_eq)
  qed
  ultimately show ?thesis using a by (simp add: sem_ok_def parents_ok_def with_binding_def)
qed

lemma with_binding_grows:
  assumes "sem_ok opts a" "hd (an_scopes a) (bi_name b) = None"
  shows "grows a (with_binding b a)"
  using assms scopes_nonempty [OF assms(1)]
  by (cases "an_scopes a") (auto simp: grows_def with_binding_def nth_append clean_flags_def map_le_def dom_def)

lemma with_binding_names:
  assumes "sem_ok opts a"
  shows "names_of (with_binding b a) = (hd (names_of a))(bi_name b \<mapsto> bi_initialized b) # tl (names_of a)"
proof -
  obtain s ss where s: "an_scopes a = s # ss" using scopes_nonempty [OF assms] by (cases "an_scopes a") auto
  have old: "i < length (an_bindings a)" if "t \<in> set (s # ss)" "t m = Some i" for t m i
  proof -
    from that(1) obtain k where "k < length (an_scopes a)" "an_scopes a ! k = t"
      by (metis in_set_conv_nth s)
    with that(2) assms show ?thesis unfolding sem_ok_def scopes_ok_def by blast
  qed
  have "map_option (\<lambda>i. bi_initialized ((an_bindings a @ [b]) ! i)) (t m)
      = map_option (\<lambda>i. bi_initialized (an_bindings a ! i)) (t m)" if "t \<in> set (s # ss)" for t m
    using old [OF that] by (cases "t m") (auto simp: nth_append)
  then show ?thesis
    by (auto simp: names_of_def with_binding_def s fun_eq_iff intro!: map_cong)
qed

lemma declare_name_cases:
  assumes "sem_ok opts a"
  obtains (duplicate) a' where "declare_name n kind sp ready parameter a = (None, a')"
      "sem_ok opts a'" "grows a a'" "reports a < reports a'" "add_name n ready (names_of a) = None"
  | (fresh) i a' where "declare_name n kind sp ready parameter a = (Some i, a')"
      "sem_ok opts a'" "grows a a'" "an_diagnostics a' = an_diagnostics a" "an_visited a' = an_visited a"
      "clean_flags a' = clean_flags a" "add_name n ready (names_of a) = Some (names_of a')"
      "i < length (an_bindings a')" "hd (an_scopes a') n = Some i" "an_cleanup_depth a' = an_cleanup_depth a"
proof (cases "hd (an_scopes a) n")
  case None
  let ?b = "\<lparr>bi_id = length (an_bindings a), bi_name = n, bi_kind = kind, bi_span = sp,
      bi_scope_depth = length (an_scopes a) - 1, bi_owner = an_current a, bi_initialized = ready,
      bi_captured = False\<rparr>"
  have hd: "hd (names_of a) n = None"
    using None scopes_nonempty [OF assms] by (simp add: names_of_def list.map_sel)
  have "declare_name n kind sp ready parameter a = (Some (length (an_bindings a)), with_binding ?b a)"
    using None by (simp add: declare_name_def Let_def with_binding_def)
  moreover have "sem_ok opts (with_binding ?b a)" by (rule with_binding_ok [OF assms]) simp
  moreover have "grows a (with_binding ?b a)" by (rule with_binding_grows [OF assms]) (simp add: None)
  ultimately show ?thesis
    using with_binding_names [OF assms, of ?b] hd
    by (intro fresh [of "length (an_bindings a)" "with_binding ?b a"])
      (simp_all add: add_name_def, simp_all add: with_binding_def clean_flags_def)
next
  case (Some i)
  have "hd (names_of a) n \<noteq> None"
    using Some scopes_nonempty [OF assms] by (simp add: names_of_def list.map_sel)
  then show ?thesis
    using Some
    by (intro duplicate [of "snd (declare_name n kind sp ready parameter a)"])
      (auto simp: declare_name_def add_name_def diagnose_ok assms diagnose_grows)
qed

lemma conforms_declare_only: "conforms opts d (0, 0) (declare_check n) (declare_only n kind sp)"
proof (rule conformsI)
  fix a assume a: "sem_ok opts a"
  show "sem_ok opts (declare_only n kind sp a)" "grows a (declare_only n kind sp a)"
    by (cases rule: declare_name_cases [OF a, of n kind sp True False]; simp add: declare_only_def)+
  {
    assume "verdict opts d (0, 0) (declare_check n) a = None"
    with fits_nothing [OF a] show "reports a < reports (declare_only n kind sp a)"
      by (cases rule: declare_name_cases [OF a, of n kind sp True False])
        (simp_all add: declare_only_def verdict_def declare_check_def)
  next
    fix ss assume "verdict opts d (0, 0) (declare_check n) a = Some ss"
    with fits_nothing [OF a] show "reports (declare_only n kind sp a) = reports a \<and>
        names_of (declare_only n kind sp a) = ss \<and> an_visited (declare_only n kind sp a) = an_visited a + fst (0::nat, 0::nat)"
      by (cases rule: declare_name_cases [OF a, of n kind sp True False])
        (simp_all add: declare_only_def verdict_def declare_check_def)
  }
qed

lemma initialize_ok:
  assumes a: "sem_ok opts a" and i: "i < length (an_bindings a)" and hd: "hd (an_scopes a) n = Some i"
  shows "sem_ok opts (initialize (Some i) a)" "grows a (initialize (Some i) a)"
    "names_of (initialize (Some i) a) = mark_ready n (names_of a)"
proof -
  let ?a' = "initialize (Some i) a"
  have same: "bi_name (an_bindings ?a' ! j) = bi_name (an_bindings a ! j)"
    "bi_scope_depth (an_bindings ?a' ! j) = bi_scope_depth (an_bindings a ! j)"
    "bi_owner (an_bindings ?a' ! j) = bi_owner (an_bindings a ! j)"
    "bi_captured (an_bindings ?a' ! j) = bi_captured (an_bindings a ! j)" for j
    using i by (cases "j = i"; simp add: initialize_def)+
  have fixed: "length (an_bindings ?a') = length (an_bindings a)" "an_scopes ?a' = an_scopes a"
    "an_references ?a' = an_references a" "an_functions ?a' = an_functions a" "an_current ?a' = an_current a"
    "an_visited ?a' = an_visited a" "an_diagnostics ?a' = an_diagnostics a" "clean_flags ?a' = clean_flags a"
    "an_cleanup_depth ?a' = an_cleanup_depth a"
    by (simp_all add: initialize_def clean_flags_def)
  show "sem_ok opts ?a'"
    using a by (simp add: sem_ok_def scopes_ok_def references_ok_def parents_ok_def captures_ok_def fixed same)
  show "grows a ?a'" by (simp add: grows_def fixed same)
  obtain s ss where s: "an_scopes a = s # ss" using scopes_nonempty [OF a] by (cases "an_scopes a") auto
  have depth: "k = 0 \<and> m = n" if "k < length (an_scopes a)" "(an_scopes a ! k) m = Some i" for k m
  proof -
    have "bi_name (an_bindings a ! i) = m" "bi_scope_depth (an_bindings a ! i) = length (an_scopes a) - 1 - k"
      using a that unfolding sem_ok_def scopes_ok_def by blast+
    moreover have "bi_name (an_bindings a ! i) = n" "bi_scope_depth (an_bindings a ! i) = length (an_scopes a) - 1"
      using a hd s unfolding sem_ok_def scopes_ok_def by fastforce+
    ultimately show ?thesis using that(1) by simp
  qed
  have ready: "bi_initialized (an_bindings ?a' ! j) = (j = i \<or> bi_initialized (an_bindings a ! j))" for j
    using i by (cases "j = i") (simp_all add: initialize_def)
  have inner: "map_option (\<lambda>j. bi_initialized (an_bindings ?a' ! j)) (t m)
      = map_option (\<lambda>j. bi_initialized (an_bindings a ! j)) (t m)" if "t \<in> set ss" for t m
  proof -
    from that obtain k where "k < length ss" "ss ! k = t" by (auto simp: in_set_conv_nth)
    then have "t m \<noteq> Some i" using depth [of "Suc k" m] s by auto
    then show ?thesis by (cases "t m") (auto simp: ready)
  qed
  have outer: "map_option (\<lambda>j. bi_initialized (an_bindings ?a' ! j)) (s m)
      = (if m = n then Some True else map_option (\<lambda>j. bi_initialized (an_bindings a ! j)) (s m))" for m
    using depth [of 0 m] hd s by (cases "s m") (auto simp: ready)
  show "names_of ?a' = mark_ready n (names_of a)"
    using inner outer by (auto simp: names_of_def mark_ready_def fixed s fun_eq_iff)
qed

lemma conforms_declare_around:
  assumes "conforms opts d x c f"
  shows "conforms opts d x (around_check n ready c) (declare_around n kind sp ready parameter f)"
proof (rule conformsI)
  fix a assume a: "sem_ok opts a"
  let ?r = "declare_around n kind sp ready parameter f a"
  have "sem_ok opts ?r \<and> grows a ?r \<and> (clean_flags a \<longrightarrow> (case verdict opts d x (around_check n ready c) a of
      None \<Rightarrow> reports a < reports ?r
    | Some ss \<Rightarrow> reports ?r = reports a \<and> names_of ?r = ss \<and> an_visited ?r = an_visited a + fst x))"
    using a
  proof (cases rule: declare_name_cases [where n = n and kind = kind and sp = sp and ready = ready
        and parameter = parameter])
    case (duplicate a')
    note f = conformsD [OF assms duplicate(2)]
    have r: "?r = f a'" using duplicate(1) by (simp add: declare_around_def initialize_def)
    have "verdict opts d x (around_check n ready c) a = None"
      using duplicate(5) by (simp add: verdict_def around_check_def)
    then show ?thesis
      using f(1) grows_trans [OF duplicate(3) f(2)] duplicate(4) grows_reports [OF f(2)] by (simp add: r)
  next
    case (fresh i a')
    note f = conformsD [OF assms fresh(2)]
    have r: "?r = initialize (Some i) (f a')" using fresh(1) by (simp add: declare_around_def)
    have i: "i < length (an_bindings (f a'))" "hd (an_scopes (f a')) n = Some i"
      using f(2) fresh(8,9) by (auto simp: grows_def map_le_def dom_def)
    note init = initialize_ok [OF f(1) i]
    have keep: "an_diagnostics (initialize (Some i) b) = an_diagnostics b"
      "an_visited (initialize (Some i) b) = an_visited b" for b
      by (simp_all add: initialize_def)
    have v: "verdict opts d x (around_check n ready c) a = map_option (mark_ready n) (verdict opts d x c a')"
      using fresh(5,7,10) by (auto simp: verdict_def around_check_def fits_def)
    show ?thesis
      using init(1) grows_trans [OF grows_trans [OF fresh(3) f(2)] init(2)] f(3,4) fresh(4,5,6)
      by (auto simp: r v keep init(3) split: option.split)
  qed
  then show "sem_ok opts ?r" "grows a ?r"
    "clean_flags a \<Longrightarrow> verdict opts d x (around_check n ready c) a = None \<Longrightarrow> reports a < reports ?r"
    "\<And>ss. clean_flags a \<Longrightarrow> verdict opts d x (around_check n ready c) a = Some ss \<Longrightarrow>
      reports ?r = reports a \<and> names_of ?r = ss \<and> an_visited ?r = an_visited a + fst x"
    by (simp_all split: option.splits)
qed

lemma conforms_record_import: "conforms opts d (0, 0) accept (record_import sp m n)"
proof (rule conformsI)
  fix a assume a: "sem_ok opts a"
  have same: "same_tables a (record_import sp m n a)" "an_visited (record_import sp m n a) = an_visited a"
    "an_diagnostics (record_import sp m n a) = an_diagnostics a"
    "clean_flags (record_import sp m n a) = clean_flags a"
    by (simp_all add: same_tables_def record_import_def clean_flags_def)
  show "sem_ok opts (record_import sp m n a)" "grows a (record_import sp m n a)"
    using a by (auto intro: same_tables_ok [OF same(1)] same_tables_grows [OF same(1)] simp: same sem_ok_visited)
  show "reports a < reports (record_import sp m n a)" if "verdict opts d (0, 0) accept a = None"
    using that fits_nothing [OF a] by (simp add: verdict_def accept_def)
  show "reports (record_import sp m n a) = reports a \<and> names_of (record_import sp m n a) = ss \<and>
      an_visited (record_import sp m n a) = an_visited a + fst (0::nat, 0::nat)"
    if "verdict opts d (0, 0) accept a = Some ss" for ss
    using that fits_nothing [OF a] same_tables_names [OF same(1)] by (simp add: verdict_def accept_def same)
qed

subsection \<open>Captures\<close>

definition captured_by :: "nat \<Rightarrow> function_info list \<Rightarrow> function_info list \<Rightarrow> bool" where
  "captured_by b fs fs' \<longleftrightarrow> length fs' = length fs \<and> (\<forall>f<length fs.
     fi_parent (fs' ! f) = fi_parent (fs ! f) \<and>
     (fi_captures (fs' ! f) = fi_captures (fs ! f) \<or>
      b \<notin> set (fi_captures (fs ! f)) \<and> fi_captures (fs' ! f) = fi_captures (fs ! f) @ [b]))"

lemma captured_by_refl [simp]: "captured_by b fs fs"
  by (simp add: captured_by_def)

lemma captured_by_trans: "captured_by b fs fs1 \<Longrightarrow> captured_by b fs1 fs2 \<Longrightarrow> captured_by b fs fs2"
  by (simp add: captured_by_def) (metis in_set_conv_decomp)

lemma captured_by_update:
  "captured_by b fs (fs[i := (if b \<in> set (fi_captures (fs ! i)) then fs ! i
     else (fs ! i)\<lparr>fi_captures := fi_captures (fs ! i) @ [b]\<rparr>)])"
  by (cases "i < length fs") (auto simp: captured_by_def nth_list_update)

lemma captured_by_chain: "captured_by b fs (capture_chain n owner current b fs)"
proof (induction n arbitrary: current fs)
  case (Suc n)
  show ?case
  proof (cases current)
    case (Some i)
    have "captured_by b fs (capture_chain n owner (fi_parent (fs ! i)) b (fs[i :=
        (if b \<in> set (fi_captures (fs ! i)) then fs ! i
         else (fs ! i)\<lparr>fi_captures := fi_captures (fs ! i) @ [b]\<rparr>)]))"
      by (rule captured_by_trans [OF captured_by_update Suc.IH])
    then show ?thesis by (simp add: Some Let_def)
  qed simp
qed simp

definition decreasing_parents :: "function_info list \<Rightarrow> bool" where
  "decreasing_parents fs \<longleftrightarrow> (\<forall>f p. f < length fs \<longrightarrow> fi_parent (fs ! f) = Some p \<longrightarrow> p < f)"

lemma capture_chain_propagated:
  assumes "decreasing_parents fs" "i < length fs" "i < n"
    "\<And>f p. f < length fs \<Longrightarrow> b \<in> set (fi_captures (fs ! f)) \<Longrightarrow> fi_parent (fs ! f) = Some p \<Longrightarrow>
       Some p = owner \<or> b \<in> set (fi_captures (fs ! p)) \<or> p = i"
  shows "propagated owner b (capture_chain n owner (Some i) b fs)"
  using assms
proof (induction n arbitrary: i fs)
  case (Suc n)
  show ?case
  proof (cases "Some i = owner")
    case True
    then have "propagated owner b fs" unfolding propagated_def using Suc.prems(4) by blast
    then show ?thesis by (simp flip: True)
  next
    case False
    let ?f' = "if b \<in> set (fi_captures (fs ! i)) then fs ! i
      else (fs ! i)\<lparr>fi_captures := fi_captures (fs ! i) @ [b]\<rparr>"
    let ?fs = "fs[i := ?f']"
    have r: "capture_chain (Suc n) owner (Some i) b fs = capture_chain n owner (fi_parent (fs ! i)) b ?fs"
      using False by (simp add: Let_def)
    have parent: "fi_parent (?fs ! f) = fi_parent (fs ! f)" for f
      using Suc.prems(2) by (cases "f = i") (auto simp: nth_list_update)
    have caps: "b \<in> set (fi_captures (?fs ! f)) \<longleftrightarrow> f = i \<or> b \<in> set (fi_captures (fs ! f))"
      if "f < length fs" for f
      using that Suc.prems(2) by (cases "f = i") (auto simp: nth_list_update)
    have smaller: "p < f" if "fi_parent (fs ! f) = Some p" "f < length fs" for f p
      using Suc.prems(1) that by (simp add: decreasing_parents_def)
    show ?thesis
    proof (cases "fi_parent (fs ! i)")
      case None
      have "propagated owner b ?fs"
        unfolding propagated_def
      proof (intro allI impI)
        fix f p
        assume f: "f < length ?fs" "b \<in> set (fi_captures (?fs ! f))" "fi_parent (?fs ! f) = Some p"
        then have "p < f" using smaller by (simp only: parent length_list_update)
        with f None Suc.prems(4) [of f p] show "Some p = owner \<or> b \<in> set (fi_captures (?fs ! p))"
          by (auto simp only: parent caps length_list_update)
      qed
      then show ?thesis unfolding r None by (cases n) simp_all
    next
      case (Some q)
      have "q < i" using smaller Some Suc.prems(2) by simp
      show ?thesis
        unfolding r Some
      proof (rule Suc.IH)
        show "decreasing_parents ?fs" using Suc.prems(1) by (simp only: decreasing_parents_def parent length_list_update)
        show "q < length ?fs" "q < n" using \<open>q < i\<close> Suc.prems(2,3) by simp_all
        fix f p
        assume f: "f < length ?fs" "b \<in> set (fi_captures (?fs ! f))" "fi_parent (?fs ! f) = Some p"
        then have "p < f" using smaller by (simp only: parent length_list_update)
        with f Some Suc.prems(4) [of f p] show "Some p = owner \<or> b \<in> set (fi_captures (?fs ! p)) \<or> p = q"
          by (auto simp only: parent caps length_list_update)
      qed
    qed
  qed
qed simp

lemma propagated_other:
  assumes "captured_by b fs fs'" "propagated owner c fs" "c \<noteq> b" "decreasing_parents fs"
  shows "propagated owner c fs'"
proof -
  have "c \<in> set (fi_captures (fs' ! f)) \<longleftrightarrow> c \<in> set (fi_captures (fs ! f))"
    and "fi_parent (fs' ! f) = fi_parent (fs ! f)" if "f < length fs" for f
    using assms(1,3) that by (auto simp: captured_by_def)
  then show ?thesis
    using assms by (auto simp: propagated_def captured_by_def decreasing_parents_def) (meson less_trans)
qed

lemma add_capture_ok:
  assumes a: "sem_ok opts a" and b: "b < length (an_bindings a)"
  shows "sem_ok opts (add_capture b a)" "grows a (add_capture b a)"
    "an_current a \<noteq> None \<Longrightarrow> bi_captured (an_bindings (add_capture b a) ! b)"
    "an_diagnostics (add_capture b a) = an_diagnostics a" "an_visited (add_capture b a) = an_visited a"
    "names_of (add_capture b a) = names_of a"
proof -
  let ?a' = "add_capture b a"
  have "(sem_ok opts ?a' \<and> grows a ?a' \<and> (an_current a \<noteq> None \<longrightarrow> bi_captured (an_bindings ?a' ! b))) \<and>
    an_diagnostics ?a' = an_diagnostics a \<and> an_visited ?a' = an_visited a \<and> names_of ?a' = names_of a"
  proof (cases "an_current a")
    case None
    then show ?thesis using a by (simp add: add_capture_def)
  next
    case (Some i)
    let ?owner = "bi_owner (an_bindings a ! b)"
    define fs where "fs = capture_chain (Suc i) ?owner (Some i) b (an_functions a)"
    have a': "?a' = a\<lparr>an_functions := fs,
        an_bindings := (an_bindings a)[b := (an_bindings a ! b)\<lparr>bi_captured := True\<rparr>]\<rparr>"
      by (simp add: add_capture_def Some fs_def)
    have same: "bi_name (an_bindings ?a' ! j) = bi_name (an_bindings a ! j)"
      "bi_scope_depth (an_bindings ?a' ! j) = bi_scope_depth (an_bindings a ! j)"
      "bi_owner (an_bindings ?a' ! j) = bi_owner (an_bindings a ! j)"
      "bi_initialized (an_bindings ?a' ! j) = bi_initialized (an_bindings a ! j)"
      "bi_captured (an_bindings ?a' ! j) = (j = b \<or> bi_captured (an_bindings a ! j))" for j
      using b by (cases "j = b"; simp add: a')+
    have chain: "captured_by b (an_functions a) fs" unfolding fs_def by (rule captured_by_chain)
    have dec: "decreasing_parents (an_functions a)"
      using a by (simp add: sem_ok_def parents_ok_def decreasing_parents_def)
    have i: "i < length (an_functions a)" using a Some by (simp add: sem_ok_def parents_ok_def)
    have old: "propagated (bi_owner (an_bindings a ! c)) c (an_functions a)" if "c < length (an_bindings a)" for c
      using a that by (simp add: sem_ok_def captures_ok_def)
    have "propagated ?owner b fs"
      unfolding fs_def using old [OF b] dec i
      by (intro capture_chain_propagated) (auto simp: propagated_def)
    moreover have "propagated (bi_owner (an_bindings a ! c)) c fs" if "c < length (an_bindings a)" "c \<noteq> b" for c
      using propagated_other [OF chain old [OF that(1)] that(2) dec] .
    ultimately have props: "propagated (bi_owner (an_bindings a ! c)) c fs" if "c < length (an_bindings a)" for c
      using that by blast
    have caps: "distinct (fi_captures (fs ! f)) \<and> set (fi_captures (fs ! f)) \<subseteq> {..<length (an_bindings a)}"
      if "f < length fs" for f
    proof -
      have "distinct (fi_captures (an_functions a ! f)) \<and>
          set (fi_captures (an_functions a ! f)) \<subseteq> {..<length (an_bindings a)}"
        using a that chain by (simp add: sem_ok_def captures_ok_def captured_by_def)
      moreover have "fi_captures (fs ! f) = fi_captures (an_functions a ! f) \<or>
          b \<notin> set (fi_captures (an_functions a ! f)) \<and> fi_captures (fs ! f) = fi_captures (an_functions a ! f) @ [b]"
        using chain that by (simp add: captured_by_def)
      ultimately show ?thesis using b by auto
    qed
    have fixed: "length (an_bindings ?a') = length (an_bindings a)" "an_scopes ?a' = an_scopes a"
      "an_references ?a' = an_references a" "an_functions ?a' = fs" "an_current ?a' = an_current a"
      "an_visited ?a' = an_visited a" "an_diagnostics ?a' = an_diagnostics a" "clean_flags ?a' = clean_flags a"
      "an_cleanup_depth ?a' = an_cleanup_depth a"
      by (simp_all add: a' clean_flags_def)
    have len: "length fs = length (an_functions a)" using chain by (simp add: captured_by_def)
    have "parents_ok ?a'"
      using a chain by (auto simp: sem_ok_def parents_ok_def fixed captured_by_def)
    moreover have "captures_ok ?a'" using caps props by (simp add: captures_ok_def fixed same)
    moreover have "scopes_ok ?a'" using a by (simp add: sem_ok_def scopes_ok_def fixed same)
    moreover have "references_ok ?a'" using a by (auto simp: sem_ok_def references_ok_def fixed same)
    ultimately show ?thesis
      using a by (simp add: sem_ok_def grows_def fixed same len names_of_def)
  qed
  then show "sem_ok opts ?a'" "grows a ?a'" "an_current a \<noteq> None \<Longrightarrow> bi_captured (an_bindings ?a' ! b)"
    "an_diagnostics ?a' = an_diagnostics a" "an_visited ?a' = an_visited a" "names_of ?a' = names_of a" by blast+
qed

subsection \<open>References\<close>

lemma find_binding_Some:
  "find_binding ss n = Some (i, k) \<Longrightarrow> k < length ss \<and> (ss ! k) n = Some i"
  by (induction ss n arbitrary: i k rule: find_binding.induct) (auto split: option.splits)

lemma visible_names_of:
  "visible (names_of a) n = map_option (\<lambda>(i, k). bi_initialized (an_bindings a ! i)) (find_binding (an_scopes a) n)"
proof -
  have "visible (map (\<lambda>s n. map_option (\<lambda>i. bi_initialized (bs ! i)) (s n)) ss) n
      = map_option (\<lambda>(i, k). bi_initialized (bs ! i)) (find_binding ss n)" for bs and ss :: "(string \<rightharpoonup> nat) list"
    by (induction ss) (auto split: option.split simp: option.map_comp comp_def split_beta)
  then show ?thesis by (simp add: names_of_def)
qed

definition add_reference :: "reference_resolution \<Rightarrow> analysis \<Rightarrow> analysis" where
  "add_reference r a = a\<lparr>an_references := an_references a @ [r]\<rparr>"

lemma add_reference_ok:
  assumes "sem_ok opts a" "rr_binding r < length (an_bindings a)"
    "bi_name (an_bindings a ! rr_binding r) = rr_name r"
    "rr_captured r \<Longrightarrow> bi_captured (an_bindings a ! rr_binding r)"
  shows "sem_ok opts (add_reference r a)" "grows a (add_reference r a)"
    "an_diagnostics (add_reference r a) = an_diagnostics a" "names_of (add_reference r a) = names_of a"
    "an_visited (add_reference r a) = an_visited a"
  using assms
  by (auto simp: add_reference_def sem_ok_def scopes_ok_def references_ok_def parents_ok_def captures_ok_def
      grows_def names_of_def clean_flags_def)

lemma resolve_found:
  assumes a: "sem_ok opts a" and found: "find_binding (an_scopes a) n = Some (i, k)"
  obtains a1 where "sem_ok opts (resolve sp n access a)" "grows a (resolve sp n access a)"
    "names_of (resolve sp n access a) = names_of a" "an_visited (resolve sp n access a) = an_visited a"
    "reports (resolve sp n access a) =
       (if access \<noteq> Write \<and> \<not> bi_initialized (an_bindings a ! i) then Suc (reports a) else reports a)"
proof -
  define a1 where "a1 = (if access \<noteq> Write \<and> \<not> bi_initialized (an_bindings a ! i)
      then diagnose ''SEM003'' (''binding '' @ single_quoted n @ '' is read before initialization'') sp a else a)"
  define captured where "captured \<longleftrightarrow> an_current a \<noteq> None \<and> bi_owner (an_bindings a ! i) \<noteq> None \<and>
      an_current a \<noteq> bi_owner (an_bindings a ! i)"
  define a2 where "a2 = (if captured then add_capture i a1 else a1)"
  define r where "r = \<lparr>rr_span = sp, rr_name = n, rr_binding = i, rr_distance = k,
      rr_is_write = (access \<noteq> Read), rr_requires_read = (access \<noteq> Write), rr_captured = captured\<rparr>"
  have i: "i < length (an_bindings a)" "bi_name (an_bindings a ! i) = n"
    using a find_binding_Some [OF found] unfolding sem_ok_def scopes_ok_def by blast+
  have a1: "sem_ok opts a1" "grows a a1" "names_of a1 = names_of a" "an_visited a1 = an_visited a"
    "an_current a1 = an_current a" "an_bindings a1 = an_bindings a"
    using a same_tables_names [OF diagnose_same] by (simp_all add: a1_def diagnose_ok diagnose_grows)
      (simp_all add: diagnose_def)
  note capture = add_capture_ok [OF a1(1), of i, unfolded a1(5,6), OF i(1)]
  have a2: "sem_ok opts a2" "grows a1 a2" "names_of a2 = names_of a" "an_visited a2 = an_visited a"
    "an_diagnostics a2 = an_diagnostics a1" "captured \<Longrightarrow> bi_captured (an_bindings a2 ! i)"
    using a1 capture by (auto simp: a2_def captured_def)
  have i2: "i < length (an_bindings a2)" "bi_name (an_bindings a2 ! i) = n"
    using a2(2) i a1(6) by (auto simp: grows_def)
  have "resolve sp n access a = add_reference r a2"
    using found by (simp add: resolve_def Let_def add_reference_def r_def a2_def a1_def captured_def)
  moreover note ref = add_reference_ok [OF a2(1), of r]
  ultimately show ?thesis
    using that i2 a2 ref grows_trans [OF grows_trans [OF a1(2) a2(2)], of "add_reference r a2"]
    by (auto simp: r_def a1_def)
qed

lemma conforms_resolve: "conforms opts d (0, 0) (name_check n access) (resolve sp n access)"
proof (rule conformsI)
  fix a assume a: "sem_ok opts a"
  let ?r = "resolve sp n access a"
  have "sem_ok opts ?r \<and> grows a ?r \<and> an_visited ?r = an_visited a \<and>
    (case name_check n access (an_cleanup_depth a \<noteq> 0) (names_of a) of None \<Rightarrow> reports a < reports ?r
     | Some ss \<Rightarrow> reports ?r = reports a \<and> names_of ?r = ss)"
  proof (cases "find_binding (an_scopes a) n")
    case None
    then show ?thesis
      by (simp add: resolve_def name_check_def visible_names_of diagnose_ok a diagnose_grows)
  next
    case (Some p)
    then obtain i k where found: "find_binding (an_scopes a) n = Some (i, k)" by (cases p) auto
    show ?thesis
      by (rule resolve_found [OF a found, where sp = sp and access = access])
        (auto simp: name_check_def visible_names_of found)
  qed
  then show "sem_ok opts ?r" "grows a ?r"
    "verdict opts d (0, 0) (name_check n access) a = None \<Longrightarrow> reports a < reports ?r"
    "\<And>ss. verdict opts d (0, 0) (name_check n access) a = Some ss \<Longrightarrow>
      reports ?r = reports a \<and> names_of ?r = ss \<and> an_visited ?r = an_visited a + fst (0::nat, 0::nat)"
    using fits_nothing [OF a] by (auto simp: verdict_def split: option.splits)
qed

section \<open>The visitors\<close>

lemma then_accept [simp]: "then_check accept c = c"
  by (simp add: fun_eq_iff then_check_def accept_def)

lemma function_check_eq:
  "function_check ps b = (\<lambda>cleanup. scope_check (then_check (each_check ps) b) False)"
  by (simp add: fun_eq_iff function_check_def)

lemma conforms_function:
  assumes "\<And>p. p \<in> set ps \<Longrightarrow> conforms opts d (x p) (c p) (f p)" "conforms opts d y b g"
  shows "conforms opts d (then_extent (each_extent (map x ps)) y) (function_check (map c ps) b)
    (analyze_function sp (map f ps) g)"
  unfolding function_check_eq analyze_function_def
  by (intro conforms_function_guard conforms_then conforms_each_map assms)

lemma conforms_block:
  assumes "\<And>s. s \<in> set ss \<Longrightarrow> conforms opts (d + 1) (x s) (c s) (f s)"
    "\<And>c f. conforms opts (d + 1) (each_extent (map x ss)) c f \<Longrightarrow>
       conforms opts (d + 1) (each_extent (map x ss)) (cguard c) (guard f)"
  shows "conforms opts d (node_extent (each_extent (map x ss))) (cguard (each_check (map c ss)))
    (entered opts sp d (guard (each (map f ss))))"
  using assms by (blast intro: conforms_entered conforms_each_map)

lemmas conforms_intros = conforms_entered conforms_then conforms_each_map conforms_present conforms_function
  conforms_in_scope conforms_cleanup_body conforms_declare_around conforms_declare_only conforms_reject
  conforms_record_import conforms_resolve conforms_nothing

lemma visits_conform:
  shows "conforms opts d (expression_extent e) (scoped_expression access e) (visit_expression opts access d e)"
    and "conforms opts d (entry_extent en) (scoped_entry en) (visit_entry opts d en)"
    and "conforms opts d (parameter_extent p) (scoped_parameter p) (visit_parameter opts d p)"
    and "conforms opts d (argument_extent arg) (scoped_argument arg) (visit_argument opts d arg)"
    and "conforms opts d (block_extent b) (scoped_block (\<lambda>c. c) b) (visit_block opts (\<lambda>f. f) d b) \<and>
         conforms opts d (block_extent b) (scoped_block scope_check b) (visit_block opts in_scope d b)"
    and "conforms opts d (statement_extent s) (scoped_statement s) (visit_statement opts d s)"
proof (induction e and en and p and arg and b and s arbitrary: access d and d and d and d and d and d)
  case (Parameter n preset sp)
  then show ?case by (auto intro!: conforms_declare_around conforms_present)
next
  case (ImportStatement sp m n)
  show ?case
    using conforms_entered [OF conforms_then [OF conforms_record_import conforms_declare_only]] by simp
qed (auto intro!: conforms_intros conforms_block)

section \<open>The analyzer\<close>

lemma start_ok: "sem_ok opts analysis_start" "clean_flags analysis_start" "names_of analysis_start = [Map.empty]"
  by (simp_all add: sem_ok_def scopes_ok_def references_ok_def parents_ok_def captures_ok_def clean_flags_def
      names_of_def analysis_start_def less_Suc_eq fun_eq_iff)

lemma run_conforms:
  "conforms opts 1 (program_extent p) (each_check (map scoped_statement (program_statements p)))
     (each (map (visit_statement opts 1) (program_statements p)))"
  unfolding program_extent_def by (rule conforms_each_map) (rule visits_conform)

lemmas run_conformsD = conformsD [OF run_conforms start_ok(1), folded run_analysis_def]

lemma analysis_errors: "sr_diagnostics (analyze_semantics p opts) = [] \<longleftrightarrow> \<not> has_errors (sr_diagnostics (analyze_semantics p opts))"
proof -
  have "errors_after (an_diagnostics analysis_start) (an_diagnostics (run_analysis opts p))"
    using run_conformsD(2) by (simp add: grows_def)
  then have "list_all (\<lambda>d. diag_severity d = SevError) (an_diagnostics (run_analysis opts p))"
    by (simp add: errors_after_def analysis_start_def)
  then show ?thesis
    by (cases "an_diagnostics (run_analysis opts p)") (simp_all add: analyze_semantics_def Let_def)
qed

lemma analysis_visited: "sr_visited (analyze_semantics p opts) \<le> max_ast_nodes opts"
  using run_conformsD(1) by (simp add: sem_ok_def analyze_semantics_def Let_def)

lemma semantics_accepts:
  "sr_diagnostics (analyze_semantics p opts) = [] \<longleftrightarrow>
     well_scoped p \<and> fst (program_extent p) \<le> max_ast_nodes opts \<and>
     snd (program_extent p) \<le> effective_max_depth opts"
proof -
  have r: "sr_diagnostics (analyze_semantics p opts) = [] \<longleftrightarrow> reports (run_analysis opts p) = 0"
    by (simp add: analyze_semantics_def Let_def)
  have start: "reports analysis_start = 0" "an_visited analysis_start = 0" "an_cleanup_depth analysis_start = 0"
    by (simp_all add: analysis_start_def)
  have fits: "fits opts 1 analysis_start (program_extent p) \<longleftrightarrow> fst (program_extent p) \<le> max_ast_nodes opts \<and>
      snd (program_extent p) \<le> effective_max_depth opts"
    by (auto simp: fits_def start)
  show ?thesis
  proof (cases "verdict opts 1 (program_extent p) (each_check (map scoped_statement (program_statements p)))
      analysis_start")
    case None
    then have "reports (run_analysis opts p) \<noteq> 0"
      using run_conformsD(3) [OF start_ok(2) None] by linarith
    moreover have "\<not> (well_scoped p \<and> fits opts 1 analysis_start (program_extent p))"
      using None by (auto simp: verdict_def well_scoped_def start_ok(3) start)
    ultimately show ?thesis using fits r by blast
  next
    case (Some ss)
    then have "reports (run_analysis opts p) = 0"
      using run_conformsD(4) [OF start_ok(2) Some] by (simp add: start)
    moreover have "well_scoped p \<and> fits opts 1 analysis_start (program_extent p)"
      using Some by (auto simp: verdict_def well_scoped_def start_ok(3) start split: if_splits)
    ultimately show ?thesis using fits r by blast
  qed
qed

text \<open>A closure over a variable of the function around it:
  \<open>fn f() { let x = null; fn g() { return x; } }\<close>.\<close>

definition captured_name :: program where
  "captured_name = (let origin = \<lparr>loc_offset = 0, loc_line = 1, loc_column = 1\<rparr>;
       here = \<lparr>span_begin = origin, span_end = origin\<rparr>;
       g = FunctionDeclaration here ''g'' False []
         (Block here [ReturnStatement here (Some (IdentifierExpression here ''x''))])
     in \<lparr>program_statements = [FunctionDeclaration here ''f'' False []
           (Block here [LetStatement here ''x'' (LiteralExpression here LitNull), g])],
         program_span = here\<rparr>)"

text \<open>C3 (analyze_semantics_correct): the analyzer reports no diagnostic exactly for the programs that obey
  the scoping rules (every name declared in scope and initialized before it is read, no duplicate
  declaration in a scope, no control transfer out of a cleanup body) and that have at most
  \<open>max_ast_nodes\<close> nodes and a height of at most the effective depth limit.\<close>

theorem analyze_semantics_correct:
  "sr_diagnostics (analyze_semantics p opts) = [] \<longleftrightarrow>
     well_scoped p \<and> fst (program_extent p) \<le> max_ast_nodes opts \<and>
     snd (program_extent p) \<le> effective_max_depth opts"
  by (rule semantics_accepts)



text \<open>C35 (analyze_semantics_balanced): the analysis visits at most \<open>max_ast_nodes\<close> nodes, and its guards
  undo what they did: at the end the only scope is the global one, no function is current and no
  cleanup body is open, so that every top-level binding has depth 0.\<close>

theorem analyze_semantics_balanced:
  "an_visited (run_analysis opts p) \<le> max_ast_nodes opts \<and>
   length (an_scopes (run_analysis opts p)) = 1 \<and>
   an_current (run_analysis opts p) = None \<and> an_cleanup_depth (run_analysis opts p) = 0 \<and>
   (\<forall>n i. hd (an_scopes (run_analysis opts p)) n = Some i \<longrightarrow>
      i < length (an_bindings (run_analysis opts p)) \<and>
      bi_name (an_bindings (run_analysis opts p) ! i) = n \<and>
      bi_scope_depth (an_bindings (run_analysis opts p) ! i) = 0)"
proof -
  let ?a = "run_analysis opts p"
  have ok: "sem_ok opts ?a" and grows: "grows analysis_start ?a" by (rule run_conformsD)+
  have "length (an_scopes ?a) = 1" "an_current ?a = None" "an_cleanup_depth ?a = 0"
    using grows by (simp_all add: grows_def analysis_start_def)
  moreover from this obtain s where "an_scopes ?a = [s]" by (auto simp: length_Suc_conv)
  ultimately show ?thesis
    using ok by (fastforce simp: sem_ok_def scopes_ok_def)
qed

lemma analyze_semantics_balanced_witness:
  "hd (an_scopes (run_analysis default_semantic_options captured_name)) ''f'' = Some 0 \<and>
   bi_name (an_bindings (run_analysis default_semantic_options captured_name) ! 0) = ''f'' \<and>
   bi_scope_depth (an_bindings (run_analysis default_semantic_options captured_name) ! 0) = 0"
proof -
  have "hd (an_scopes (run_analysis default_semantic_options captured_name)) ''f'' = Some 0" by code_simp
  with analyze_semantics_balanced [of default_semantic_options captured_name] show ?thesis by blast
qed

end
