(* ===== verification/SyntaxCheck.thy ===== *)
theory SyntaxCheck
  imports Parser_Correct Semantic_Correct
begin

text \<open>
  The entry point of the checker (src/include/script/SyntaxCheck.h,
  src/src/script/SyntaxCheck.cpp): lexing and parsing, then semantic analysis unless the source
  has an error already, and the correctness of the composition.
\<close>

record syntax_check_result =
  sc_diagnostics :: "diagnostic list"
  sc_visited :: nat

definition check_source :: "string \<Rightarrow> semantic_options \<Rightarrow> syntax_check_result option" where
  "check_source source opts = (case parse source of None \<Rightarrow> None | Some parsed \<Rightarrow>
     let ds = pr_diagnostics parsed in
     if has_errors ds then Some \<lparr>sc_diagnostics = ds, sc_visited = 0\<rparr>
     else let semantic = analyze_semantics (pr_program parsed) opts in
       Some \<lparr>sc_diagnostics = ds @ sr_diagnostics semantic, sc_visited = sr_visited semantic\<rparr>)"

lemma has_errors_append [simp]: "has_errors (ds @ ds') \<longleftrightarrow> has_errors ds \<or> has_errors ds'"
  by (induction ds) auto

text \<open>C1 (check_source_correct): the checker returns for every source, and accepts it (reports no error)
  exactly if it lexes and parses without an error into a program that obeys the context rules of
  the grammar, the scoping rules and the limits on nodes and depth; it never visits more nodes
  than the limit.\<close>

theorem check_source_correct:
  "\<exists>parsed checked. parse source = Some parsed \<and> check_source source opts = Some checked \<and>
     sc_visited checked \<le> max_ast_nodes opts \<and>
     (\<not> has_errors (sc_diagnostics checked) \<longleftrightarrow>
        \<not> has_errors (pr_diagnostics parsed) \<and>
        list_all (statement_valid False False False) (program_statements (pr_program parsed)) \<and>
        well_scoped (pr_program parsed) \<and>
        fst (program_extent (pr_program parsed)) \<le> max_ast_nodes opts \<and>
        snd (program_extent (pr_program parsed)) \<le> effective_max_depth opts)"
proof -
  obtain parsed where parsed: "parse source = Some parsed" using parse_returns by blast
  show ?thesis
  proof (cases "has_errors (pr_diagnostics parsed)")
    case True
    then show ?thesis by (simp add: parsed check_source_def Let_def)
  next
    case False
    have "\<not> has_errors (sr_diagnostics (analyze_semantics (pr_program parsed) opts)) \<longleftrightarrow>
        well_scoped (pr_program parsed) \<and> fst (program_extent (pr_program parsed)) \<le> max_ast_nodes opts \<and>
        snd (program_extent (pr_program parsed)) \<le> effective_max_depth opts"
      using analysis_errors semantics_accepts by blast
    with False show ?thesis
      using parsed_tree_valid [OF parsed False] by (simp add: parsed check_source_def Let_def analysis_visited)
  qed
qed

end
