(* ===== verification/ModuleSpecifier.thy ===== *)
theory ModuleSpecifier
  imports Utf8
begin

text \<open>
  Module specifiers (src/include/script/runtime/ModuleSpecifier.h,
  src/src/script/runtime/ModuleSpecifier.cpp): the validation of the logical names by which
  scripts import modules, with its own UTF-8 validator.  The NFC predicate of the embedding
  runtime is a parameter, \<open>None\<close> for the null pointer.  An error is the exception thrown.
\<close>

section \<open>Types\<close>

datatype module_kind = PackageModule | HostModule

datatype specifier_error_code =
    SpecifierEmpty | ByteLimitExceeded | SegmentLimitExceeded | InvalidUtf8 | NfcCheckUnavailable
  | NotNfc | LeadingSlash | DrivePrefix | Backslash | EmbeddedNul | EmptySegment | DotSegment
  | SourceExtension

fun module_specifier_error_code_name :: "specifier_error_code \<Rightarrow> string" where
  "module_specifier_error_code_name SpecifierEmpty = ''MS001_EMPTY''"
| "module_specifier_error_code_name ByteLimitExceeded = ''MS002_BYTE_LIMIT_EXCEEDED''"
| "module_specifier_error_code_name SegmentLimitExceeded = ''MS003_SEGMENT_LIMIT_EXCEEDED''"
| "module_specifier_error_code_name InvalidUtf8 = ''MS004_INVALID_UTF8''"
| "module_specifier_error_code_name NfcCheckUnavailable = ''MS005_NFC_CHECK_UNAVAILABLE''"
| "module_specifier_error_code_name NotNfc = ''MS006_NOT_NFC''"
| "module_specifier_error_code_name LeadingSlash = ''MS007_LEADING_SLASH''"
| "module_specifier_error_code_name DrivePrefix = ''MS008_DRIVE_PREFIX''"
| "module_specifier_error_code_name Backslash = ''MS009_BACKSLASH''"
| "module_specifier_error_code_name EmbeddedNul = ''MS010_EMBEDDED_NUL''"
| "module_specifier_error_code_name EmptySegment = ''MS011_EMPTY_SEGMENT''"
| "module_specifier_error_code_name DotSegment = ''MS012_DOT_SEGMENT''"
| "module_specifier_error_code_name SourceExtension = ''MS013_SOURCE_EXTENSION''"

datatype specifier_error =
    SpecifierInvalidArgument string
  | ModuleSpecifierError specifier_error_code string

record specifier_limits =
  max_bytes :: nat
  max_segments :: nat

definition default_specifier_limits :: specifier_limits where
  "default_specifier_limits = \<lparr>max_bytes = 1024, max_segments = 128\<rparr>"

record module_specifier =
  spec_kind :: module_kind
  canonical_id :: string

section \<open>The UTF-8 validator\<close>

text \<open>The loop over the continuation bytes after the lead byte at \<open>index\<close>; \<open>None\<close> is the
  early \<open>return false\<close>.\<close>

fun specifier_continuations :: "string \<Rightarrow> nat \<Rightarrow> nat \<Rightarrow> nat \<Rightarrow> nat option" where
  "specifier_continuations s position 0 code_point = Some code_point"
| "specifier_continuations s position (Suc n) code_point =
     (let continuation = byte_of (s ! position) in
      if continuation AND 0xC0 \<noteq> 0x80 then None
      else specifier_continuations s (position + 1) n (push_bit 6 code_point OR (continuation AND 0x3F)))"

definition specifier_sequence :: "string \<Rightarrow> nat \<Rightarrow> nat \<Rightarrow> nat \<Rightarrow> nat option" where
  "specifier_sequence s index continuation_count code_point =
    (if continuation_count > length s - index - 1 then None
     else case specifier_continuations s (index + 1) continuation_count code_point of
        None \<Rightarrow> None
      | Some cp \<Rightarrow>
          if (continuation_count = 2 \<and> cp < 0x800) \<or> (continuation_count = 3 \<and> cp < 0x10000) \<or>
             cp > 0x10FFFF \<or> (cp \<ge> 0xD800 \<and> cp \<le> 0xDFFF) then None
          else Some (index + (continuation_count + 1)))"

text \<open>One round of the loop: the index after the sequence at \<open>index\<close>.\<close>

definition next_index :: "string \<Rightarrow> nat \<Rightarrow> nat option" where
  "next_index s index = (let lead = byte_of (s ! index) in
     if lead \<le> 0x7F then Some (index + 1)
     else if lead \<ge> 0xC2 \<and> lead \<le> 0xDF then specifier_sequence s index 1 (lead AND 0x1F)
     else if lead \<ge> 0xE0 \<and> lead \<le> 0xEF then specifier_sequence s index 2 (lead AND 0x0F)
     else if lead \<ge> 0xF0 \<and> lead \<le> 0xF4 then specifier_sequence s index 3 (lead AND 0x07)
     else None)"

lemma specifier_sequence_greater: "specifier_sequence s i n v = Some j \<Longrightarrow> i < j"
  by (auto simp: specifier_sequence_def split: if_splits option.splits)

lemma next_index_greater: "next_index s i = Some j \<Longrightarrow> i < j"
  by (auto simp: next_index_def Let_def dest: specifier_sequence_greater split: if_splits)

function utf8_loop :: "string \<Rightarrow> nat \<Rightarrow> bool" where
  "utf8_loop s index = (if index < length s then
      (case next_index s index of None \<Rightarrow> False | Some index' \<Rightarrow> utf8_loop s index')
    else True)"
  by pat_completeness auto
termination by (relation "measure (\<lambda>(s, index). length s - index)") (auto dest: next_index_greater)

declare utf8_loop.simps [simp del]

definition is_valid_utf8 :: "string \<Rightarrow> bool" where
  "is_valid_utf8 s = utf8_loop s 0"

section \<open>Validation\<close>

definition contains_non_ascii :: "string \<Rightarrow> bool" where
  "contains_non_ascii s = list_ex (\<lambda>c. byte_of c \<ge> 0x80) s"

definition is_ascii_alpha :: "char \<Rightarrow> bool" where
  "is_ascii_alpha c \<longleftrightarrow> (byte_of c \<ge> byte_of CHR ''A'' \<and> byte_of c \<le> byte_of CHR ''Z'') \<or>
     (byte_of c \<ge> byte_of CHR ''a'' \<and> byte_of c \<le> byte_of CHR ''z'')"

text \<open>\<open>std::string_view::find\<close> of a character, from a position.\<close>

function find_char :: "char \<Rightarrow> string \<Rightarrow> nat \<Rightarrow> nat option" where
  "find_char c s i = (if i < length s then if s ! i = c then Some i else find_char c s (i + 1) else None)"
  by pat_completeness auto
termination by (relation "measure (\<lambda>(c, s, i). length s - i)") auto

declare find_char.simps [simp del]

lemma find_char_Some: "find_char c s i = Some j \<Longrightarrow> i \<le> j \<and> j < length s \<and> s ! j = c"
  by (induction c s i rule: find_char.induct) (subst (asm) (2) find_char.simps, auto split: if_splits)

definition spec_fail :: "specifier_error_code \<Rightarrow> string \<Rightarrow> (specifier_error, 'a) result" where
  "spec_fail code message = Inl (ModuleSpecifierError code message)"

text \<open>The loop over the segments.\<close>

function segment_loop :: "specifier_limits \<Rightarrow> string \<Rightarrow> nat \<Rightarrow> nat \<Rightarrow> (specifier_error, unit) result" where
  "segment_loop limits s begin segment_count =
    (if begin \<le> length s then
       let slash = find_char CHR ''/'' s begin;
           stop = (case slash of None \<Rightarrow> length s | Some e \<Rightarrow> e);
           segment = take (stop - begin) (drop begin s)
       in if segment = [] then spec_fail EmptySegment ''module specifier contains an empty segment''
          else if segment = ''.'' \<or> segment = ''..'' then
            spec_fail DotSegment ''module specifier contains a dot segment''
          else if segment_count + 1 > max_segments limits then
            spec_fail SegmentLimitExceeded ''module specifier exceeds segment limit''
          else (case slash of None \<Rightarrow> Inr () | Some e \<Rightarrow> segment_loop limits s (e + 1) (segment_count + 1))
     else Inr ())"
  by pat_completeness auto
termination
  by (relation "measure (\<lambda>(limits, s, begin, n). Suc (length s) - begin)") (auto dest!: find_char_Some [OF sym])

declare segment_loop.simps [simp del]

definition ends_with :: "string \<Rightarrow> string \<Rightarrow> bool" where
  "ends_with s t \<longleftrightarrow> length t \<le> length s \<and> drop (length s - length t) s = t"

definition begins_with :: "string \<Rightarrow> string \<Rightarrow> bool" where
  "begins_with s t \<longleftrightarrow> take (length t) s = t"

definition host_prefix :: string where "host_prefix = ''baas/''"
definition source_extension :: string where "source_extension = ''.baas''"

definition nfc_check :: "(string \<Rightarrow> bool) option \<Rightarrow> string \<Rightarrow> (specifier_error, unit) result" where
  "nfc_check is_nfc s =
    (if contains_non_ascii s then
       (case is_nfc of
          None \<Rightarrow> spec_fail NfcCheckUnavailable ''non-ASCII module specifier requires an NFC validator''
        | Some check \<Rightarrow> if \<not> check s then spec_fail NotNfc ''module specifier is not NFC'' else Inr ())
     else Inr ())"

definition validate_module_specifier ::
  "string \<Rightarrow> (string \<Rightarrow> bool) option \<Rightarrow> specifier_limits \<Rightarrow> (specifier_error, module_specifier) result" where
  "validate_module_specifier s is_nfc limits =
    (if max_bytes limits = 0 \<or> max_segments limits = 0 then
       Inl (SpecifierInvalidArgument ''module specifier limits must be positive'')
     else if s = [] then spec_fail SpecifierEmpty ''module specifier is empty''
     else if length s > max_bytes limits then spec_fail ByteLimitExceeded ''module specifier exceeds byte limit''
     else if \<not> is_valid_utf8 s then spec_fail InvalidUtf8 ''module specifier is not valid UTF-8''
     else if find_char (CHR 0x00) s 0 \<noteq> None then spec_fail EmbeddedNul ''module specifier contains NUL''
     else bind_result (nfc_check is_nfc s) (\<lambda>_.
       if hd s = CHR ''/'' then spec_fail LeadingSlash ''module specifier has a leading slash''
       else if length s \<ge> 2 \<and> is_ascii_alpha (s ! 0) \<and> s ! 1 = CHR '':'' then
         spec_fail DrivePrefix ''module specifier has a drive prefix''
       else if find_char (CHR 0x5C) s 0 \<noteq> None then spec_fail Backslash ''module specifier contains a backslash''
       else bind_result (segment_loop limits s 0 0) (\<lambda>_.
         if length s \<ge> 5 \<and> ends_with s source_extension then
           spec_fail SourceExtension ''module specifier must be extensionless''
         else Inr \<lparr>spec_kind = (if begins_with s host_prefix then HostModule else PackageModule),
                   canonical_id = s\<rparr>)))"

text \<open>\<open>manifest_source_path\<close>; the error is the message of the \<open>std::logic_error\<close>.\<close>

definition manifest_source_path :: "module_specifier \<Rightarrow> (string, string) result" where
  "manifest_source_path m = (if spec_kind m = HostModule
     then Inl ''host modules do not have package manifest paths''
     else Inr (canonical_id m @ source_extension))"

section \<open>The validator accepts UTF-8\<close>

lemma specifier_continuations_eq: "specifier_continuations s p n v = continuation_bytes s p n v"
  by (induction s p n v rule: specifier_continuations.induct) (simp_all add: continuation_bytes.simps(2) Let_def)

lemma two_byte_minimum:
  "continuation_bytes s p 1 (v mod 32) = Some w \<Longrightarrow> 0xC2 \<le> v \<Longrightarrow> v \<le> 0xDF \<Longrightarrow> 0x80 \<le> w"
  using lead_byte_split(1) [of v]
  by (auto simp: continuation_bytes_Suc_Some simp del: One_nat_def simp flip: One_nat_def)
    (auto simp: One_nat_def continuation_bytes_step split: if_splits)

lemma next_index_decode:
  assumes "i < length s"
  shows "next_index s i = (if dc_valid (decode_utf8 s i) then Some (i + dc_length (decode_utf8 s i)) else None)"
proof -
  let ?lead = "byte_of (s ! i)"
  have seq: "specifier_sequence s i n v =
      (if dc_valid (decode_multi s i (n + 1) v m)
       then Some (i + dc_length (decode_multi s i (n + 1) v m)) else None)"
    if "n > 0" "n = 2 \<Longrightarrow> m = 0x800" "n = 3 \<Longrightarrow> m = 0x10000" "n = 1 \<or> n = 2 \<or> n = 3"
      "\<And>w. n = 1 \<Longrightarrow> continuation_bytes s (i + 1) 1 v = Some w \<Longrightarrow> m \<le> w" for n v m
    using assms that
    by (auto simp: specifier_sequence_def decode_multi_def invalid_byte_def specifier_continuations_eq not_le
        split: option.splits)
  consider "?lead \<le> 0x7F" | "0xC2 \<le> ?lead" "?lead \<le> 0xDF" | "0xE0 \<le> ?lead" "?lead \<le> 0xEF"
    | "0xF0 \<le> ?lead" "?lead \<le> 0xF4" | "0x7F < ?lead" "?lead < 0xC2" | "0xF4 < ?lead"
    by linarith
  then show ?thesis
  proof cases
    case 1
    then show ?thesis using assms by (simp add: next_index_def decode_utf8_def)
  next
    case 2
    have "next_index s i = specifier_sequence s i 1 (?lead mod 32)"
      and "decode_utf8 s i = decode_multi s i (1 + 1) (?lead mod 32) 0x80"
      using 2 assms by (simp_all add: next_index_def decode_utf8_def and_low_bits numeral_2_eq_2 [symmetric])
    then show ?thesis using seq [where n = 1 and m = "0x80" and v = "?lead mod 32"] two_byte_minimum [OF _ 2] by auto
  next
    case 3
    have "next_index s i = specifier_sequence s i 2 (?lead mod 16)"
      and "decode_utf8 s i = decode_multi s i (2 + 1) (?lead mod 16) 0x800"
      using 3 assms by (simp_all add: next_index_def decode_utf8_def and_low_bits)
    then show ?thesis using seq [where n = 2 and m = "0x800" and v = "?lead mod 16"] by auto
  next
    case 4
    have "next_index s i = specifier_sequence s i 3 (?lead mod 8)"
      and "decode_utf8 s i = decode_multi s i (3 + 1) (?lead mod 8) 0x10000"
      using 4 assms by (simp_all add: next_index_def decode_utf8_def and_low_bits)
    then show ?thesis using seq [where n = 3 and m = "0x10000" and v = "?lead mod 8"] by auto
  qed (use assms in \<open>simp_all add: next_index_def decode_utf8_def invalid_byte_def\<close>)
qed

lemma utf8_loop_iff: "utf8_loop s i \<longleftrightarrow> valid_utf8 (drop i s)"
proof (induction s i rule: utf8_loop.induct)
  case (1 s i)
  show ?case
  proof (cases "i < length s")
    case True
    with 1 show ?thesis
      by (subst utf8_loop.simps) (auto simp: next_index_decode lexer_decoder.valid_utf8_step)
  qed (simp add: utf8_loop.simps)
qed

lemma is_valid_utf8_iff: "is_valid_utf8 s \<longleftrightarrow> valid_utf8 s"
  by (simp add: is_valid_utf8_def utf8_loop_iff)

section \<open>The specification of a specifier\<close>

text \<open>The segments between the slashes.\<close>

fun segments_of :: "string \<Rightarrow> string list" where
  "segments_of [] = [[]]"
| "segments_of (c # s) = (if c = CHR ''/'' then [] # segments_of s
     else (c # hd (segments_of s)) # tl (segments_of s))"

lemma segments_of_nonempty [simp]: "segments_of s \<noteq> []"
  by (cases s) simp_all

definition logical_name :: "string \<Rightarrow> bool" where
  "logical_name s \<longleftrightarrow> valid_utf8 s \<and> CHR 0x00 \<notin> set s \<and> CHR 0x5C \<notin> set s \<and>
     \<not> (\<exists>c. is_ascii_alpha c \<and> prefix [c, CHR '':''] s) \<and>
     (\<forall>segment\<in>set (segments_of s). segment \<notin> {'''', ''.'', ''..''}) \<and>
     \<not> suffix source_extension s"

definition specifier_accepted :: "string \<Rightarrow> (string \<Rightarrow> bool) option \<Rightarrow> specifier_limits \<Rightarrow> bool" where
  "specifier_accepted s is_nfc limits \<longleftrightarrow> logical_name s \<and>
     length s \<le> max_bytes limits \<and> length (segments_of s) \<le> max_segments limits \<and>
     ((\<forall>c\<in>set s. byte_of c < 0x80) \<or> (\<exists>check. is_nfc = Some check \<and> check s))"

lemma find_char_iff: "find_char c s i = None \<longleftrightarrow> c \<notin> set (drop i s)"
proof (induction c s i rule: find_char.induct)
  case (1 c s i)
  then show ?case
    by (subst find_char.simps) (auto simp: drop_eq_Cons_nth)
qed

lemma segments_of_drop:
  "segments_of (drop i s) = (case find_char CHR ''/'' s i of
      None \<Rightarrow> [drop i s]
    | Some j \<Rightarrow> take (j - i) (drop i s) # segments_of (drop (j + 1) s))"
proof (induction "CHR ''/''" s i rule: find_char.induct)
  case (1 s i)
  show ?case
  proof (cases "i < length s \<and> s ! i \<noteq> CHR ''/''")
    case True
    then have find: "find_char CHR ''/'' s i = find_char CHR ''/'' s (i + 1)"
      by (subst find_char.simps) simp
    have "take (j - i) (drop i s) = s ! i # take (j - Suc i) (drop (Suc i) s)"
      if "find_char CHR ''/'' s (i + 1) = Some j" for j
      using find_char_Some [OF that] True by (simp add: drop_eq_Cons_nth Suc_diff_Suc [symmetric])
    then show ?thesis
      using 1 True unfolding find by (auto simp: drop_eq_Cons_nth split: option.splits)
  next
    case False
    then show ?thesis
      by (subst find_char.simps) (auto simp: drop_eq_Cons_nth)
  qed
qed

lemma segment_loop_ok:
  "i \<le> length s \<Longrightarrow> segment_loop limits s i n = Inr () \<longleftrightarrow>
     (\<forall>segment\<in>set (segments_of (drop i s)). segment \<notin> {'''', ''.'', ''..''}) \<and>
     n + length (segments_of (drop i s)) \<le> max_segments limits"
proof (induction limits s i n rule: segment_loop.induct)
  case (1 limits s i n)
  show ?case
  proof (cases "find_char CHR ''/'' s i")
    case None
    then show ?thesis
      using 1(2) by (subst segment_loop.simps) (auto simp: segments_of_drop [of i] spec_fail_def Let_def)
  next
    case (Some j)
    then have j: "i \<le> j" "j + 1 \<le> length s" using find_char_Some [OF Some] by auto
    let ?segment = "take (j - i) (drop i s)"
    have split: "segments_of (drop i s) = ?segment # segments_of (drop (j + 1) s)"
      using segments_of_drop [of i s] Some by simp
    show ?thesis
    proof (cases "?segment \<in> {'''', ''.'', ''..''} \<or> n + 1 > max_segments limits")
      case True
      then show ?thesis
        unfolding split
        using 1(2) by (subst segment_loop.simps) (auto simp: Some spec_fail_def Let_def)
    next
      case False
      then have "segment_loop limits s i n = segment_loop limits s (j + 1) (n + 1)"
        using 1(2) by (subst segment_loop.simps) (auto simp: Some Let_def simp del: take_eq_Nil)
      moreover have "segment_loop limits s (j + 1) (n + 1) = Inr () \<longleftrightarrow>
         (\<forall>segment\<in>set (segments_of (drop (j + 1) s)). segment \<notin> {'''', ''.'', ''..''}) \<and>
         n + 1 + length (segments_of (drop (j + 1) s)) \<le> max_segments limits"
        using 1(1) [OF 1(2) Some [symmetric] refl refl] False Some j(2) by auto
      ultimately show ?thesis unfolding split using False by auto
    qed
  qed
qed

lemma nfc_check_ok:
  "nfc_check is_nfc s = Inr () \<longleftrightarrow>
     (\<forall>c\<in>set s. byte_of c < 0x80) \<or> (\<exists>check. is_nfc = Some check \<and> check s)"
  by (auto simp: nfc_check_def contains_non_ascii_def spec_fail_def list_ex_iff not_less split: option.splits)

lemma ends_with_suffix: "ends_with s t \<longleftrightarrow> suffix t s"
  by (metis ends_with_def append_eq_conv_conj append_take_drop_id suffixE suffixI length_append
      add_diff_cancel_right' le_add2)

lemma leading_slash_segment: "s \<noteq> [] \<Longrightarrow> hd s = CHR ''/'' \<Longrightarrow> '''' \<in> set (segments_of s)"
  by (cases s) auto

lemma drive_prefix:
  "(length s \<ge> 2 \<and> is_ascii_alpha (s ! 0) \<and> s ! 1 = CHR '':'') \<longleftrightarrow> (\<exists>c. is_ascii_alpha c \<and> prefix [c, CHR '':''] s)"
  by (cases s; cases "tl s") auto

lemma guard_eq_Inr: "(if b then Inl e else r) = Inr x \<longleftrightarrow> \<not> b \<and> r = Inr x"
  by simp

lemma validate_accepts:
  "validate_module_specifier s is_nfc limits = Inr m \<longleftrightarrow>
     specifier_accepted s is_nfc limits \<and> canonical_id m = s \<and>
     spec_kind m = (if prefix host_prefix s then HostModule else PackageModule)"
  (is "?l \<longleftrightarrow> ?r")
proof -
  have begins: "begins_with s host_prefix \<longleftrightarrow> prefix host_prefix s"
    by (metis append_eq_conv_conj begins_with_def prefix_def)
  have slash: "(\<forall>segment\<in>set (segments_of s). segment \<notin> {'''', ''.'', ''..''}) \<Longrightarrow> hd s \<noteq> CHR ''/'' \<and> s \<noteq> []"
    using leading_slash_segment [of s] by (cases "s = []") auto
  have positive: "s \<noteq> [] \<Longrightarrow> length s \<le> max_bytes limits \<Longrightarrow> max_bytes limits \<noteq> 0"
    "length (segments_of s) \<le> max_segments limits \<Longrightarrow> max_segments limits \<noteq> 0"
    using segments_of_nonempty [of s] by (metis le_zero_eq length_0_conv)+
  have m: "m = \<lparr>spec_kind = kind, canonical_id = s\<rparr> \<longleftrightarrow> canonical_id m = s \<and> spec_kind m = kind" for kind
    by (cases m) auto
  have loop: "segment_loop limits s 0 0 = Inr () \<longleftrightarrow>
      (\<forall>segment\<in>set (segments_of s). segment \<notin> {'''', ''.'', ''..''}) \<and> length (segments_of s) \<le> max_segments limits"
    using segment_loop_ok [of 0 s limits 0] by simp
  have unit: "(\<exists>u. r = Inr u \<and> P) \<longleftrightarrow> r = Inr () \<and> P" for r :: "(specifier_error, unit) result" and P
    by auto
  have suf: "length s \<ge> 5 \<and> ends_with s source_extension \<longleftrightarrow> suffix source_extension s"
    by (auto simp: ends_with_suffix source_extension_def dest: suffix_length_le)
  have "?l \<longleftrightarrow> max_bytes limits \<noteq> 0 \<and> max_segments limits \<noteq> 0 \<and> s \<noteq> [] \<and> length s \<le> max_bytes limits \<and>
      valid_utf8 s \<and> CHR 0x00 \<notin> set s \<and> nfc_check is_nfc s = Inr () \<and> hd s \<noteq> CHR ''/'' \<and>
      \<not> (\<exists>c. is_ascii_alpha c \<and> prefix [c, CHR '':''] s) \<and> CHR 0x5C \<notin> set s \<and>
      segment_loop limits s 0 0 = Inr () \<and> \<not> suffix source_extension s \<and>
      m = \<lparr>spec_kind = (if prefix host_prefix s then HostModule else PackageModule), canonical_id = s\<rparr>"
    unfolding validate_module_specifier_def
    by (simp only: spec_fail_def guard_eq_Inr bind_result_eq_Inr unit suf drive_prefix find_char_iff begins
        is_valid_utf8_iff drop_0 not_not not_less sum.inject de_Morgan_disj eq_commute [of m] conj_assoc)
  also have "\<dots> \<longleftrightarrow> ?r"
    unfolding specifier_accepted_def logical_name_def nfc_check_ok loop m using slash positive by argo
  finally show ?thesis .
qed

text \<open>C33 (validate_module_specifier_accepts): validation returns a specifier exactly for the names within the
  limits that are valid UTF-8 (and NFC as far as the embedding can tell), have no NUL, backslash,
  drive prefix or \<open>.baas\<close> extension, and whose slash-separated segments are neither empty nor
  \<open>.\<close> or \<open>..\<close>; the result is the name unchanged, of host kind if it begins with \<open>baas/\<close>.\<close>

theorem validate_module_specifier_accepts:
  "validate_module_specifier s is_nfc limits = Inr m \<longleftrightarrow>
     specifier_accepted s is_nfc limits \<and> canonical_id m = s \<and>
     spec_kind m = (if prefix host_prefix s then HostModule else PackageModule)"
  by (rule validate_accepts)

lemma segments_of_append_plain:
  "CHR ''/'' \<notin> set t \<Longrightarrow> segments_of (s @ t) = butlast (segments_of s) @ [last (segments_of s) @ t]"
proof (induction s)
  case Nil
  then show ?case by (induction t) auto
next
  case (Cons c s)
  then show ?case by (cases "segments_of s") auto
qed

text \<open>C32 (manifest_path_confined): the manifest path of an accepted package module is a relative path that
  cannot leave the directory it is resolved in: it has no drive prefix, backslash or NUL, and each
  of its segments is a name other than the empty one, \<open>.\<close> and \<open>..\<close>.\<close>

theorem manifest_path_confined:
  assumes "validate_module_specifier s is_nfc limits = Inr m" "manifest_source_path m = Inr path"
  shows "path = s @ source_extension \<and> CHR 0x00 \<notin> set path \<and> CHR 0x5C \<notin> set path \<and>
    \<not> (\<exists>c. is_ascii_alpha c \<and> prefix [c, CHR '':''] path) \<and>
    (\<forall>segment\<in>set (segments_of path). segment \<notin> {'''', ''.'', ''..''})"
proof -
  have s: "logical_name s" and path: "path = s @ source_extension"
    using assms by (auto simp: validate_accepts specifier_accepted_def manifest_source_path_def split: if_splits)
  have ext: "CHR ''/'' \<notin> set source_extension" by (simp add: source_extension_def)
  have nonempty: "s \<noteq> []" using s by (auto simp: logical_name_def)
  have "segment \<notin> {'''', ''.'', ''..''}" if "segment \<in> set (segments_of path)" for segment
  proof -
    from that consider "segment \<in> set (butlast (segments_of s))"
      | "segment = last (segments_of s) @ source_extension"
      by (auto simp: path segments_of_append_plain [OF ext])
    then show ?thesis
      using s by cases (auto simp: logical_name_def source_extension_def append_eq_Cons_conv dest: in_set_butlastD)
  qed
  moreover have "\<not> prefix [c, CHR '':''] path" if "is_ascii_alpha c" for c
  proof
    assume p: "prefix [c, CHR '':''] path"
    then show False
      using s that nonempty unfolding path logical_name_def source_extension_def
      by (cases s; cases "tl s") auto
  qed
  moreover have "CHR 0x00 \<notin> set path" "CHR 0x5C \<notin> set path"
    using s by (auto simp: path logical_name_def source_extension_def)
  ultimately show ?thesis using path by blast
qed

lemma manifest_path_confined_witness:
  "list_all (\<lambda>segment. segment \<notin> {'''', ''.'', ''..''}) (segments_of ''ui/home.baas'')"
proof -
  have "validate_module_specifier ''ui/home'' None default_specifier_limits =
      Inr \<lparr>spec_kind = PackageModule, canonical_id = ''ui/home''\<rparr>"
    by code_simp
  moreover have "manifest_source_path \<lparr>spec_kind = PackageModule, canonical_id = ''ui/home''\<rparr> = Inr ''ui/home.baas''"
    by code_simp
  ultimately show ?thesis unfolding list_all_iff using manifest_path_confined by blast
qed

end
