(* ===== verification/ModuleGraph.thy ===== *)
theory ModuleGraph
  imports ModuleSpecifier "HOL-Library.Char_ord" "HOL-Library.List_Lexorder"
begin

text \<open>
  The import graph of a package (src/include/script/runtime/ModuleGraph.h,
  src/src/script/runtime/ModuleGraph.cpp): the checks of the modules and their imports, the
  search for a cycle (strongly connected components by two traversals, then a path inside the
  selected one) and the initialization order.  Every round of every loop is charged to a work
  budget, which also bounds the recursion of the loops here.  A \<open>std::map\<close> is its association
  list in ascending order of the keys, the min-heap is the ascending list of its elements, and a
  \<open>std::vector<bool>\<close> is a list.
\<close>

section \<open>Types\<close>

datatype graph_error_code =
    ModuleLimitExceeded | ImportEdgeLimitExceeded | ValidationWorkLimitExceeded | DuplicateModule
  | HostModuleDefinition | MissingModule | ImportCycle

fun module_graph_error_code_name :: "graph_error_code \<Rightarrow> string" where
  "module_graph_error_code_name ModuleLimitExceeded = ''MG001_MODULE_LIMIT_EXCEEDED''"
| "module_graph_error_code_name ImportEdgeLimitExceeded = ''MG002_IMPORT_EDGE_LIMIT_EXCEEDED''"
| "module_graph_error_code_name ValidationWorkLimitExceeded = ''MG003_VALIDATION_WORK_LIMIT_EXCEEDED''"
| "module_graph_error_code_name DuplicateModule = ''MG004_DUPLICATE_MODULE''"
| "module_graph_error_code_name HostModuleDefinition = ''MG005_HOST_MODULE_DEFINITION''"
| "module_graph_error_code_name MissingModule = ''MG006_MISSING_MODULE''"
| "module_graph_error_code_name ImportCycle = ''MG007_IMPORT_CYCLE''"

datatype graph_error =
    GraphInvalidArgument string
  | GraphLogicError string
  | GraphSpecifierError specifier_error
  | ModuleGraphError graph_error_code string string "string list"

record module_definition =
  md_id :: string
  md_imports :: "string list"

record graph_limits =
  max_modules :: nat
  max_import_edges :: nat
  max_validation_work :: nat
  gl_specifier :: specifier_limits

definition default_graph_limits :: graph_limits where
  "default_graph_limits = \<lparr>max_modules = 4096, max_import_edges = 65536, max_validation_work = 1000000,
     gl_specifier = default_specifier_limits\<rparr>"

record validated_graph =
  initialization_order :: "string list"
  package_import_edges :: nat
  host_import_edges :: nat
  validation_work :: nat

type_synonym graph = "nat list list"

definition graph_fail :: "graph_error_code \<Rightarrow> string \<Rightarrow> string \<Rightarrow> (graph_error, 'a) result" where
  "graph_fail code message module = Inl (ModuleGraphError code message module [])"

text \<open>\<open>WorkBudget::charge\<close>: the work used so far, and one more.\<close>

definition charge :: "nat \<Rightarrow> nat \<Rightarrow> (graph_error, nat) result" where
  "charge limit used = (if used \<ge> limit
     then graph_fail ValidationWorkLimitExceeded ''module graph validation work limit exceeded'' ''''
     else Inr (used + 1))"

definition propagate :: "(specifier_error, 'a) result \<Rightarrow> (graph_error, 'a) result" where
  "propagate r = (case r of Inl e \<Rightarrow> Inl (GraphSpecifierError e) | Inr a \<Rightarrow> Inr a)"

section \<open>Modules and edges\<close>

text \<open>\<open>std::map::emplace\<close>: the map, and whether the key was new.\<close>

fun emplace :: "'k::linorder \<Rightarrow> 'v \<Rightarrow> ('k \<times> 'v) list \<Rightarrow> ('k \<times> 'v) list \<times> bool" where
  "emplace k v [] = ([(k, v)], True)"
| "emplace k v ((k', v') # m) =
    (if k < k' then ((k, v) # (k', v') # m, True)
     else if k = k' then ((k', v') # m, False)
     else let (m', inserted) = emplace k v m in ((k', v') # m', inserted))"

fun collect_modules ::
  "(string \<Rightarrow> bool) option \<Rightarrow> graph_limits \<Rightarrow> module_definition list \<Rightarrow> (string \<times> module_definition) list \<Rightarrow> nat \<Rightarrow>
   (graph_error, (string \<times> module_definition) list \<times> nat) result" where
  "collect_modules is_nfc limits [] ordered used = Inr (ordered, used)"
| "collect_modules is_nfc limits (module # modules) ordered used =
     bind_result (charge (max_validation_work limits) used) (\<lambda>used.
       bind_result (propagate (validate_module_specifier (md_id module) is_nfc (gl_specifier limits))) (\<lambda>specifier.
         if spec_kind specifier \<noteq> PackageModule then
           graph_fail HostModuleDefinition ''host module cannot be defined by a package'' (md_id module)
         else let (ordered', inserted) = emplace (canonical_id specifier) module ordered in
           if \<not> inserted then
             graph_fail DuplicateModule ''duplicate package module definition'' (canonical_id specifier)
           else collect_modules is_nfc limits modules ordered' used))"

record edge_state =
  es_edges :: graph
  es_reverse :: graph
  es_total :: nat
  es_package :: nat
  es_host :: nat
  es_used :: nat

fun import_loop ::
  "(string \<Rightarrow> bool) option \<Rightarrow> graph_limits \<Rightarrow> string list \<Rightarrow> nat \<Rightarrow> string list \<Rightarrow> edge_state \<Rightarrow>
   (graph_error, edge_state) result" where
  "import_loop is_nfc limits ids source [] st = Inr st"
| "import_loop is_nfc limits ids source (imported_id # imports) st =
     bind_result (charge (max_validation_work limits) (es_used st)) (\<lambda>used.
       if es_total st \<ge> max_import_edges limits then
         graph_fail ImportEdgeLimitExceeded ''import edge count exceeds graph limit'' (ids ! source)
       else let st1 = st\<lparr>es_used := used, es_total := es_total st + 1\<rparr> in
         bind_result (propagate (validate_module_specifier imported_id is_nfc (gl_specifier limits))) (\<lambda>imported.
           if spec_kind imported = HostModule then
             import_loop is_nfc limits ids source imports (st1\<lparr>es_host := es_host st1 + 1\<rparr>)
           else (case map_of (zip ids [0..<length ids]) (canonical_id imported) of
               None \<Rightarrow> graph_fail MissingModule ''imported package module is absent from the graph''
                         (canonical_id imported)
             | Some target \<Rightarrow> import_loop is_nfc limits ids source imports
                 (st1\<lparr>es_package := es_package st1 + 1,
                      es_edges := (es_edges st1)[source := es_edges st1 ! source @ [target]],
                      es_reverse := (es_reverse st1)[target := es_reverse st1 ! target @ [source]]\<rparr>))))"

fun source_loop ::
  "(string \<Rightarrow> bool) option \<Rightarrow> graph_limits \<Rightarrow> string list \<Rightarrow> nat \<Rightarrow> module_definition list \<Rightarrow> edge_state \<Rightarrow>
   (graph_error, edge_state) result" where
  "source_loop is_nfc limits ids source [] st = Inr st"
| "source_loop is_nfc limits ids source (module # definitions) st =
     bind_result (import_loop is_nfc limits ids source (md_imports module) st) (\<lambda>st'.
       source_loop is_nfc limits ids (source + 1) definitions st')"

section \<open>Strongly connected components\<close>

text \<open>The first traversal.  The top of a stack is the head of its list; a frame is a node and the
  number of its next edge.\<close>

function finish_loop ::
  "nat \<Rightarrow> graph \<Rightarrow> bool list \<Rightarrow> (nat \<times> nat) list \<Rightarrow> nat list \<Rightarrow> nat \<Rightarrow>
   (graph_error, bool list \<times> nat list \<times> nat) result" where
  "finish_loop limit edges visited [] finish_order used = Inr (visited, finish_order, used)"
| "finish_loop limit edges visited ((node, next_edge) # stack) finish_order used =
     bind_result (charge limit used) (\<lambda>used'.
       if next_edge < length (edges ! node) then
         let target = edges ! node ! next_edge in
         if \<not> visited ! target then
           finish_loop limit edges (visited[target := True]) ((target, 0) # (node, next_edge + 1) # stack)
             finish_order used'
         else finish_loop limit edges visited ((node, next_edge + 1) # stack) finish_order used'
       else finish_loop limit edges visited stack (finish_order @ [node]) used')"
  by pat_completeness auto
termination
  by (relation "measure (\<lambda>(limit, edges, visited, stack, finish_order, used). limit - used)")
    (auto simp: charge_def graph_fail_def split: if_splits)

fun finish_roots ::
  "nat \<Rightarrow> graph \<Rightarrow> nat list \<Rightarrow> bool list \<Rightarrow> nat list \<Rightarrow> nat \<Rightarrow> (graph_error, bool list \<times> nat list \<times> nat) result" where
  "finish_roots limit edges [] visited finish_order used = Inr (visited, finish_order, used)"
| "finish_roots limit edges (root # roots) visited finish_order used =
    (if visited ! root then finish_roots limit edges roots visited finish_order used
     else bind_result (finish_loop limit edges (visited[root := True]) [(root, 0)] finish_order used)
       (\<lambda>(visited', finish_order', used'). finish_roots limit edges roots visited' finish_order' used'))"

text \<open>The second traversal, along the reversed edges.\<close>

fun push_unvisited :: "nat list \<Rightarrow> bool list \<Rightarrow> nat list \<Rightarrow> bool list \<times> nat list" where
  "push_unvisited [] visited stack = (visited, stack)"
| "push_unvisited (target # targets) visited stack =
    (if \<not> visited ! target then push_unvisited targets (visited[target := True]) (target # stack)
     else push_unvisited targets visited stack)"

function component_loop ::
  "nat \<Rightarrow> graph \<Rightarrow> bool list \<Rightarrow> nat list \<Rightarrow> nat list \<Rightarrow> nat \<Rightarrow> (graph_error, bool list \<times> nat list \<times> nat) result" where
  "component_loop limit reverse_edges visited [] component used = Inr (visited, component, used)"
| "component_loop limit reverse_edges visited (node # stack) component used =
     bind_result (charge limit used) (\<lambda>used'.
       let (visited', stack') = push_unvisited (reverse_edges ! node) visited stack in
       component_loop limit reverse_edges visited' stack' (component @ [node]) used')"
  by pat_completeness auto
termination
  by (relation "measure (\<lambda>(limit, reverse_edges, visited, stack, component, used). limit - used)")
    (auto simp: charge_def graph_fail_def split: if_splits)

definition has_self_edge :: "nat \<Rightarrow> graph \<Rightarrow> bool" where
  "has_self_edge node edges = List.member (edges ! node) node"

definition min_element :: "nat list \<Rightarrow> nat" where
  "min_element xs = fold min (tl xs) (hd xs)"

definition is_cyclic :: "nat list \<Rightarrow> graph \<Rightarrow> bool" where
  "is_cyclic component edges \<longleftrightarrow> length component > 1 \<or>
     (length component = 1 \<and> has_self_edge (hd component) edges)"

fun select_loop ::
  "nat \<Rightarrow> graph \<Rightarrow> graph \<Rightarrow> nat list \<Rightarrow> bool list \<Rightarrow> nat list \<Rightarrow> nat \<Rightarrow> nat \<Rightarrow> (graph_error, nat list \<times> nat) result" where
  "select_loop limit edges reverse_edges [] visited selected_component selected_min used = Inr (selected_component, used)"
| "select_loop limit edges reverse_edges (root # roots) visited selected_component selected_min used =
    (if visited ! root then
       select_loop limit edges reverse_edges roots visited selected_component selected_min used
     else bind_result (component_loop limit reverse_edges (visited[root := True]) [root] [] used)
       (\<lambda>(visited', component, used').
         if \<not> is_cyclic component edges then
           select_loop limit edges reverse_edges roots visited' selected_component selected_min used'
         else if min_element component < selected_min then
           select_loop limit edges reverse_edges roots visited' component (min_element component) used'
         else select_loop limit edges reverse_edges roots visited' selected_component selected_min used'))"

section \<open>The cycle\<close>

definition members :: "nat \<Rightarrow> nat list \<Rightarrow> bool list" where
  "members n component = fold (\<lambda>node member. member[node := True]) component (replicate n False)"

function cycle_loop ::
  "nat \<Rightarrow> graph \<Rightarrow> string list \<Rightarrow> bool list \<Rightarrow> nat \<Rightarrow> bool list \<Rightarrow> nat list \<Rightarrow> (nat \<times> nat) list \<Rightarrow> nat \<Rightarrow>
   (graph_error, string list \<times> nat) result" where
  "cycle_loop limit edges ids member start visited path [] used =
     Inl (GraphLogicError ''strongly connected component did not contain a cycle'')"
| "cycle_loop limit edges ids member start visited path ((node, next_edge) # stack) used =
     bind_result (charge limit used) (\<lambda>used'.
       if next_edge \<ge> length (edges ! node) then
         cycle_loop limit edges ids member start visited (butlast path) stack used'
       else let target = edges ! node ! next_edge; stack' = (node, next_edge + 1) # stack in
         if \<not> member ! target then cycle_loop limit edges ids member start visited path stack' used'
         else if target = start then Inr (map (\<lambda>node. ids ! node) path @ [ids ! start], used')
         else if visited ! target then cycle_loop limit edges ids member start visited path stack' used'
         else cycle_loop limit edges ids member start (visited[target := True]) (path @ [target])
                ((target, 0) # stack') used')"
  by pat_completeness auto
termination
  by (relation "measure (\<lambda>(limit, edges, ids, member, start, visited, path, stack, used). limit - used)")
    (auto simp: charge_def graph_fail_def split: if_splits)

definition find_cycle ::
  "nat \<Rightarrow> nat list \<Rightarrow> string list \<Rightarrow> graph \<Rightarrow> nat \<Rightarrow> (graph_error, string list \<times> nat) result" where
  "find_cycle limit component ids edges used = (let start = min_element component in
     cycle_loop limit edges ids (members (length ids) component) start
       ((replicate (length ids) False)[start := True]) [start] [(start, 0)] used)"

section \<open>The initialization order\<close>

definition dependents_of :: "graph \<Rightarrow> graph" where
  "dependents_of edges = fold (\<lambda>importer dependents.
       fold (\<lambda>dependency dependents. dependents[dependency := dependents ! dependency @ [importer]])
         (edges ! importer) dependents)
     [0..<length edges] (replicate (length edges) [])"

text \<open>The loop over the importers of a module that has been emitted.\<close>

fun release_importers :: "nat list \<Rightarrow> nat list \<Rightarrow> nat list \<Rightarrow> nat list \<times> nat list" where
  "release_importers [] remaining ready = (remaining, ready)"
| "release_importers (importer # importers) remaining ready =
    (let remaining' = remaining[importer := remaining ! importer - 1] in
     release_importers importers remaining'
       (if remaining' ! importer = 0 then insort importer ready else ready))"

function order_loop ::
  "nat \<Rightarrow> graph \<Rightarrow> nat list \<Rightarrow> nat list \<Rightarrow> nat list \<Rightarrow> nat \<Rightarrow> (graph_error, nat list \<times> nat) result" where
  "order_loop limit dependents remaining [] order used = Inr (order, used)"
| "order_loop limit dependents remaining (dependency # ready) order used =
     bind_result (charge limit used) (\<lambda>used'.
       let (remaining', ready') = release_importers (dependents ! dependency) remaining ready in
       order_loop limit dependents remaining' ready' (order @ [dependency]) used')"
  by pat_completeness auto
termination
  by (relation "measure (\<lambda>(limit, dependents, remaining, ready, order, used). limit - used)")
    (auto simp: charge_def graph_fail_def split: if_splits)

section \<open>Validation\<close>

definition report_cycle :: "nat \<Rightarrow> nat list \<Rightarrow> string list \<Rightarrow> graph \<Rightarrow> nat \<Rightarrow> (graph_error, nat) result" where
  "report_cycle limit selected ids edges used =
    (if selected \<noteq> [] then bind_result (find_cycle limit selected ids edges used) (\<lambda>(cycle, used').
       Inl (ModuleGraphError ImportCycle ''package import graph contains a cycle'' (hd cycle) cycle))
     else Inr used)"

definition initial_order :: "nat \<Rightarrow> graph \<Rightarrow> nat \<Rightarrow> (graph_error, nat list \<times> nat) result" where
  "initial_order limit edges used = (let remaining = map length edges in
     order_loop limit (dependents_of edges) remaining
       (filter (\<lambda>node. remaining ! node = 0) [0..<length edges]) [] used)"

definition empty_edges :: "nat \<Rightarrow> nat \<Rightarrow> edge_state" where
  "empty_edges n used = \<lparr>es_edges = replicate n [], es_reverse = replicate n [], es_total = 0,
     es_package = 0, es_host = 0, es_used = used\<rparr>"

text \<open>From the edges to the result: both traversals, the cycle, the order.\<close>

definition validate_edges :: "nat \<Rightarrow> string list \<Rightarrow> edge_state \<Rightarrow> (graph_error, validated_graph) result" where
  "validate_edges work ids st = (let n = length ids in
     bind_result (finish_roots work (es_edges st) [0..<n] (replicate n False) [] (es_used st))
       (\<lambda>(visited, finish_order, used).
     bind_result (select_loop work (es_edges st) (es_reverse st) (rev finish_order) (replicate n False) [] n used)
       (\<lambda>(selected, used).
     bind_result (report_cycle work selected ids (es_edges st) used) (\<lambda>used.
     bind_result (initial_order work (es_edges st) used) (\<lambda>(order, used).
       if length order \<noteq> n then Inl (GraphLogicError ''acyclic module graph did not produce a complete order'')
       else Inr \<lparr>initialization_order = map (\<lambda>node. ids ! node) order, package_import_edges = es_package st,
                 host_import_edges = es_host st, validation_work = used\<rparr>)))))"

definition validate_module_graph ::
  "module_definition list \<Rightarrow> (string \<Rightarrow> bool) option \<Rightarrow> graph_limits \<Rightarrow> (graph_error, validated_graph) result" where
  "validate_module_graph modules is_nfc limits =
    (if max_modules limits = 0 \<or> max_import_edges limits = 0 \<or> max_validation_work limits = 0 then
       Inl (GraphInvalidArgument ''module graph limits must be positive'')
     else if length modules > max_modules limits then
       graph_fail ModuleLimitExceeded ''module count exceeds graph limit'' ''''
     else bind_result (collect_modules is_nfc limits modules [] 0) (\<lambda>(ordered, used).
       let ids = map fst ordered in
       bind_result (source_loop is_nfc limits ids 0 (map snd ordered) (empty_edges (length ids) used))
         (validate_edges (max_validation_work limits) ids)))"

end
