(* ===== verification/ModuleGraph_Correct.thy ===== *)
theory ModuleGraph_Correct
  imports ModuleGraph "HOL-Library.Multiset"
begin

text \<open>
  Correctness of the module graph: the finishing order of the first traversal, the strongly
  connected components of the second, the cycle that is reported, the order in which the modules
  are initialized, and the work that is charged.
\<close>

section \<open>Graphs and marks\<close>

definition edge_rel :: "graph \<Rightarrow> (nat \<times> nat) set" where
  "edge_rel es = {(u, v). u < length es \<and> v \<in> set (es ! u)}"

definition graph_ok :: "nat \<Rightarrow> graph \<Rightarrow> bool" where
  "graph_ok n es \<longleftrightarrow> length es = n \<and> (\<forall>u<n. set (es ! u) \<subseteq> {..<n})"

definition marked :: "bool list \<Rightarrow> nat set" where
  "marked bs = {i. i < length bs \<and> bs ! i}"

lemma marked_simps [simp]:
  "marked (replicate n False) = {}"
  "i < length bs \<Longrightarrow> marked (bs[i := True]) = insert i (marked bs)"
  by (auto simp: marked_def nth_list_update)

lemma nth_marked: "i < length bs \<Longrightarrow> bs ! i \<longleftrightarrow> i \<in> marked bs"
  by (simp add: marked_def)

lemma graph_ok_target: "graph_ok n es \<Longrightarrow> u < n \<Longrightarrow> i < length (es ! u) \<Longrightarrow> es ! u ! i < n"
  unfolding graph_ok_def by (meson lessThan_iff nth_mem subsetD)

lemma edge_relI: "graph_ok n es \<Longrightarrow> u < n \<Longrightarrow> i < length (es ! u) \<Longrightarrow> (u, es ! u ! i) \<in> edge_rel es"
  by (auto simp: graph_ok_def edge_rel_def)

lemma edge_rel_bounds: "graph_ok n es \<Longrightarrow> (u, v) \<in> edge_rel es \<Longrightarrow> u < n \<and> v < n"
  by (auto simp: graph_ok_def edge_rel_def)

lemma charge_Inr [simp]: "charge limit used = Inr used' \<longleftrightarrow> used < limit \<and> used' = Suc used"
  by (auto simp: charge_def graph_fail_def)

lemma charge_ok [simp]: "used < limit \<Longrightarrow> charge limit used = Inr (Suc used)"
  by simp

section \<open>The first traversal\<close>

text \<open>When a node is finished, the edges of the finished nodes lead to finished nodes or to
  nodes from which it can be reached (those still on the stack).\<close>

definition finish_ordered :: "graph \<Rightarrow> nat list \<Rightarrow> bool" where
  "finish_ordered es fs \<longleftrightarrow> (\<forall>xs x ys u v. fs = xs @ x # ys \<longrightarrow> u \<in> insert x (set xs) \<longrightarrow>
     (u, v) \<in> edge_rel es \<longrightarrow> v \<in> insert x (set xs) \<or> (v, x) \<in> (edge_rel es)\<^sup>*)"

fun stack_path :: "graph \<Rightarrow> nat list \<Rightarrow> bool" where
  "stack_path es (u # w # us) \<longleftrightarrow> (w, u) \<in> edge_rel es \<and> stack_path es (w # us)"
| "stack_path es us \<longleftrightarrow> True"

definition scanned :: "graph \<Rightarrow> nat set \<Rightarrow> (nat \<times> nat) list \<Rightarrow> bool" where
  "scanned es vis stack \<longleftrightarrow> (\<forall>(u, k)\<in>set stack. \<forall>i<k. i < length (es ! u) \<longrightarrow> es ! u ! i \<in> vis)"

lemma scanned_Cons:
  "scanned es vis ((u, k) # stack) \<longleftrightarrow> (\<forall>i<k. i < length (es ! u) \<longrightarrow> es ! u ! i \<in> vis) \<and> scanned es vis stack"
  by (auto simp: scanned_def)

lemma scanned_mono: "scanned es vis stack \<Longrightarrow> vis \<subseteq> vis' \<Longrightarrow> scanned es vis' stack"
  by (fastforce simp: scanned_def)

lemma scanned_next:
  "scanned es vis ((u, k) # stack) \<Longrightarrow> es ! u ! k \<in> vis \<Longrightarrow> scanned es vis ((u, k + 1) # stack)"
  by (auto simp: scanned_Cons less_Suc_eq)

definition closed_in :: "graph \<Rightarrow> nat set \<Rightarrow> nat list \<Rightarrow> bool" where
  "closed_in es vis us \<longleftrightarrow> (\<forall>u\<in>set us. set (es ! u) \<subseteq> vis)"

lemma closed_in_mono: "closed_in es vis us \<Longrightarrow> vis \<subseteq> vis' \<Longrightarrow> closed_in es vis' us"
  by (fastforce simp: closed_in_def)

definition finish_inv :: "nat \<Rightarrow> graph \<Rightarrow> bool list \<Rightarrow> (nat \<times> nat) list \<Rightarrow> nat list \<Rightarrow> bool" where
  "finish_inv n es visited stack fs \<longleftrightarrow> graph_ok n es \<and> length visited = n \<and>
     marked visited = set fs \<union> set (map fst stack) \<and> distinct (fs @ map fst stack) \<and>
     stack_path es (map fst stack) \<and> scanned es (marked visited) stack \<and>
     closed_in es (marked visited) fs \<and> finish_ordered es fs"

lemma stack_path_reaches: "stack_path es (u # us) \<Longrightarrow> w \<in> set us \<Longrightarrow> (w, u) \<in> (edge_rel es)\<^sup>*"
proof (induction us arbitrary: u)
  case (Cons w' us)
  then have "(w', u) \<in> edge_rel es" "w = w' \<or> (w, w') \<in> (edge_rel es)\<^sup>*" by auto
  then show ?case by auto
qed simp

lemma finish_ordered_append:
  assumes "finish_ordered es fs"
    and "\<And>u v. u \<in> insert x (set fs) \<Longrightarrow> (u, v) \<in> edge_rel es \<Longrightarrow> v \<in> insert x (set fs) \<or> (v, x) \<in> (edge_rel es)\<^sup>*"
  shows "finish_ordered es (fs @ [x])"
  unfolding finish_ordered_def
proof (intro allI impI)
  fix xs y ys u v
  assume *: "fs @ [x] = xs @ y # ys" "u \<in> insert y (set xs)" "(u, v) \<in> edge_rel es"
  show "v \<in> insert y (set xs) \<or> (v, y) \<in> (edge_rel es)\<^sup>*"
  proof (cases ys rule: rev_cases)
    case Nil
    with * assms(2) show ?thesis by auto
  next
    case (snoc ys' z)
    with *(1) have "fs = xs @ y # ys'" by simp
    with assms(1) *(2,3) show ?thesis unfolding finish_ordered_def by blast
  qed
qed

lemma finish_invD:
  assumes "finish_inv n es visited stack fs"
  shows "graph_ok n es" "length visited = n" "marked visited = set fs \<union> set (map fst stack)"
    "distinct (fs @ map fst stack)" "stack_path es (map fst stack)" "scanned es (marked visited) stack"
    "closed_in es (marked visited) fs" "finish_ordered es fs"
  using assms unfolding finish_inv_def by blast+

lemma finish_inv_node: "finish_inv n es visited ((u, k) # stack) fs \<Longrightarrow> u < n"
  by (auto simp: finish_inv_def marked_def)

lemma finish_inv_push:
  assumes "finish_inv n es visited ((u, k) # stack) fs" "k < length (es ! u)" "\<not> visited ! (es ! u ! k)"
  shows "finish_inv n es (visited[es ! u ! k := True]) ((es ! u ! k, 0) # (u, k + 1) # stack) fs"
proof -
  let ?t = "es ! u ! k"
  have ok: "graph_ok n es" "length visited = n" and u: "u < n"
    using assms(1) finish_inv_node by (auto simp: finish_inv_def)
  have t: "?t < n" "(u, ?t) \<in> edge_rel es" using ok u assms(2) by (auto intro: graph_ok_target edge_relI)
  then have new: "?t \<notin> marked visited" using assms(3) ok by (simp add: nth_marked)
  have "scanned es (insert ?t (marked visited)) ((?t, 0) # (u, k + 1) # stack)"
    using scanned_next [OF scanned_mono [OF finish_invD(6) [OF assms(1)] subset_insertI]]
    by (simp add: scanned_Cons [of _ _ ?t])
  moreover have "closed_in es (insert ?t (marked visited)) fs"
    using assms(1) by (auto simp: finish_inv_def intro: closed_in_mono)
  moreover have "distinct (fs @ ?t # u # map fst stack)"
    using assms(1) new by (auto simp: finish_inv_def)
  moreover have "insert ?t (marked visited) = set fs \<union> set (?t # u # map fst stack)"
    using assms(1) by (auto simp: finish_inv_def)
  ultimately show ?thesis
    using assms(1) t ok by (simp add: finish_inv_def)
qed

lemma finish_inv_skip:
  assumes "finish_inv n es visited ((u, k) # stack) fs" "k < length (es ! u)" "visited ! (es ! u ! k)"
  shows "finish_inv n es visited ((u, k + 1) # stack) fs"
proof -
  have "es ! u ! k \<in> marked visited"
    using assms finish_inv_node [OF assms(1)] by (auto simp: finish_inv_def marked_def intro: graph_ok_target)
  then have "scanned es (marked visited) ((u, k + 1) # stack)"
    by (rule scanned_next [OF finish_invD(6) [OF assms(1)]])
  with finish_invD [OF assms(1)] show ?thesis unfolding finish_inv_def list.map fst_conv by blast
qed

lemma finish_inv_pop:
  assumes inv: "finish_inv n es visited ((u, k) # stack) fs" and k: "length (es ! u) \<le> k"
  shows "finish_inv n es visited stack (fs @ [u])"
proof -
  have all: "set (es ! u) \<subseteq> marked visited"
    using finish_invD(6) [OF inv] k by (auto simp: scanned_Cons in_set_conv_nth)
  have "finish_ordered es (fs @ [u])"
  proof (rule finish_ordered_append)
    show "finish_ordered es fs" using inv by (simp add: finish_inv_def)
    fix w v assume "w \<in> insert u (set fs)" "(w, v) \<in> edge_rel es"
    then have "v \<in> marked visited" using finish_invD(7) [OF inv] all by (auto simp: closed_in_def edge_rel_def)
    then have "v \<in> insert u (set fs) \<or> v \<in> set (map fst stack)" using inv by (auto simp: finish_inv_def)
    then show "v \<in> insert u (set fs) \<or> (v, u) \<in> (edge_rel es)\<^sup>*"
      using inv stack_path_reaches [of es u "map fst stack" v] by (auto simp: finish_inv_def)
  qed
  moreover have "stack_path es (map fst stack)"
    using inv by (cases stack) (auto simp: finish_inv_def)
  ultimately show ?thesis
    using finish_invD(1-4) [OF inv] finish_invD(6,7) [OF inv] all
    unfolding finish_inv_def by (simp add: scanned_Cons closed_in_def)
qed

lemma finish_loop_inv:
  "finish_loop limit es visited stack fs used = Inr (visited', fs', used') \<Longrightarrow> finish_inv n es visited stack fs \<Longrightarrow>
   finish_inv n es visited' [] fs' \<and> marked visited \<subseteq> marked visited'"
proof (induction limit es visited stack fs used rule: finish_loop.induct)
  case (2 limit es visited u k stack fs used)
  note inv = "2.prems"(2) and IH = "2.IH"
  have used: "charge limit used = Inr (Suc used)" using "2.prems"(1) by auto
  consider (new) "k < length (es ! u)" "\<not> visited ! (es ! u ! k)" | (old) "k < length (es ! u)" "visited ! (es ! u ! k)"
    | (popped) "\<not> k < length (es ! u)" by blast
  then show ?case
  proof cases
    case new
    have "marked (visited[es ! u ! k := True]) = insert (es ! u ! k) (marked visited)"
      using graph_ok_target [OF finish_invD(1) [OF inv] finish_inv_node [OF inv] new(1)] finish_invD(2) [OF inv]
      by simp
    moreover have "finish_inv n es visited' [] fs' \<and> marked (visited[es ! u ! k := True]) \<subseteq> marked visited'"
      using "2.prems"(1) new used by (intro IH(1) [OF used new(1) refl new(2) _ finish_inv_push [OF inv new]]) (simp add: Let_def)
    ultimately show ?thesis by blast
  next
    case old
    then show ?thesis
      using "2.prems"(1) used by (intro IH(2) [OF used old(1) refl _ _ finish_inv_skip [OF inv old]]) (simp_all add: Let_def)
  next
    case popped
    then show ?thesis
      using "2.prems"(1) used by (intro IH(3) [OF used popped _ finish_inv_pop [OF inv]]) simp_all
  qed
qed simp

lemma finish_inv_root:
  assumes "finish_inv n es visited [] fs" "root < n" "\<not> visited ! root"
  shows "finish_inv n es (visited[root := True]) [(root, 0)] fs"
proof -
  note I = finish_invD [OF assms(1)]
  have marks: "marked (visited[root := True]) = insert root (marked visited)" "root \<notin> marked visited"
    using assms(2,3) I(2) by (simp_all add: nth_marked)
  moreover have "closed_in es (insert root (marked visited)) fs"
    by (rule closed_in_mono [OF I(7)]) blast
  ultimately show ?thesis
    unfolding finish_inv_def marks using I assms(2) by (simp add: scanned_def)
qed

lemma finish_roots_inv:
  "finish_roots limit es roots visited fs used = Inr (visited', fs', used') \<Longrightarrow> finish_inv n es visited [] fs \<Longrightarrow>
   set roots \<subseteq> {..<n} \<Longrightarrow>
   finish_inv n es visited' [] fs' \<and> marked visited \<subseteq> marked visited' \<and> set roots \<subseteq> marked visited'"
proof (induction limit es roots visited fs used rule: finish_roots.induct)
  case (2 limit es root roots visited fs used)
  show ?case
  proof (cases "visited ! root")
    case True
    then have "root \<in> marked visited" using 2(5) finish_invD(2) [OF 2(4)] by (simp add: nth_marked)
    then show ?thesis using 2 True by auto
  next
    case False
    then obtain visited1 fs1 used1 where
      loop: "finish_loop limit es (visited[root := True]) [(root, 0)] fs used = Inr (visited1, fs1, used1)"
      and rest: "finish_roots limit es roots visited1 fs1 used1 = Inr (visited', fs', used')"
      using 2(3) by auto
    have root: "root < n" using 2(5) by simp
    note one = finish_loop_inv [OF loop finish_inv_root [OF 2(4) root False]]
    have "marked (visited[root := True]) = insert root (marked visited)"
      using root finish_invD(2) [OF 2(4)] by simp
    then show ?thesis
      using 2(2) [OF False loop refl refl rest] one 2(5) by auto
  qed
qed simp

lemma finish_roots_correct:
  assumes "finish_roots limit es [0..<n] (replicate n False) [] used = Inr (visited', fs, used')" "graph_ok n es"
  shows "set fs = {..<n}" "distinct fs" "finish_ordered es fs"
proof -
  have start: "finish_inv n es (replicate n False) [] []"
    using assms(2) by (simp add: finish_inv_def scanned_def closed_in_def finish_ordered_def)
  have all: "finish_inv n es visited' [] fs" "{..<n} \<subseteq> marked visited'"
    using finish_roots_inv [OF assms(1) start] by (simp_all add: atLeast0LessThan)
  then have "set fs = marked visited'" "length visited' = n"
    using finish_invD(2,3) [of n es visited' "[]" fs] by auto
  with all(2) show "set fs = {..<n}" by (auto simp: marked_def)
  show "distinct fs" "finish_ordered es fs" using all finish_invD(4,8) [of n es visited' "[]" fs] by auto
qed

section \<open>The second traversal\<close>

text \<open>A path that ends in a node that finishes later than its first one, and that stays among the
  nodes finished up to then, can be gone back.\<close>

lemma finish_ordered_back:
  assumes "finish_ordered es fs" "distinct fs" "set fs = {..<n}" "graph_ok n es"
    and "fs = xs @ r # ys"
    and "(x, r) \<in> (Restr (edge_rel es) (insert r (set xs)))\<^sup>*" "x \<in> insert r (set xs)"
  shows "(r, x) \<in> (edge_rel es)\<^sup>*"
  using assms(6,7)
proof (induction "length xs - length (takeWhile (\<lambda>y. y \<noteq> x) xs)" arbitrary: x rule: less_induct)
  case less
  show ?case
  proof (cases "x = r")
    case False
    then have "x \<in> set xs" using less.prems(2) by simp
    then obtain as bs where xs: "xs = as @ x # bs" "x \<notin> set as" by (meson split_list_first)
    have fs: "fs = as @ x # bs @ r # ys" using assms(5) xs by simp
    have r: "r \<notin> insert x (set as)" using assms(2) by (auto simp: fs)
    text \<open>The first node of the path that finishes after \<open>x\<close>.\<close>
    have "\<exists>s. s \<in> insert r (set bs) \<and> (s, x) \<in> (edge_rel es)\<^sup>* \<and> (s, r) \<in> (Restr (edge_rel es) (insert r (set xs)))\<^sup>*"
      if "(u, r) \<in> (Restr (edge_rel es) (insert r (set xs)))\<^sup>*" "u \<in> insert x (set as)" for u
      using that
    proof (induction rule: converse_rtrancl_induct)
      case base
      with r show ?case by blast
    next
      case (step u w)
      then have "(u, w) \<in> edge_rel es" "w \<in> insert r (set xs)" by auto
      then have "w \<in> insert x (set as) \<or> w \<in> insert r (set bs) \<and> (w, x) \<in> (edge_rel es)\<^sup>*"
        using assms(1) step.prems unfolding finish_ordered_def fs xs(1) by (metis Un_iff insert_iff list.set(2) set_append)
      then show ?case using step by blast
    qed
    with less.prems(1) obtain s where s: "s \<in> insert r (set bs)" "(s, x) \<in> (edge_rel es)\<^sup>*"
      "(s, r) \<in> (Restr (edge_rel es) (insert r (set xs)))\<^sup>*" by blast
    have notin: "s \<notin> set as" "s \<noteq> x" using s(1) assms(2) by (auto simp: fs)
    have "(r, s) \<in> (edge_rel es)\<^sup>*"
    proof (cases "s = r")
      case False
      have "takeWhile (\<lambda>y. y \<noteq> x) xs = as" unfolding xs(1) by (subst takeWhile_append2) (use xs(2) in auto)
      moreover have "length as < length (takeWhile (\<lambda>y. y \<noteq> s) xs)"
      proof -
        have "takeWhile (\<lambda>y. y \<noteq> s) xs = (as @ [x]) @ takeWhile (\<lambda>y. y \<noteq> s) bs"
          using notin unfolding xs(1) by (subst takeWhile_append2) auto
        then show ?thesis by simp
      qed
      moreover have "length (takeWhile (\<lambda>y. y \<noteq> x) xs) < length xs" using xs calculation(1) by simp
      ultimately show ?thesis
        using s False xs(1) by (intro less.hyps) auto
    qed simp
    with s(2) show ?thesis by auto
  qed simp
qed

subsection \<open>One component\<close>

definition reverse_ok :: "nat \<Rightarrow> graph \<Rightarrow> graph \<Rightarrow> bool" where
  "reverse_ok n es rs \<longleftrightarrow> length rs = n \<and> (\<forall>v<n. set (rs ! v) = {u. (u, v) \<in> edge_rel es})"

lemma push_unvisited_result:
  "push_unvisited ts vis st = (vis', st') \<Longrightarrow> set ts \<subseteq> {..<length vis} \<Longrightarrow>
   \<exists>new. st' = new @ st \<and> distinct new \<and> set new = set ts - marked vis \<and> length vis' = length vis \<and>
     marked vis' = marked vis \<union> set ts"
proof (induction ts vis st rule: push_unvisited.induct)
  case (2 t ts vis st)
  then have t: "t < length vis" by simp
  show ?case
  proof (cases "vis ! t")
    case True
    then show ?thesis using 2 t by (auto simp: nth_marked insert_absorb)
  next
    case False
    then obtain new where "st' = new @ t # st" "distinct new" "set new = set ts - insert t (marked vis)"
      "length vis' = length vis" "marked vis' = insert t (marked vis) \<union> set ts"
      using 2(1) 2(3,4) t by auto
    then show ?thesis
      using False t by (intro exI [of _ "new @ [t]"]) (auto simp: nth_marked)
  qed
qed simp

definition component_inv ::
  "nat \<Rightarrow> graph \<Rightarrow> graph \<Rightarrow> nat set \<Rightarrow> nat \<Rightarrow> bool list \<Rightarrow> nat list \<Rightarrow> nat list \<Rightarrow> bool" where
  "component_inv n es rs V root visited stack part \<longleftrightarrow> graph_ok n es \<and> reverse_ok n es rs \<and>
     length visited = n \<and> marked visited = V \<union> set part \<union> set stack \<and> V \<inter> (set part \<union> set stack) = {} \<and>
     distinct (part @ stack) \<and> set stack \<subseteq> {..<n} \<and> root \<in> set part \<union> set stack \<and>
     (\<forall>x\<in>set part \<union> set stack. (x, root) \<in> (Restr (edge_rel es) (- V))\<^sup>*) \<and>
     (\<forall>(u, v)\<in>edge_rel es. v \<in> set part \<longrightarrow> u \<in> marked visited)"

lemma component_invD:
  assumes "component_inv n es rs V root visited stack part"
  shows "graph_ok n es" "reverse_ok n es rs" "length visited = n" "marked visited = V \<union> set part \<union> set stack"
    "V \<inter> (set part \<union> set stack) = {}" "distinct (part @ stack)" "set stack \<subseteq> {..<n}" "root \<in> set part \<union> set stack"
    "x \<in> set part \<union> set stack \<Longrightarrow> (x, root) \<in> (Restr (edge_rel es) (- V))\<^sup>*"
    "(u, v) \<in> edge_rel es \<Longrightarrow> v \<in> set part \<Longrightarrow> u \<in> marked visited"
  using assms unfolding component_inv_def by blast+

lemma component_inv_step:
  assumes inv: "component_inv n es rs V root visited (node # stack) part"
    and push: "push_unvisited (rs ! node) visited stack = (visited', stack')"
  shows "component_inv n es rs V root visited' stack' (part @ [node])"
proof -
  note I = component_invD [OF inv]
  have node: "node < n" "node \<notin> V" using I(5,7) by auto
  then have rs: "set (rs ! node) = {u. (u, node) \<in> edge_rel es}" using I(2) by (auto simp: reverse_ok_def)
  then have bound: "set (rs ! node) \<subseteq> {..<n}" using I(1) edge_rel_bounds [of n es] by auto
  from push_unvisited_result [OF push] I(3) bound obtain new where
    new: "stack' = new @ stack" "distinct new" "set new = set (rs ! node) - marked visited"
    and vis: "length visited' = n" "marked visited' = marked visited \<union> set (rs ! node)" by auto
  have old: "set new \<inter> (V \<union> set part \<union> {node} \<union> set stack) = {}" using new(3) I(4) by auto
  have reach: "(x, root) \<in> (Restr (edge_rel es) (- V))\<^sup>*" if "x \<in> set new" for x
  proof -
    have "(x, node) \<in> Restr (edge_rel es) (- V)" using that new(3) rs I(4) node by auto
    moreover have "(node, root) \<in> (Restr (edge_rel es) (- V))\<^sup>*" by (rule I(9)) simp
    ultimately show ?thesis by (rule converse_rtrancl_into_rtrancl)
  qed
  show ?thesis
    unfolding component_inv_def
  proof (intro conjI)
    show "marked visited' = V \<union> set (part @ [node]) \<union> set stack'" using I(4) new(1,3) vis(2) by auto
    show "V \<inter> (set (part @ [node]) \<union> set stack') = {}" using I(5) new(1) old by auto
    show "distinct ((part @ [node]) @ stack')" using I(6) new(1,2) old by auto
    show "set stack' \<subseteq> {..<n}" using I(7) new(1,3) bound by auto
    show "root \<in> set (part @ [node]) \<union> set stack'" using I(8) new(1) by auto
    show "\<forall>x\<in>set (part @ [node]) \<union> set stack'. (x, root) \<in> (Restr (edge_rel es) (- V))\<^sup>*"
      using I(9) new(1) reach by auto
    show "\<forall>(u, v)\<in>edge_rel es. v \<in> set (part @ [node]) \<longrightarrow> u \<in> marked visited'"
      using I(10) rs vis(2) by auto
  qed (fact I(1) I(2) vis(1))+
qed

lemma component_loop_inv:
  "component_loop limit rs visited stack part used = Inr (visited', part', used') \<Longrightarrow>
   component_inv n es rs V root visited stack part \<Longrightarrow> component_inv n es rs V root visited' [] part'"
proof (induction limit rs visited stack part used rule: component_loop.induct)
  case (2 limit rs visited node stack part used)
  obtain visited1 stack1 where push: "push_unvisited (rs ! node) visited stack = (visited1, stack1)" by force
  have used: "charge limit used = Inr (Suc used)" using "2.prems"(1) by auto
  show ?case
    using "2.prems"(1) used push
    by (intro "2.IH" [OF used push [symmetric] refl _ component_inv_step [OF "2.prems"(2) push]]) simp
qed simp

lemma component_loop_correct:
  assumes "component_loop limit rs (visited[root := True]) [root] [] used = Inr (visited', part, used')"
    "graph_ok n es" "reverse_ok n es rs" "length visited = n" "root < n" "\<not> visited ! root"
  shows "set part = {x. (x, root) \<in> (Restr (edge_rel es) (- marked visited))\<^sup>*}" "distinct part" "length visited' = n"
    "marked visited' = marked visited \<union> set part"
proof -
  have start: "component_inv n es rs (marked visited) root (visited[root := True]) [root] []"
    using assms(2-6) by (simp add: component_inv_def nth_marked)
  note I = component_loop_inv [OF assms(1) start, unfolded component_inv_def]
  then show "distinct part" "length visited' = n" "marked visited' = marked visited \<union> set part" by simp_all
  have "x \<in> set part" if "(x, root) \<in> (Restr (edge_rel es) (- marked visited))\<^sup>*" for x
    using that
  proof (induction rule: converse_rtrancl_induct)
    case (step x y)
    then have "x \<in> marked visited'" "x \<notin> marked visited" using I by auto
    then show ?case using I by auto
  qed (use I in simp)
  then show "set part = {x. (x, root) \<in> (Restr (edge_rel es) (- marked visited))\<^sup>*}" using I by auto
qed

subsection \<open>All components\<close>

definition scc :: "graph \<Rightarrow> nat \<Rightarrow> nat set" where
  "scc es x = {y. (x, y) \<in> (edge_rel es)\<^sup>* \<and> (y, x) \<in> (edge_rel es)\<^sup>*}"

abbreviation on_cycle :: "graph \<Rightarrow> nat \<Rightarrow> bool" where
  "on_cycle es x \<equiv> (x, x) \<in> (edge_rel es)\<^sup>+"

lemma scc_refl [simp]: "x \<in> scc es x"
  by (simp add: scc_def)

lemma scc_eq: "y \<in> scc es x \<Longrightarrow> scc es y = scc es x"
  by (auto simp: scc_def intro: rtrancl_trans)

lemma on_cycle_scc: "y \<in> scc es x \<Longrightarrow> on_cycle es x \<Longrightarrow> on_cycle es y"
  by (cases "x = y") (auto simp: scc_def rtrancl_eq_or_trancl)

lemma scc_path:
  assumes "(x, y) \<in> (edge_rel es)\<^sup>*" "y \<in> scc es r" "(r, x) \<in> (edge_rel es)\<^sup>*"
  shows "(x, y) \<in> (Restr (edge_rel es) (scc es r))\<^sup>*"
  using assms(1,3)
proof (induction rule: converse_rtrancl_induct)
  case (step x z)
  have rz: "(r, z) \<in> (edge_rel es)\<^sup>*" using step by (meson rtrancl.rtrancl_into_rtrancl)
  moreover have "(z, r) \<in> (edge_rel es)\<^sup>*" "(x, r) \<in> (edge_rel es)\<^sup>*"
    using step assms(2) by (auto simp: scc_def intro: rtrancl_trans converse_rtrancl_into_rtrancl)
  ultimately have "(x, z) \<in> Restr (edge_rel es) (scc es r)" using step by (simp add: scc_def)
  then show ?case using step.IH [OF rz] by (meson converse_rtrancl_into_rtrancl)
qed simp

lemma component_is_scc:
  assumes fs: "finish_ordered es fs" "distinct fs" "set fs = {..<n}" "graph_ok n es" "fs = xs @ r # ys"
    and V: "set ys \<subseteq> V" "\<And>x. x \<in> V \<Longrightarrow> scc es x \<subseteq> V" "r \<notin> V"
  shows "{x. (x, r) \<in> (Restr (edge_rel es) (- V))\<^sup>*} = scc es r"
proof
  show "{x. (x, r) \<in> (Restr (edge_rel es) (- V))\<^sup>*} \<subseteq> scc es r"
  proof
    fix x assume "x \<in> {x. (x, r) \<in> (Restr (edge_rel es) (- V))\<^sup>*}"
    then have x: "(x, r) \<in> (Restr (edge_rel es) (- V))\<^sup>*" by simp
    have inside: "v \<in> insert r (set xs)" if "v < n" "v \<notin> V" for v
      using that V(1) fs(3) unfolding fs(5) by auto
    then have "Restr (edge_rel es) (- V) \<subseteq> Restr (edge_rel es) (insert r (set xs))"
      using edge_rel_bounds [OF fs(4)] by blast
    with x have path: "(x, r) \<in> (Restr (edge_rel es) (insert r (set xs)))\<^sup>*" by (meson rtrancl_mono subsetD)
    have "x \<in> insert r (set xs)"
      using x inside edge_rel_bounds [OF fs(4)] by (cases rule: converse_rtranclE) auto
    with finish_ordered_back [OF fs path] have "(r, x) \<in> (edge_rel es)\<^sup>*" by blast
    moreover have "(x, r) \<in> (edge_rel es)\<^sup>*" using path by (meson Int_lower1 rtrancl_mono subsetD)
    ultimately show "x \<in> scc es r" by (simp add: scc_def)
  qed
next
  have "scc es r \<subseteq> - V"
    using V(2,3) scc_eq scc_refl by fastforce
  then have "(Restr (edge_rel es) (scc es r))\<^sup>* \<subseteq> (Restr (edge_rel es) (- V))\<^sup>*"
    by (intro rtrancl_mono) blast
  then show "scc es r \<subseteq> {x. (x, r) \<in> (Restr (edge_rel es) (- V))\<^sup>*}"
    using scc_path [of _ r es r] by (auto simp: scc_def)
qed

lemma min_element_Min: "xs \<noteq> [] \<Longrightarrow> min_element xs = Min (set xs)"
  unfolding min_element_def by (cases xs) (auto simp only: list.sel Min.set_eq_fold)

lemma is_cyclic_iff:
  assumes "set part = scc es r" "distinct part" "r < length es"
  shows "is_cyclic part es \<longleftrightarrow> on_cycle es r"
proof -
  have part: "part \<noteq> []" using assms(1) scc_refl by fastforce
  show ?thesis
  proof (cases "length part > 1")
    case True
    then obtain a b where "a \<in> set part" "b \<in> set part" "a \<noteq> b"
      by (metis assms(2) nth_eq_iff_index_eq nth_mem zero_less_one less_trans zero_neq_one)
    then obtain y where "y \<in> scc es r" "y \<noteq> r" using assms(1) by auto
    then have "on_cycle es r" by (auto simp: scc_def rtrancl_eq_or_trancl intro: trancl_trans)
    with True show ?thesis by (simp add: is_cyclic_def)
  next
    case False
    with part obtain a where "part = [a]" by (cases part) auto
    then have a: "part = [r]" using assms(1) scc_refl [of r es] by auto
    have "on_cycle es r \<longleftrightarrow> r \<in> set (es ! r)"
    proof
      assume "on_cycle es r"
      then obtain y where y: "(r, y) \<in> edge_rel es" "(y, r) \<in> (edge_rel es)\<^sup>*" by (meson tranclD)
      then have "y \<in> scc es r" by (auto simp: scc_def)
      with y show "r \<in> set (es ! r)" using assms(1) a by (auto simp: edge_rel_def)
    qed (use assms(3) in \<open>auto simp: edge_rel_def\<close>)
    then show ?thesis using a by (simp add: is_cyclic_def has_self_edge_def)
  qed
qed

text \<open>The component selected so far holds the least node that lies on a cycle.\<close>

definition selection_ok :: "nat \<Rightarrow> graph \<Rightarrow> nat set \<Rightarrow> nat list \<Rightarrow> nat \<Rightarrow> bool" where
  "selection_ok n es V selected m \<longleftrightarrow> (\<forall>x\<in>V. on_cycle es x \<longrightarrow> selected \<noteq> [] \<and> m \<le> x) \<and>
     (if selected = [] then m = n
      else set selected = scc es m \<and> m = min_element selected \<and> on_cycle es m \<and> m \<in> V)"

lemma selection_ok_add:
  assumes sel: "selection_ok n es V selected m"
    and part: "set part = scc es r" "distinct part" "r < n" "set part \<subseteq> {..<n}" "length es = n"
    and c: "is_cyclic part es"
  shows "selection_ok n es (V \<union> set part) (if min_element part < m then part else selected)
    (if min_element part < m then min_element part else m)"
proof -
  let ?m = "min_element part"
  have part_ne: "part \<noteq> []" using part(1) scc_refl by fastforce
  then have m: "?m \<in> set part" "\<And>x. x \<in> set part \<Longrightarrow> ?m \<le> x" by (simp_all add: min_element_Min)
  have cyc: "on_cycle es r" using c is_cyclic_iff [OF part(1,2)] part(3,5) by simp
  have "scc es ?m = set part" using scc_eq [of ?m es r] m(1) part(1) by simp
  moreover have "on_cycle es ?m" using on_cycle_scc [OF _ cyc] m(1) part(1) by simp
  moreover have "selected = [] \<Longrightarrow> ?m < m" using sel m(1) part(4) by (auto simp: selection_ok_def)
  ultimately have min: "set part = scc es ?m" "on_cycle es ?m" "selected = [] \<Longrightarrow> ?m < m" by simp_all
  show ?thesis
  proof (cases "?m < m")
    case True
    then have "?m \<le> x" if "x \<in> V" "on_cycle es x" for x
      using sel that unfolding selection_ok_def by (meson le_trans less_imp_le)
    with True m min part_ne show ?thesis by (auto simp: selection_ok_def)
  next
    case False
    then have "m \<le> x" if "x \<in> set part" for x using m(2) [OF that] by simp
    with False min(3) sel show ?thesis unfolding selection_ok_def by auto
  qed
qed

lemma selection_ok_skip:
  assumes "selection_ok n es V selected m" "set part = scc es r" "distinct part" "r < n" "length es = n"
    "\<not> is_cyclic part es"
  shows "selection_ok n es (V \<union> set part) selected m"
proof -
  have "\<not> on_cycle es r" using is_cyclic_iff [OF assms(2,3)] assms(4-6) by simp
  then have "\<not> on_cycle es x" if "x \<in> set part" for x
    using that on_cycle_scc [of r es x] scc_eq [of x es r] scc_refl [of r es] assms(2) by auto
  with assms(1) show ?thesis unfolding selection_ok_def by auto
qed

lemma select_loop_correct:
  assumes fs: "finish_ordered es fs" "distinct fs" "set fs = {..<n}" "graph_ok n es" "reverse_ok n es rs"
  shows "select_loop limit es rs roots visited selected m used = Inr (selected', used') \<Longrightarrow>
    fs = rev roots @ ys \<Longrightarrow> set ys \<subseteq> marked visited \<Longrightarrow> length visited = n \<Longrightarrow>
    (\<And>x. x \<in> marked visited \<Longrightarrow> scc es x \<subseteq> marked visited) \<Longrightarrow> selection_ok n es (marked visited) selected m \<Longrightarrow>
    \<exists>m'. selection_ok n es {..<n} selected' m'"
proof (induction roots arbitrary: ys visited selected m used)
  case Nil
  then have "marked visited = {..<n}" using fs(3) by (auto simp: marked_def)
  with Nil show ?case by auto
next
  case (Cons root roots)
  note prems = Cons.prems
  have split: "fs = rev roots @ root # ys" using prems(2) by simp
  have root: "root < n" using fs(3) split by auto
  show ?case
  proof (cases "visited ! root")
    case True
    then have "root \<in> marked visited" using root prems(4) by (simp add: nth_marked)
    then show ?thesis
      using prems(1) True prems(3) by (intro Cons.IH [OF _ split _ prems(4-6)]) simp_all
  next
    case False
    obtain visited1 part used1 where
      loop: "component_loop limit rs (visited[root := True]) [root] [] used = Inr (visited1, part, used1)"
      using prems(1) False by auto
    have "root \<notin> marked visited" using False root prems(4) by (simp add: nth_marked)
    then have scc: "{x. (x, root) \<in> (Restr (edge_rel es) (- marked visited))\<^sup>*} = scc es root"
      using prems(5) component_is_scc [OF fs(1-4) split prems(3)] by blast
    note C = component_loop_correct [OF loop fs(4,5) prems(4) root False]
    have part: "set part = scc es root" using C(1) scc by simp
    have bound: "set part \<subseteq> {..<n}" using C(3,4) by (auto simp: marked_def)
    have len: "length es = n" using fs(4) by (simp add: graph_ok_def)
    have V: "set (root # ys) \<subseteq> marked visited1" using C(4) prems(3) part by auto
    have closed: "scc es x \<subseteq> marked visited1" if "x \<in> marked visited1" for x
      using that prems(5) scc_eq [of x es root] part unfolding C(4) by auto
    show ?thesis
    proof (cases "is_cyclic part es")
      case cyclic: True
      note sel = selection_ok_add [OF prems(6) part C(2) root bound len cyclic, folded C(4)]
      show ?thesis
      proof (cases "min_element part < m")
        case True
        have rest: "select_loop limit es rs roots visited1 part (min_element part) used1 = Inr (selected', used')"
          using prems(1) False loop cyclic True by simp
        show ?thesis using sel True by (intro Cons.IH [OF rest split V C(3) closed]) simp_all
      next
        case min: False
        have rest: "select_loop limit es rs roots visited1 selected m used1 = Inr (selected', used')"
          using prems(1) False loop cyclic min by simp
        show ?thesis using sel min by (intro Cons.IH [OF rest split V C(3) closed]) simp_all
      qed
    next
      case acyclic: False
      note sel = selection_ok_skip [OF prems(6) part C(2) root len acyclic, folded C(4)]
        have rest: "select_loop limit es rs roots visited1 selected m used1 = Inr (selected', used')"
          using prems(1) False loop acyclic by simp
        show ?thesis using sel by (intro Cons.IH [OF rest split V C(3) closed]) simp_all
    qed
  qed
qed

section \<open>The reported cycle\<close>

definition cycle_path :: "graph \<Rightarrow> nat \<Rightarrow> nat list \<Rightarrow> bool" where
  "cycle_path es start p \<longleftrightarrow> p \<noteq> [] \<and> hd p = start \<and> successively (\<lambda>u v. (u, v) \<in> edge_rel es) (p @ [start])"

lemma stack_path_rev: "stack_path es us \<longleftrightarrow> successively (\<lambda>u v. (u, v) \<in> edge_rel es) (rev us)"
  by (induction es us rule: stack_path.induct) (auto simp: successively_append_iff)

definition searched :: "graph \<Rightarrow> nat set \<Rightarrow> nat \<Rightarrow> nat set \<Rightarrow> nat \<Rightarrow> bool" where
  "searched es C start V t \<longleftrightarrow> (t \<in> C \<longrightarrow> t \<in> V \<and> t \<noteq> start)"

definition cycle_inv ::
  "nat \<Rightarrow> graph \<Rightarrow> bool list \<Rightarrow> nat \<Rightarrow> bool list \<Rightarrow> nat list \<Rightarrow> (nat \<times> nat) list \<Rightarrow> bool" where
  "cycle_inv n es member start visited path stack \<longleftrightarrow> graph_ok n es \<and> length visited = n \<and> length member = n \<and>
     path = rev (map fst stack) \<and> stack_path es (map fst stack) \<and>
     set (map fst stack) \<subseteq> marked visited \<and> start \<in> marked visited \<and> (stack \<noteq> [] \<longrightarrow> fst (last stack) = start) \<and>
     (\<forall>(u, k)\<in>set stack. \<forall>i<k. i < length (es ! u) \<longrightarrow>
        searched es (marked member) start (marked visited) (es ! u ! i)) \<and>
     (\<forall>u\<in>marked visited - set (map fst stack). \<forall>t\<in>set (es ! u).
        searched es (marked member) start (marked visited) t)"

lemma cycle_invD:
  assumes "cycle_inv n es member start visited path stack"
  shows "graph_ok n es" "length visited = n" "length member = n" "path = rev (map fst stack)"
    "stack_path es (map fst stack)" "set (map fst stack) \<subseteq> marked visited" "start \<in> marked visited"
    "stack \<noteq> [] \<Longrightarrow> fst (last stack) = start"
    "(u, k) \<in> set stack \<Longrightarrow> i < k \<Longrightarrow> i < length (es ! u) \<Longrightarrow>
       searched es (marked member) start (marked visited) (es ! u ! i)"
    "u \<in> marked visited \<Longrightarrow> u \<notin> set (map fst stack) \<Longrightarrow> t \<in> set (es ! u) \<Longrightarrow>
       searched es (marked member) start (marked visited) t"
  using assms unfolding cycle_inv_def by blast+

lemma searched_mono: "searched es C start V t \<Longrightarrow> V \<subseteq> V' \<Longrightarrow> searched es C start V' t"
  by (auto simp: searched_def)

lemma cycle_inv_pop:
  assumes inv: "cycle_inv n es member start visited path ((u, k) # stack)" and k: "length (es ! u) \<le> k"
  shows "cycle_inv n es member start visited (butlast path) stack"
proof -
  note I = cycle_invD [OF inv]
  have "searched es (marked member) start (marked visited) t" if "t \<in> set (es ! u)" for t
    using that I(9) [of u k] k by (fastforce simp: in_set_conv_nth)
  then have rest: "searched es (marked member) start (marked visited) t"
    if "w \<in> marked visited" "w \<notin> set (map fst stack)" "t \<in> set (es ! w)" for w t
    using that I(10) [of w t] by (cases "w = u") auto
  have "stack_path es (map fst stack)" using I(5) by (cases stack) auto
  then show ?thesis
    unfolding cycle_inv_def using I(1-4) I(6-8) I(9) rest by (auto split: if_splits)
qed

lemma cycle_inv_skip:
  assumes inv: "cycle_inv n es member start visited path ((u, k) # stack)"
    and t: "searched es (marked member) start (marked visited) (es ! u ! k)"
  shows "cycle_inv n es member start visited path ((u, k + 1) # stack)"
proof -
  note I = cycle_invD [OF inv]
  have "searched es (marked member) start (marked visited) (es ! u ! i)" if "i < k + 1" "i < length (es ! u)" for i
    using that I(9) [of u k i] t by (cases "i = k") auto
  then show ?thesis
    unfolding cycle_inv_def using I(1-8) I(9) I(10) by (auto split: if_splits)
qed

lemma cycle_inv_push:
  assumes inv: "cycle_inv n es member start visited path ((u, k) # stack)" and k: "k < length (es ! u)"
    and t: "\<not> visited ! (es ! u ! k)" "es ! u ! k \<noteq> start"
  shows "cycle_inv n es member start (visited[es ! u ! k := True]) (path @ [es ! u ! k])
    ((es ! u ! k, 0) # (u, k + 1) # stack)"
proof -
  let ?t = "es ! u ! k" and ?V = "insert (es ! u ! k) (marked visited)"
  note I = cycle_invD [OF inv]
  have u: "u < n" using I(2,6) by (auto simp: marked_def)
  have target: "?t < n" "(u, ?t) \<in> edge_rel es" using I(1) u k by (auto intro: graph_ok_target edge_relI)
  then have V: "marked (visited[?t := True]) = ?V" using I(2) by simp
  have old: "searched es (marked member) start ?V (es ! w ! i)"
    if "(w, j) \<in> set ((u, k) # stack)" "i < j" "i < length (es ! w)" for w j i
    using searched_mono [OF I(9) [OF that]] by blast
  have new: "searched es (marked member) start ?V ?t" using t(2) by (simp add: searched_def)
  have frames: "searched es (marked member) start ?V (es ! w ! i)"
    if "(w, j) \<in> set ((?t, 0) # (u, k + 1) # stack)" "i < j" "i < length (es ! w)" for w j i
    using that old [of w j i] old [of u k i] new by (cases "i = k") auto
  have rest: "searched es (marked member) start ?V x"
    if "w \<in> ?V" "w \<notin> insert ?t (insert u (set (map fst stack)))" "x \<in> set (es ! w)" for w x
    using that searched_mono [OF I(10) subset_insertI] by simp
  show ?thesis
    unfolding cycle_inv_def V
  proof (intro conjI)
    show "stack_path es (map fst ((?t, 0) # (u, k + 1) # stack))" using I(5) target by simp
    show "\<forall>(w, j)\<in>set ((?t, 0) # (u, k + 1) # stack). \<forall>i<j. i < length (es ! w) \<longrightarrow>
        searched es (marked member) start ?V (es ! w ! i)" using frames by blast
    show "\<forall>w\<in>?V - set (map fst ((?t, 0) # (u, k + 1) # stack)). \<forall>x\<in>set (es ! w).
        searched es (marked member) start ?V x" using rest by (simp only: list.map fst_conv list.set) blast
  qed (use I in \<open>auto split: if_splits\<close>)
qed

lemma cycle_loop_correct:
  "cycle_inv n es member start visited path stack \<Longrightarrow> (start, start) \<in> (Restr (edge_rel es) (marked member))\<^sup>+ \<Longrightarrow>
   case cycle_loop limit es ids member start visited path stack used of
     Inl e \<Rightarrow> charge limit limit = Inl e
   | Inr (cycle, used') \<Rightarrow> \<exists>p. cycle = map (\<lambda>u. ids ! u) (p @ [start]) \<and> cycle_path es start p"
proof (induction limit es ids member start visited path stack used rule: cycle_loop.induct)
  case (1 limit es ids member start visited path used)
  note I = cycle_invD [OF 1(1)]
  have "w \<in> marked visited" if "(start, w) \<in> (Restr (edge_rel es) (marked member))\<^sup>*" for w
    using that
  proof (induction rule: rtrancl_induct)
    case (step v w)
    then have "w \<in> set (es ! v)" "w \<in> marked member" by (auto simp: edge_rel_def)
    with I(10) [OF step.IH _ this(1)] show ?case by (simp add: searched_def)
  qed (rule I(7))
  moreover obtain w where w: "(start, w) \<in> (Restr (edge_rel es) (marked member))\<^sup>*" "(w, start) \<in> edge_rel es" "start \<in> marked member"
    using 1(2) by (meson IntD1 IntD2 mem_Sigma_iff tranclD2)
  ultimately have "w \<in> marked visited" "start \<in> set (es ! w)" by (auto simp: edge_rel_def)
  with I(10) [of w start] w(3) show ?case by (simp add: searched_def)
next
  case (2 limit es ids member start visited path u k stack used)
  note inv = "2.prems"(1) and cyc = "2.prems"(2) and IH = "2.IH"
  note I = cycle_invD [OF inv]
  have u: "u < n" using I(2,6) by (auto simp: marked_def)
  show ?case
  proof (cases "used < limit")
    case False
    then have "charge limit used = charge limit limit" by (simp add: charge_def)
    then show ?thesis using False by (simp add: charge_def graph_fail_def)
  next
    case True
    then have used: "charge limit used = Inr (Suc used)" by simp
    let ?t = "es ! u ! k"
    consider (popped) "length (es ! u) \<le> k" | (outside) "k < length (es ! u)" "\<not> member ! ?t"
      | (found) "k < length (es ! u)" "member ! ?t" "?t = start"
      | (old) "k < length (es ! u)" "member ! ?t" "?t \<noteq> start" "visited ! ?t"
      | (new) "k < length (es ! u)" "member ! ?t" "?t \<noteq> start" "\<not> visited ! ?t" by linarith
    then show ?thesis
    proof cases
      case popped
      then show ?thesis using IH(1) [OF used popped cycle_inv_pop [OF inv popped] cyc] True by simp
    next
      case outside
      have "?t < n" using graph_ok_target [OF I(1) u outside(1)] .
      then have "searched es (marked member) start (marked visited) ?t"
        using outside I(3) by (simp add: searched_def nth_marked)
      from IH(2) [OF used _ refl refl outside(2) cycle_inv_skip [OF inv this] cyc] show ?thesis
        using True outside by (simp add: Let_def)
    next
      case found
      have "(u, start) \<in> edge_rel es" using edge_relI [OF I(1) u found(1)] found(3) by simp
      then have "cycle_path es start path"
        using I(4,5,8) by (auto simp: cycle_path_def stack_path_rev successively_append_iff hd_rev last_map)
      then show ?thesis using True found by (auto simp: Let_def intro!: exI [of _ path])
    next
      case old
      have "?t < n" using graph_ok_target [OF I(1) u old(1)] .
      then have "searched es (marked member) start (marked visited) ?t"
        using old I(2) by (simp add: searched_def nth_marked)
      from IH(3) [OF used _ refl refl _ old(3,4) cycle_inv_skip [OF inv this] cyc] show ?thesis
        using True old by (simp add: Let_def)
    next
      case new
      from IH(4) [OF used _ refl refl _ new(3,4) cycle_inv_push [OF inv new(1,4,3)] cyc] show ?thesis
        using True new by (simp add: Let_def)
    qed
  qed
qed

lemma marked_members: "set part \<subseteq> {..<n} \<Longrightarrow> length (members n part) = n \<and> marked (members n part) = set part"
proof -
  have "length (fold (\<lambda>u m. m[u := True]) part m) = length m \<and>
      marked (fold (\<lambda>u m. m[u := True]) part m) = marked m \<union> set part" if "set part \<subseteq> {..<length m}" for m
    using that by (induction part arbitrary: m) auto
  from this [of "replicate n False"] show "set part \<subseteq> {..<n} \<Longrightarrow> ?thesis" by (simp add: members_def)
qed

lemma find_cycle_correct:
  assumes sel: "selection_ok n es {..<n} selected m" "selected \<noteq> []" and ok: "graph_ok n es" "length ids = n"
  shows "case find_cycle limit selected ids es used of
      Inl e \<Rightarrow> charge limit limit = Inl e
    | Inr (cycle, used') \<Rightarrow> \<exists>p. cycle = map (\<lambda>u. ids ! u) (p @ [m]) \<and> cycle_path es m p"
proof -
  have "set selected = scc es m \<and> m = min_element selected \<and> on_cycle es m \<and> m \<in> {..<n}"
    using sel unfolding selection_ok_def by argo
  then have m: "m < n" "set selected = scc es m" "m = min_element selected" "on_cycle es m" by blast+
  have "scc es m \<subseteq> {..<n}"
    using m(1) edge_rel_bounds [OF ok(1)] by (auto simp: scc_def elim: rtranclE)
  then have members: "length (members n selected) = n" "marked (members n selected) = scc es m"
    using marked_members [of selected n] m(2) by simp_all
  obtain y where y: "(m, y) \<in> edge_rel es" "(y, m) \<in> (edge_rel es)\<^sup>*" using m(4) by (meson tranclD)
  then have "(m, y) \<in> Restr (edge_rel es) (scc es m)" by (auto simp: scc_def)
  moreover have "(y, m) \<in> (Restr (edge_rel es) (scc es m))\<^sup>*"
    using y by (intro scc_path) auto
  ultimately have cyc: "(m, m) \<in> (Restr (edge_rel es) (marked (members n selected)))\<^sup>+"
    unfolding members by (rule rtrancl_into_trancl2)
  have "cycle_inv n es (members n selected) m ((replicate n False)[m := True]) [m] [(m, 0)]"
    using m(1) ok members(1) by (simp add: cycle_inv_def)
  from cycle_loop_correct [OF this cyc] show ?thesis
    by (simp add: find_cycle_def m(3) [symmetric] ok(2))
qed

section \<open>The initialization order\<close>

definition dependents_ok :: "nat \<Rightarrow> graph \<Rightarrow> graph \<Rightarrow> bool" where
  "dependents_ok n es ds \<longleftrightarrow> length ds = n \<and>
     (\<forall>v<n. \<forall>u. count_list (ds ! v) u = (if u < n then count_list (es ! u) v else 0))"

lemma count_list_replicate: "count_list (replicate k x) y = (if x = y then k else 0)"
  by (induction k) auto

lemma dependents_inner:
  "set deps \<subseteq> {..<length ds} \<Longrightarrow>
   let ds' = fold (\<lambda>d ds. ds[d := ds ! d @ [importer]]) deps ds in
   length ds' = length ds \<and> (\<forall>v<length ds. ds' ! v = ds ! v @ replicate (count_list deps v) importer)"
  by (induction deps arbitrary: ds) (auto simp: Let_def nth_list_update)

lemma dependents_of_ok:
  assumes "graph_ok n es"
  shows "dependents_ok n es (dependents_of es)"
proof -
  define step where "step importer ds = fold (\<lambda>d ds. ds[d := ds ! d @ [importer]]) (es ! importer) ds"
    for importer and ds :: graph
  have "length (fold step [0..<k] (replicate n [])) = n \<and> (\<forall>v<n. \<forall>u.
      count_list (fold step [0..<k] (replicate n []) ! v) u = (if u < k then count_list (es ! u) v else 0))"
    if "k \<le> n" for k
    using that
  proof (induction k)
    case (Suc k)
    then have "set (es ! k) \<subseteq> {..<length (fold step [0..<k] (replicate n []))}" "length es = n"
      using assms by (auto simp: graph_ok_def)
    from dependents_inner [OF this(1), of k] show ?case
      using Suc by (auto simp: Let_def step_def [symmetric] less_Suc_eq count_list_replicate)
  qed simp
  moreover have "dependents_of es = fold step [0..<n] (replicate n [])"
    using assms unfolding dependents_of_def graph_ok_def step_def [abs_def] by metis
  ultimately show ?thesis by (simp add: dependents_ok_def)
qed

lemma release_importers_result:
  assumes "release_importers ts rem ready = (rem', ready')" "set ts \<subseteq> {..<length rem}"
    "\<And>u. u < length rem \<Longrightarrow> count_list ts u \<le> rem ! u" "\<And>u. u \<in> set ready \<Longrightarrow> rem ! u = 0 \<and> u < length rem"
    "distinct ready" "sorted ready"
  shows "length rem' = length rem \<and> (\<forall>u<length rem. rem' ! u = rem ! u - count_list ts u) \<and>
    set ready' = set ready \<union> {u \<in> set ts. rem ! u = count_list ts u} \<and> distinct ready' \<and> sorted ready'"
  using assms
proof (induction ts rem ready rule: release_importers.induct)
  case (2 t ts rem ready)
  let ?rem = "rem[t := rem ! t - 1]"
  let ?ready = "if ?rem ! t = 0 then insort t ready else ready"
  have t: "t < length rem" "0 < rem ! t" using 2(3) 2(4) [of t] by auto
  have rest: "release_importers ts ?rem ?ready = (rem', ready')" using 2(2) by (simp add: Let_def)
  have count: "count_list ts u \<le> ?rem ! u" if "u < length ?rem" for u
    using 2(4) [of u] that t by (cases "u = t") auto
  have notin: "t \<notin> set ready" using 2(5) [of t] t(2) by auto
  have zero: "?rem ! u = 0 \<and> u < length ?rem" if "u \<in> set ?ready" for u
    using that 2(5) [of u] t by (cases "u = t") (auto simp: set_insort_key split: if_splits)
  have sorted: "distinct ?ready" "sorted ?ready"
    using 2(6,7) notin by (auto simp: distinct_insort sorted_insort)
  have "length rem' = length ?rem \<and> (\<forall>u<length ?rem. rem' ! u = ?rem ! u - count_list ts u) \<and>
    set ready' = set ?ready \<union> {u \<in> set ts. ?rem ! u = count_list ts u} \<and> distinct ready' \<and> sorted ready'"
    by (rule 2(1) [OF refl rest]) (use 2(3) count zero sorted in simp_all)
  then have IH: "length rem' = length ?rem" "\<forall>u<length ?rem. rem' ! u = ?rem ! u - count_list ts u"
    "set ready' = set ?ready \<union> {u \<in> set ts. ?rem ! u = count_list ts u}" "distinct ready'" "sorted ready'"
    by blast+
  have released: "u \<in> set ready' \<longleftrightarrow> u \<in> set ready \<union> {u \<in> set (t # ts). rem ! u = count_list (t # ts) u}" for u
  proof (cases "u = t")
    case True
    have "?rem ! t = rem ! t - 1" using t by simp
    moreover have "count_list ts t \<le> ?rem ! t" using count [of t] t by simp
    ultimately have "t \<in> set ts \<and> ?rem ! t = count_list ts t \<or> ?rem ! t = 0 \<longleftrightarrow> rem ! t = Suc (count_list ts t)"
      using t(2) count_list_0_iff [of ts t] by linarith
    then show ?thesis using IH(3) True notin by (auto simp: set_insort_key)
  next
    case False
    then show ?thesis using IH(3) by (auto simp: set_insort_key)
  qed
  have "rem' ! u = rem ! u - count_list (t # ts) u" if "u < length rem" for u
    using IH(2) that t by (cases "u = t") auto
  moreover have "set ready' = set ready \<union> {u \<in> set (t # ts). rem ! u = count_list (t # ts) u}"
    using released by blast
  ultimately show ?case using IH(1,4,5) by (simp only: length_list_update) blast
qed auto

text \<open>Every node of the order is the least one whose edges lead to earlier nodes only.\<close>

definition least_ready :: "nat \<Rightarrow> graph \<Rightarrow> nat set \<Rightarrow> nat \<Rightarrow> bool" where
  "least_ready n es earlier x \<longleftrightarrow> x < n \<and> x \<notin> earlier \<and> set (es ! x) \<subseteq> earlier \<and>
     (\<forall>u<n. u \<notin> earlier \<longrightarrow> set (es ! u) \<subseteq> earlier \<longrightarrow> x \<le> u)"

definition topological :: "nat \<Rightarrow> graph \<Rightarrow> nat list \<Rightarrow> bool" where
  "topological n es order \<longleftrightarrow> (\<forall>i<length order. least_ready n es (set (take i order)) (order ! i))"

definition open_edges :: "graph \<Rightarrow> nat set \<Rightarrow> nat \<Rightarrow> nat" where
  "open_edges es S u = length (filter (\<lambda>v. v \<notin> S) (es ! u))"

definition order_inv :: "nat \<Rightarrow> graph \<Rightarrow> nat list \<Rightarrow> nat list \<Rightarrow> nat list \<Rightarrow> bool" where
  "order_inv n es rem ready order \<longleftrightarrow> length rem = n \<and> (\<forall>u<n. rem ! u = open_edges es (set order) u) \<and>
     distinct ready \<and> sorted ready \<and>
     (\<forall>u. u \<in> set ready \<longleftrightarrow> u < n \<and> u \<notin> set order \<and> set (es ! u) \<subseteq> set order) \<and> topological n es order"

lemma open_edges_zero: "open_edges es S u = 0 \<longleftrightarrow> set (es ! u) \<subseteq> S"
  by (auto simp: open_edges_def filter_empty_conv)

lemma open_edges_insert: "d \<notin> S \<Longrightarrow> open_edges es (insert d S) u = open_edges es S u - count_list (es ! u) d"
  and open_edges_count: "d \<notin> S \<Longrightarrow> count_list (es ! u) d \<le> open_edges es S u"
proof -
  have "length (filter (\<lambda>v. v \<notin> insert d S) vs) + count_list vs d = length (filter (\<lambda>v. v \<notin> S) vs)"
    if "d \<notin> S" for vs
    using that by (induction vs) auto
  from this [of "es ! u"] show "d \<notin> S \<Longrightarrow> open_edges es (insert d S) u = open_edges es S u - count_list (es ! u) d"
    "d \<notin> S \<Longrightarrow> count_list (es ! u) d \<le> open_edges es S u"
    unfolding open_edges_def by simp_all
qed

lemma topological_append:
  "topological n es order \<Longrightarrow> least_ready n es (set order) x \<Longrightarrow> topological n es (order @ [x])"
  by (auto simp: topological_def nth_append less_Suc_eq)

lemma topological_closed:
  assumes "topological n es order"
  shows "u \<in> set order \<Longrightarrow> set (es ! u) \<subseteq> set order" "set order \<subseteq> {..<n}" "distinct order"
proof -
  have *: "least_ready n es (set (take i order)) (order ! i)" if "i < length order" for i
    using assms that by (simp add: topological_def)
  show "u \<in> set order \<Longrightarrow> set (es ! u) \<subseteq> set order"
    using * unfolding least_ready_def by (metis in_set_conv_nth in_set_takeD subset_code(1))
  show "set order \<subseteq> {..<n}"
    using * unfolding least_ready_def by (auto simp: in_set_conv_nth)
  show "distinct order"
    unfolding distinct_conv_nth
  proof (intro allI impI)
    have less: "order ! i \<noteq> order ! j" if "i < j" "j < length order" for i j
    proof -
      have "order ! i \<in> set (take j order)" using nth_mem [of i "take j order"] that by simp
      then show ?thesis using * [OF that(2)] by (auto simp: least_ready_def)
    qed
    fix i j assume "i < length order" "j < length order" "i \<noteq> j"
    then show "order ! i \<noteq> order ! j" using less [of i j] less [of j i] by (cases "i < j") auto
  qed
qed

lemma order_inv_step:
  assumes inv: "order_inv n es rem (d # ready) order" and ok: "graph_ok n es" "dependents_ok n es ds"
    and release: "release_importers (ds ! d) rem ready = (rem', ready')"
  shows "order_inv n es rem' ready' (order @ [d])"
proof -
  have len: "length rem = n" and rem: "\<And>u. u < n \<Longrightarrow> rem ! u = open_edges es (set order) u"
    and sorted: "distinct (d # ready)" "sorted (d # ready)" and top: "topological n es order"
    and ready: "\<And>u. u \<in> set (d # ready) \<longleftrightarrow> u < n \<and> u \<notin> set order \<and> set (es ! u) \<subseteq> set order"
    using inv unfolding order_inv_def by blast+
  have d: "d < n" "d \<notin> set order" "set (es ! d) \<subseteq> set order" using ready [of d] by auto
  have count: "count_list (ds ! d) u = (if u < n then count_list (es ! u) d else 0)" for u
    using ok(2) d(1) by (simp add: dependents_ok_def)
  have bound: "set (ds ! d) \<subseteq> {..<length rem}"
  proof
    fix u assume "u \<in> set (ds ! d)"
    then have "count_list (ds ! d) u \<noteq> 0" by (simp add: count_list_0_iff)
    then show "u \<in> {..<length rem}" using count [of u] len by (simp split: if_splits)
  qed
  have R: "length rem' = length rem \<and> (\<forall>u<length rem. rem' ! u = rem ! u - count_list (ds ! d) u) \<and>
    set ready' = set ready \<union> {u \<in> set (ds ! d). rem ! u = count_list (ds ! d) u} \<and> distinct ready' \<and> sorted ready'"
  proof (rule release_importers_result [OF release bound])
    show "count_list (ds ! d) u \<le> rem ! u" if "u < length rem" for u
      using that rem count len open_edges_count [OF d(2)] by simp
    show "rem ! u = 0 \<and> u < length rem" if "u \<in> set ready" for u
      using that ready [of u] rem [of u] len by (simp add: open_edges_zero)
  qed (use sorted in simp_all)
  have rem': "rem' ! u = open_edges es (set (order @ [d])) u" if "u < n" for u
    using R that rem count len open_edges_insert [OF d(2)] by simp
  have "u \<in> set ready' \<longleftrightarrow> u < n \<and> u \<notin> set (order @ [d]) \<and> set (es ! u) \<subseteq> set (order @ [d])" for u
  proof (cases "u < n \<and> u \<notin> set (order @ [d])")
    case True
    then have "u \<in> set ready' \<longleftrightarrow> rem ! u = 0 \<or> (count_list (es ! u) d \<noteq> 0 \<and> rem ! u = count_list (es ! u) d)"
    proof -
      have "u \<in> set ready \<longleftrightarrow> rem ! u = 0"
        using True ready [of u] rem [of u] by (simp add: open_edges_zero)
      moreover have "u \<in> set (ds ! d) \<longleftrightarrow> count_list (es ! u) d \<noteq> 0"
        using True count [of u] count_list_0_iff [of "ds ! d" u] by simp
      ultimately show ?thesis using R count [of u] True by auto
    qed
    also have "\<dots> \<longleftrightarrow> rem' ! u = 0"
      using True R len count [of u] rem [of u] open_edges_count [OF d(2), of es u] by auto
    finally show ?thesis using True rem' [of u] by (simp add: open_edges_zero)
  next
    case False
    have "u \<notin> set ready'"
    proof
      assume "u \<in> set ready'"
      then consider "u \<in> set ready" | "u \<in> set (ds ! d)" "rem ! u = count_list (ds ! d) u" using R by auto
      then show False
      proof cases
        case 1
        with False ready [of u] sorted(1) show False by auto
      next
        case 2
        then have "u < n" "0 < rem ! u" using bound len count_list_0_iff [of "ds ! d" u] by auto
        then have "\<not> set (es ! u) \<subseteq> set order" using rem [of u] open_edges_zero [of es "set order" u] by simp
        then show False
          using False \<open>u < n\<close> topological_closed(1) [OF top, of u] d(3) by auto
      qed
    qed
    with False show ?thesis by blast
  qed
  moreover have "least_ready n es (set order) d"
    unfolding least_ready_def using d ready sorted(2) by (metis order_refl set_ConsD sorted_simps(2))
  ultimately show ?thesis
    using R len rem' topological_append [OF top] unfolding order_inv_def by blast
qed

lemma order_loop_inv:
  "order_loop limit ds rem ready order used = Inr (order', used') \<Longrightarrow> order_inv n es rem ready order \<Longrightarrow>
   graph_ok n es \<Longrightarrow> dependents_ok n es ds \<Longrightarrow> \<exists>rem'. order_inv n es rem' [] order'"
proof (induction limit ds rem ready order used rule: order_loop.induct)
  case (2 limit ds rem d ready order used)
  obtain rem1 ready1 where release: "release_importers (ds ! d) rem ready = (rem1, ready1)" by force
  have used: "used < limit" using "2.prems"(1) by auto
  show ?case
    using "2.prems" used release
    by (intro "2.IH" [OF _ release [symmetric] refl _ order_inv_step [OF "2.prems"(2-4) release]]) simp_all
qed auto

lemma order_inv_start:
  "graph_ok n es \<Longrightarrow> order_inv n es (map length es) (filter (\<lambda>u. map length es ! u = 0) [0..<length es]) []"
  by (auto simp: graph_ok_def order_inv_def open_edges_def topological_def sorted_filter [of "\<lambda>x. x", simplified])

lemma initial_order_correct:
  assumes "initial_order limit es used = Inr (order, used')" "graph_ok n es"
  shows "topological n es order"
    and "acyclic (edge_rel es) \<Longrightarrow> set order = {..<n}"
proof -
  have len: "length es = n" using assms(2) by (simp add: graph_ok_def)
  from order_loop_inv [OF _ order_inv_start [OF assms(2)] assms(2) dependents_of_ok [OF assms(2)]] assms(1) obtain rem'
    where inv: "order_inv n es rem' [] order" unfolding initial_order_def Let_def by blast
  then show top: "topological n es order" by (simp add: order_inv_def)
  have progress: "\<exists>v. v \<in> {..<n} - set order \<and> (u, v) \<in> edge_rel es" if "u \<in> {..<n} - set order" for u
  proof -
    have "\<not> set (es ! u) \<subseteq> set order" using inv that unfolding order_inv_def by auto
    then show ?thesis using that assms(2) len by (auto simp: edge_rel_def graph_ok_def)
  qed
  assume acyclic: "acyclic (edge_rel es)"
  have "edge_rel es \<subseteq> {..<n} \<times> {..<n}" by (intro subrelI) (simp add: edge_rel_bounds [OF assms(2)])
  then have "finite (edge_rel es)" by (rule finite_subset) simp
  then have "wf ((edge_rel es)\<inverse>)" using acyclic by (rule finite_acyclic_wf_converse)
  have "{..<n} - set order = {}"
  proof (rule ccontr)
    assume "{..<n} - set order \<noteq> {}"
    then obtain x where "x \<in> {..<n} - set order" by blast
    with \<open>wf ((edge_rel es)\<inverse>)\<close> obtain z where "z \<in> {..<n} - set order"
      "\<And>y. (y, z) \<in> (edge_rel es)\<inverse> \<Longrightarrow> y \<notin> {..<n} - set order" by (rule wfE_min) blast
    with progress [of z] show False by blast
  qed
  then show "set order = {..<n}" using topological_closed(2) [OF top] by blast
qed

section \<open>The graph of the modules\<close>

definition package_imports :: "module_definition \<Rightarrow> string list" where
  "package_imports m = filter (\<lambda>i. \<not> prefix host_prefix i) (md_imports m)"

definition host_imports :: "module_definition \<Rightarrow> string list" where
  "host_imports m = filter (prefix host_prefix) (md_imports m)"

definition depends :: "module_definition list \<Rightarrow> (string \<times> string) set" where
  "depends modules = {(md_id m, i) | m i. m \<in> set modules \<and> i \<in> set (package_imports m)}"

lemma propagate_Inr [simp]: "propagate r = Inr a \<longleftrightarrow> r = Inr a"
  by (simp add: propagate_def split: sum.split)

lemma graph_fail_Inr [simp]: "graph_fail code message module \<noteq> Inr a"
  by (simp add: graph_fail_def)

lemma validated_kind:
  assumes "validate_module_specifier s is_nfc limits = Inr m"
  shows "canonical_id m = s" "spec_kind m = PackageModule \<longleftrightarrow> \<not> prefix host_prefix s"
    "spec_kind m = HostModule \<longleftrightarrow> prefix host_prefix s" "specifier_accepted s is_nfc limits"
  using assms by (simp_all add: validate_accepts)

lemma emplace_result:
  "emplace k v m = (m', b) \<Longrightarrow> sorted_wrt (<) (map fst m) \<Longrightarrow>
   (b \<longleftrightarrow> k \<notin> fst ` set m) \<and> (b \<longrightarrow> set m' = insert (k, v) (set m) \<and> length m' = Suc (length m) \<and>
     sorted_wrt (<) (map fst m'))"
proof (induction k v m arbitrary: m' b rule: emplace.induct)
  case (2 k v k' v' m)
  consider "k < k'" | "k = k'" | "k' < k" by fastforce
  then show ?case
  proof cases
    case 1
    with 2(2,3) show ?thesis by (fastforce intro: less_trans)
  next
    case 2
    with "2.prems" show ?thesis by auto
  next
    case 3
    obtain m1 b1 where e: "emplace k v m = (m1, b1)" by force
    have IH: "(b1 \<longleftrightarrow> k \<notin> fst ` set m) \<and> (b1 \<longrightarrow> set m1 = insert (k, v) (set m) \<and> length m1 = Suc (length m) \<and>
        sorted_wrt (<) (map fst m1))"
      using 3 2(3) by (intro "2.IH" [OF _ _ e]) auto
    have "\<not> k < k'" "k \<noteq> k'" using 3 by auto
    then have r: "m' = (k', v') # m1" "b = b1" using "2.prems"(1) e by simp_all
    show ?thesis using IH "2.prems"(2) 3 unfolding r by auto
  qed
qed auto

lemma collect_modules_result:
  "collect_modules is_nfc limits modules ordered used = Inr (ordered', used') \<Longrightarrow>
   sorted_wrt (<) (map fst ordered) \<Longrightarrow> (\<forall>(k, m)\<in>set ordered. k = md_id m) \<Longrightarrow>
   sorted_wrt (<) (map fst ordered') \<and> (\<forall>(k, m)\<in>set ordered'. k = md_id m) \<and>
   snd ` set ordered' = snd ` set ordered \<union> set modules \<and> length ordered' = length ordered + length modules \<and>
   used' = used + length modules \<and>
   (\<forall>m\<in>set modules. specifier_accepted (md_id m) is_nfc (gl_specifier limits) \<and> \<not> prefix host_prefix (md_id m))"
proof (induction is_nfc limits modules ordered used rule: collect_modules.induct)
  case (2 is_nfc limits m modules ordered used)
  obtain spec where spec: "validate_module_specifier (md_id m) is_nfc (gl_specifier limits) = Inr spec"
    "spec_kind spec = PackageModule" and used: "used < max_validation_work limits"
    using "2.prems"(1) by (auto split: if_splits)
  obtain ordered1 b where e: "emplace (canonical_id spec) m ordered = (ordered1, b)" by force
  have b: "b" using "2.prems"(1) spec used e by (auto split: if_splits)
  have rest: "collect_modules is_nfc limits modules ordered1 (used + 1) = Inr (ordered', used')"
    using "2.prems"(1) spec used e b by simp
  have o1: "set ordered1 = insert (md_id m, m) (set ordered)" "length ordered1 = Suc (length ordered)"
    "sorted_wrt (<) (map fst ordered1)"
    using emplace_result [OF e "2.prems"(2)] b validated_kind(1) [OF spec(1)] by simp_all
  have "sorted_wrt (<) (map fst ordered') \<and> (\<forall>(k, m)\<in>set ordered'. k = md_id m) \<and>
     snd ` set ordered' = snd ` set ordered1 \<union> set modules \<and> length ordered' = length ordered1 + length modules \<and>
     used' = used + 1 + length modules \<and>
     (\<forall>m\<in>set modules. specifier_accepted (md_id m) is_nfc (gl_specifier limits) \<and> \<not> prefix host_prefix (md_id m))"
    using used spec e b rest o1(1,3) "2.prems"(3)
    by (intro "2.IH" [of "used + 1" spec]) auto
  then show ?case using o1 validated_kind [OF spec(1)] spec(2) by auto
qed simp

subsection \<open>The edges\<close>

definition edges_ok :: "nat \<Rightarrow> edge_state \<Rightarrow> bool" where
  "edges_ok n st \<longleftrightarrow> graph_ok n (es_edges st) \<and> reverse_ok n (es_edges st) (es_reverse st)"

lemma edges_ok_add:
  assumes "edges_ok n st" "s < n" "t < n"
  shows "edges_ok n (st\<lparr>es_edges := (es_edges st)[s := es_edges st ! s @ [t]],
    es_reverse := (es_reverse st)[t := es_reverse st ! t @ [s]]\<rparr>)"
proof -
  have "edge_rel ((es_edges st)[s := es_edges st ! s @ [t]]) = insert (s, t) (edge_rel (es_edges st))"
    using assms by (auto simp: edges_ok_def graph_ok_def edge_rel_def nth_list_update split: if_splits)
  then show ?thesis
    using assms by (auto simp: edges_ok_def graph_ok_def reverse_ok_def nth_list_update)
qed

lemma index_lookup:
  "distinct ids \<Longrightarrow> map_of (zip ids [0..<length ids]) s = Some t \<longleftrightarrow> t < length ids \<and> ids ! t = s"
  by (subst map_of_eq_Some_iff) (auto simp: in_set_zip)

lemma import_loop_result:
  assumes "distinct ids" "length ids = n" "source < n"
  shows "import_loop is_nfc limits ids source ims st = Inr st' \<Longrightarrow> edges_ok n st \<Longrightarrow>
   \<exists>ts. map (\<lambda>t. ids ! t) ts = filter (\<lambda>i. \<not> prefix host_prefix i) ims \<and>
     es_edges st' = (es_edges st)[source := es_edges st ! source @ ts] \<and> edges_ok n st' \<and>
     es_package st' = es_package st + length ts \<and>
     es_host st' = es_host st + length (filter (prefix host_prefix) ims) \<and>
     es_total st' = es_total st + length ims \<and> es_used st' = es_used st + length ims \<and>
     (\<forall>i\<in>set ims. specifier_accepted i is_nfc (gl_specifier limits))"
proof (induction ims arbitrary: st)
  case Nil
  then show ?case by (intro exI [of _ "[]"]) simp
next
  case (Cons i ims)
  obtain spec where spec: "validate_module_specifier i is_nfc (gl_specifier limits) = Inr spec"
    and used: "es_used st < max_validation_work limits" "es_total st < max_import_edges limits"
    using Cons.prems(1) by (auto simp: Let_def split: if_splits)
  let ?st = "st\<lparr>es_used := es_used st + 1, es_total := es_total st + 1\<rparr>"
  show ?case
  proof (cases "spec_kind spec = HostModule")
    case True
    let ?st1 = "?st\<lparr>es_host := es_host st + 1\<rparr>"
    have "import_loop is_nfc limits ids source ims ?st1 = Inr st'"
      using Cons.prems(1) spec used True by (simp add: Let_def)
    moreover have "edges_ok n ?st1" using Cons.prems(2) by (simp add: edges_ok_def)
    ultimately obtain ts where "map (\<lambda>t. ids ! t) ts = filter (\<lambda>i. \<not> prefix host_prefix i) ims \<and>
       es_edges st' = (es_edges ?st1)[source := es_edges ?st1 ! source @ ts] \<and> edges_ok n st' \<and>
       es_package st' = es_package ?st1 + length ts \<and>
       es_host st' = es_host ?st1 + length (filter (prefix host_prefix) ims) \<and>
       es_total st' = es_total ?st1 + length ims \<and> es_used st' = es_used ?st1 + length ims \<and>
       (\<forall>i\<in>set ims. specifier_accepted i is_nfc (gl_specifier limits))"
      using Cons.IH by blast
    then show ?thesis using validated_kind [OF spec] True by (intro exI [of _ ts]) auto
  next
    case False
    then obtain t where t: "map_of (zip ids [0..<length ids]) (canonical_id spec) = Some t"
      using Cons.prems(1) spec used by (auto simp: Let_def split: option.splits)
    then have t': "t < n" "ids ! t = i"
      using index_lookup [OF assms(1)] assms(2) validated_kind(1) [OF spec] by auto
    let ?st1 = "?st\<lparr>es_package := es_package st + 1, es_edges := (es_edges st)[source := es_edges st ! source @ [t]],
      es_reverse := (es_reverse st)[t := es_reverse st ! t @ [source]]\<rparr>"
    have len: "length (es_edges st) = n" using Cons.prems(2) by (simp add: edges_ok_def graph_ok_def)
    have "import_loop is_nfc limits ids source ims ?st1 = Inr st'"
      using Cons.prems(1) spec used False t by (simp add: Let_def)
    moreover have "edges_ok n ?st1" using edges_ok_add [OF Cons.prems(2) assms(3) t'(1)] by (simp add: edges_ok_def)
    ultimately obtain ts where "map (\<lambda>t. ids ! t) ts = filter (\<lambda>i. \<not> prefix host_prefix i) ims \<and>
       es_edges st' = (es_edges ?st1)[source := es_edges ?st1 ! source @ ts] \<and> edges_ok n st' \<and>
       es_package st' = es_package ?st1 + length ts \<and>
       es_host st' = es_host ?st1 + length (filter (prefix host_prefix) ims) \<and>
       es_total st' = es_total ?st1 + length ims \<and> es_used st' = es_used ?st1 + length ims \<and>
       (\<forall>i\<in>set ims. specifier_accepted i is_nfc (gl_specifier limits))"
      using Cons.IH by blast
    then show ?thesis
      using validated_kind [OF spec] False t' len assms(3) by (intro exI [of _ "t # ts"]) auto
  qed
qed

lemma source_loop_result:
  assumes "distinct ids" "length ids = n"
  shows "source_loop is_nfc limits ids source ms st = Inr st' \<Longrightarrow> edges_ok n st \<Longrightarrow> source + length ms \<le> n \<Longrightarrow>
   (\<forall>u. source \<le> u \<longrightarrow> u < n \<longrightarrow> es_edges st ! u = []) \<Longrightarrow>
   edges_ok n st' \<and> (\<forall>u < source. es_edges st' ! u = es_edges st ! u) \<and>
   (\<forall>k<length ms. map (\<lambda>t. ids ! t) (es_edges st' ! (source + k)) = package_imports (ms ! k)) \<and>
   es_package st' = es_package st + sum_list (map (\<lambda>m. length (package_imports m)) ms) \<and>
   es_host st' = es_host st + sum_list (map (\<lambda>m. length (host_imports m)) ms) \<and>
   es_used st' = es_used st + sum_list (map (\<lambda>m. length (md_imports m)) ms) \<and>
   (\<forall>m\<in>set ms. \<forall>i\<in>set (md_imports m). specifier_accepted i is_nfc (gl_specifier limits))"
proof (induction ms arbitrary: source st)
  case (Cons m ms)
  obtain st1 where one: "import_loop is_nfc limits ids source (md_imports m) st = Inr st1"
    and rest: "source_loop is_nfc limits ids (source + 1) ms st1 = Inr st'"
    using Cons.prems(1) by auto
  have source: "source < n" using Cons.prems(3) by simp
  have len: "length (es_edges st) = n" using Cons.prems(2) by (simp add: edges_ok_def graph_ok_def)
  obtain ts where ts: "map (\<lambda>t. ids ! t) ts = package_imports m" "es_edges st1 = (es_edges st)[source := ts]"
    "edges_ok n st1" "es_package st1 = es_package st + length ts" "es_host st1 = es_host st + length (host_imports m)"
    "es_used st1 = es_used st + length (md_imports m)"
    "\<forall>i\<in>set (md_imports m). specifier_accepted i is_nfc (gl_specifier limits)"
    using import_loop_result [OF assms source one Cons.prems(2)] Cons.prems(4) source
    by (auto simp: package_imports_def host_imports_def)
  have "length ts = length (package_imports m)" using arg_cong [OF ts(1), of length] by simp
  moreover have "\<forall>u. source + 1 \<le> u \<longrightarrow> u < n \<longrightarrow> es_edges st1 ! u = []"
    using Cons.prems(4) ts(2) by simp
  note IH = Cons.IH [OF rest ts(3) _ this]
  moreover have "map (\<lambda>t. ids ! t) (es_edges st' ! (source + k)) = package_imports ((m # ms) ! k)"
    if "k < length (m # ms)" for k
    using that IH Cons.prems(3) ts(1,2) source len by (cases k) auto
  moreover have "es_edges st' ! u = es_edges st ! u" if "u < source" for u
    using that IH Cons.prems(3) ts(2) by auto
  ultimately show ?case using Cons.prems(3) ts by simp
qed simp

subsection \<open>From node numbers to modules\<close>

text \<open>The modules in the order of their names, and the graph over their positions.\<close>

definition represents :: "module_definition list \<Rightarrow> module_definition list \<Rightarrow> graph \<Rightarrow> bool" where
  "represents modules ms es \<longleftrightarrow> set ms = set modules \<and> length ms = length modules \<and>
     sorted_wrt (<) (map md_id ms) \<and> graph_ok (length ms) es \<and>
     (\<forall>u<length ms. map (\<lambda>v. md_id (ms ! v)) (es ! u) = package_imports (ms ! u))"

lemma sorted_ids:
  assumes "sorted_wrt (<) (map md_id ms)" "u < length ms" "v < length ms"
  shows "md_id (ms ! u) < md_id (ms ! v) \<longleftrightarrow> u < v" "md_id (ms ! u) \<le> md_id (ms ! v) \<longleftrightarrow> u \<le> v"
    "md_id (ms ! u) = md_id (ms ! v) \<longleftrightarrow> u = v"
proof -
  have less: "md_id (ms ! i) < md_id (ms ! j)" if "i < j" "j < length ms" for i j
    using assms(1) that by (simp add: sorted_wrt_iff_nth_less)
  show "md_id (ms ! u) < md_id (ms ! v) \<longleftrightarrow> u < v" "md_id (ms ! u) \<le> md_id (ms ! v) \<longleftrightarrow> u \<le> v"
    "md_id (ms ! u) = md_id (ms ! v) \<longleftrightarrow> u = v"
    using less [of u v] less [of v u] assms(2,3) by (cases u v rule: linorder_cases; force)+
qed

lemma represents_distinct:
  assumes "represents modules ms es"
  shows "distinct (map md_id ms)" "distinct (map md_id modules)"
proof -
  show d: "distinct (map md_id ms)"
    using assms by (simp add: represents_def strict_sorted_iff)
  have "card (set (map md_id modules)) = length (map md_id modules)"
    using assms distinct_card [OF d] by (simp add: represents_def)
  then show "distinct (map md_id modules)" by (rule card_distinct)
qed

lemma depends_edge:
  assumes "represents modules ms es" "u < length ms"
  shows "(md_id (ms ! u), b) \<in> depends modules \<longleftrightarrow> (\<exists>v. (u, v) \<in> edge_rel es \<and> b = md_id (ms ! v))"
proof -
  have set: "set ms = set modules" and len: "length es = length ms"
    and imps: "package_imports (ms ! u) = map (\<lambda>v. md_id (ms ! v)) (es ! u)"
    using assms by (simp_all add: represents_def graph_ok_def)
  have "m = ms ! u" if "m \<in> set modules" "md_id m = md_id (ms ! u)" for m
    using that represents_distinct(1) [OF assms(1)] assms(2) set
    by (metis distinct_map inj_on_def nth_mem)
  then have "(md_id (ms ! u), b) \<in> depends modules \<longleftrightarrow> b \<in> set (package_imports (ms ! u))"
    using assms(2) set by (auto simp: depends_def intro: nth_mem)
  then show ?thesis using assms(2) len by (auto simp: imps edge_rel_def)
qed

lemma depends_from: "(a, b) \<in> depends modules \<Longrightarrow> set ms = set modules \<Longrightarrow> \<exists>u<length ms. a = md_id (ms ! u)"
  by (auto simp: depends_def) (metis in_set_conv_nth)

lemma depends_trancl:
  assumes rep: "represents modules ms es" and u: "u < length ms"
  shows "(md_id (ms ! u), b) \<in> (depends modules)\<^sup>+ \<longleftrightarrow> (\<exists>v. (u, v) \<in> (edge_rel es)\<^sup>+ \<and> b = md_id (ms ! v))"
    (is "?l \<longleftrightarrow> ?r")
proof
  have bound: "v < length ms" if "(w, v) \<in> edge_rel es" for w v
    using edge_rel_bounds that rep by (auto simp: represents_def)
  have bound': "v < length ms" if "(w, v) \<in> (edge_rel es)\<^sup>+" for w v
    using that by (induction rule: trancl_induct) (auto intro: bound)
  {
    assume ?l
    then show ?r
    proof (induction rule: trancl_induct)
      case (base b)
      then show ?case using depends_edge [OF rep u] by blast
    next
      case (step b c)
      then obtain v where v: "(u, v) \<in> (edge_rel es)\<^sup>+" "b = md_id (ms ! v)" by blast
      then show ?case using depends_edge [OF rep bound' [OF v(1)]] step.hyps(2) by (metis trancl.trancl_into_trancl)
    qed
  next
    have "(md_id (ms ! u), md_id (ms ! v)) \<in> (depends modules)\<^sup>+" if "(u, v) \<in> (edge_rel es)\<^sup>+" for v
      using that
    proof (induction rule: trancl_induct)
      case (base v)
      then show ?case using depends_edge [OF rep u] by blast
    next
      case (step v w)
      have "(md_id (ms ! v), md_id (ms ! w)) \<in> depends modules"
        using step.hyps(2) depends_edge [OF rep bound' [OF step.hyps(1)]] by blast
      with step.IH show ?case by (rule trancl.trancl_into_trancl)
    qed
    then show "?r \<Longrightarrow> ?l" by blast
  }
qed

text \<open>The stages up to the edges.\<close>

lemma stages:
  assumes "collect_modules is_nfc limits modules [] 0 = Inr (ordered, used)"
    "source_loop is_nfc limits (map fst ordered) 0 (map snd ordered) (empty_edges (length ordered) used) = Inr st"
  shows "represents modules (map snd ordered) (es_edges st)" "map fst ordered = map md_id (map snd ordered)"
    "reverse_ok (length ordered) (es_edges st) (es_reverse st)"
    "es_package st = sum_list (map (\<lambda>m. length (package_imports m)) (map snd ordered))"
    "es_host st = sum_list (map (\<lambda>m. length (host_imports m)) (map snd ordered))"
    "es_used st = length modules + sum_list (map (\<lambda>m. length (md_imports m)) (map snd ordered))"
    "\<forall>m\<in>set modules. \<forall>i\<in>insert (md_id m) (set (md_imports m)). specifier_accepted i is_nfc (gl_specifier limits)"
proof -
  let ?n = "length ordered"
  note C = collect_modules_result [OF assms(1), simplified]
  show ids: "map fst ordered = map md_id (map snd ordered)"
    using C by (auto simp: split_beta)
  have sorted: "sorted_wrt (<) (map fst ordered)" "distinct (map fst ordered)"
    using C strict_sorted_iff [of "map fst ordered"] by auto
  have set: "set (map snd ordered) = set modules" "?n = length modules" "used = length modules" using C by auto
  have ok: "edges_ok ?n (empty_edges ?n used)"
    by (simp add: edges_ok_def empty_edges_def graph_ok_def reverse_ok_def edge_rel_def)
  note S = source_loop_result [OF sorted(2) _ assms(2) ok, simplified]
  have S': "edges_ok ?n st"
    "\<And>k. k < ?n \<Longrightarrow> map (\<lambda>t. map fst ordered ! t) (es_edges st ! k) = package_imports (snd (ordered ! k))"
    "es_package st = sum_list (map (\<lambda>m. length (package_imports m)) (map snd ordered))"
    "es_host st = sum_list (map (\<lambda>m. length (host_imports m)) (map snd ordered))"
    "es_used st = used + sum_list (map (\<lambda>m. length (md_imports m)) (map snd ordered))"
    "\<forall>m\<in>set (map snd ordered). \<forall>i\<in>set (md_imports m). specifier_accepted i is_nfc (gl_specifier limits)"
    using S by (simp_all add: empty_edges_def comp_def)
  have "map (\<lambda>v. md_id (map snd ordered ! v)) (es_edges st ! u) = package_imports (map snd ordered ! u)"
    if "u < ?n" for u
  proof -
    have "set (es_edges st ! u) \<subseteq> {..<?n}" using S'(1) that by (simp add: edges_ok_def graph_ok_def)
    then have "map (\<lambda>v. md_id (map snd ordered ! v)) (es_edges st ! u) = map (\<lambda>t. map fst ordered ! t) (es_edges st ! u)"
      by (intro map_cong) (auto simp: ids)
    then show ?thesis using S'(2) [OF that] that by simp
  qed
  then show "represents modules (map snd ordered) (es_edges st)"
    using S'(1) sorted(1) set unfolding represents_def ids [symmetric] by (simp add: edges_ok_def)
  show "reverse_ok ?n (es_edges st) (es_reverse st)" using S'(1) by (simp add: edges_ok_def)
  show "\<forall>m\<in>set modules. \<forall>i\<in>insert (md_id m) (set (md_imports m)). specifier_accepted i is_nfc (gl_specifier limits)"
    using S'(6) C set(1) by auto
  show "es_package st = sum_list (map (\<lambda>m. length (package_imports m)) (map snd ordered))"
    "es_host st = sum_list (map (\<lambda>m. length (host_imports m)) (map snd ordered))"
    "es_used st = length modules + sum_list (map (\<lambda>m. length (md_imports m)) (map snd ordered))"
    using S'(3-5) set(3) by simp_all
qed

section \<open>The errors of the stages\<close>

definition work_error :: graph_error where
  "work_error = ModuleGraphError ValidationWorkLimitExceeded ''module graph validation work limit exceeded'' '''' []"

text \<open>The errors of the checks of the modules and imports.\<close>

definition check_error :: "graph_error \<Rightarrow> bool" where
  "check_error e \<longleftrightarrow> e = work_error \<or> (\<exists>s. e = GraphSpecifierError s) \<or> (\<exists>code message module.
     e = ModuleGraphError code message module [] \<and> code \<notin> {ImportCycle, ValidationWorkLimitExceeded})"

lemma charge_Inl: "charge limit used = Inl e \<longleftrightarrow> limit \<le> used \<and> e = work_error"
  by (auto simp: charge_def graph_fail_def work_error_def)

lemma work_error_check [simp]: "check_error work_error"
  by (simp add: check_error_def work_error_def)

lemma propagate_Inl: "propagate r = Inl e \<longleftrightarrow> (\<exists>s. r = Inl s \<and> e = GraphSpecifierError s)"
  by (auto simp: propagate_def split: sum.splits)

lemma graph_fail_Inl: "graph_fail code message module = Inl e \<longleftrightarrow> e = ModuleGraphError code message module []"
  by (auto simp: graph_fail_def)

lemmas error_simps = bind_result_eq_Inl charge_Inl propagate_Inl graph_fail_Inl

lemma check_error_simps [simp]:
  "check_error (GraphSpecifierError s)"
  "code \<notin> {ImportCycle, ValidationWorkLimitExceeded} \<Longrightarrow> check_error (ModuleGraphError code message module [])"
  by (simp_all add: check_error_def)

lemma collect_modules_error:
  "collect_modules is_nfc limits modules ordered used = Inl e \<Longrightarrow> check_error e"
proof (induction modules arbitrary: ordered used)
  case (Cons m modules)
  consider (work) "max_validation_work limits \<le> used"
    | (invalid) s where "used < max_validation_work limits"
        "validate_module_specifier (md_id m) is_nfc (gl_specifier limits) = Inl s"
    | (valid) spec ordered' b where "used < max_validation_work limits"
        "validate_module_specifier (md_id m) is_nfc (gl_specifier limits) = Inr spec"
        "emplace (canonical_id spec) m ordered = (ordered', b)"
    by (metis not_less obj_sumE surj_pair)
  then show ?case
  proof cases
    case valid
    with Cons.prems Cons.IH [of ordered' "Suc used"] show ?thesis
      by (cases b; cases "spec_kind spec") (auto simp: error_simps)
  qed (use Cons.prems in \<open>auto simp: error_simps\<close>)
qed simp

lemma import_loop_error: "import_loop is_nfc limits ids source ims st = Inl e \<Longrightarrow> check_error e"
proof (induction ims arbitrary: st)
  case (Cons i ims)
  consider (work) "max_validation_work limits \<le> es_used st"
    | (edges) "es_used st < max_validation_work limits" "max_import_edges limits \<le> es_total st"
    | (invalid) s where "es_used st < max_validation_work limits" "es_total st < max_import_edges limits"
        "validate_module_specifier i is_nfc (gl_specifier limits) = Inl s"
    | (valid) spec where "es_used st < max_validation_work limits" "es_total st < max_import_edges limits"
        "validate_module_specifier i is_nfc (gl_specifier limits) = Inr spec"
    by (metis not_less obj_sumE)
  then show ?case
  proof cases
    case valid
    with Cons show ?thesis
      by (cases "spec_kind spec"; cases "map_of (zip ids [0..<length ids]) (canonical_id spec)")
        (auto simp: error_simps Let_def)
  qed (use Cons.prems in \<open>auto simp: error_simps Let_def\<close>)
qed simp

lemma source_loop_error: "source_loop is_nfc limits ids source ms st = Inl e \<Longrightarrow> check_error e"
  by (induction is_nfc limits ids source ms st rule: source_loop.induct)
    (auto simp: bind_result_eq_Inl dest: import_loop_error)

lemma finish_loop_error: "finish_loop limit es visited stack fs used = Inl e \<Longrightarrow> e = work_error"
proof (induction limit es visited stack fs used rule: finish_loop.induct)
  case (2 limit es visited u k stack fs used)
  show ?case
  proof (cases "used < limit")
    case True
    then have used: "charge limit used = Inr (Suc used)" by simp
    consider (new) "k < length (es ! u)" "\<not> visited ! (es ! u ! k)" | (old) "k < length (es ! u)" "visited ! (es ! u ! k)"
      | (popped) "\<not> k < length (es ! u)" by blast
    then show ?thesis
    proof cases
      case new
      then show ?thesis using "2.prems" True by (intro "2.IH"(1) [OF used new(1) refl new(2)]) (simp add: Let_def)
    next
      case old
      then show ?thesis using "2.prems" True by (intro "2.IH"(2) [OF used old(1) refl]) (simp_all add: Let_def)
    next
      case popped
      then show ?thesis using "2.prems" True by (intro "2.IH"(3) [OF used popped]) simp
    qed
  next
    case False
    then show ?thesis using "2.prems" by (simp add: error_simps)
  qed
qed simp

declare finish_loop.simps(2) [simp del]

lemma finish_roots_error: "finish_roots limit es roots visited fs used = Inl e \<Longrightarrow> e = work_error"
  by (induction limit es roots visited fs used rule: finish_roots.induct)
    (auto simp: bind_result_eq_Inl dest: finish_loop_error split: if_splits)

lemma component_loop_error: "component_loop limit rs visited stack part used = Inl e \<Longrightarrow> e = work_error"
  by (induction limit rs visited stack part used rule: component_loop.induct)
    (auto simp: error_simps Let_def split: prod.splits)

declare component_loop.simps(2) [simp del]

lemma select_loop_error: "select_loop limit es rs roots visited selected m used = Inl e \<Longrightarrow> e = work_error"
proof (induction roots arbitrary: visited selected m used)
  case (Cons root roots)
  show ?case
  proof (cases "visited ! root")
    case False
    with Cons show ?thesis
      by (cases "component_loop limit rs (visited[root := True]) [root] [] used")
        (auto dest: component_loop_error split: if_splits)
  qed (use Cons in simp)
qed simp

lemma order_loop_error: "order_loop limit ds rem ready order used = Inl e \<Longrightarrow> e = work_error"
  by (induction limit ds rem ready order used rule: order_loop.induct)
    (auto simp: error_simps Let_def split: prod.splits)

section \<open>Validation\<close>

text \<open>The graph stages on a represented graph: a selection, and either an order or a cycle.\<close>

definition module_cycle :: "module_definition list \<Rightarrow> string list \<Rightarrow> bool" where
  "module_cycle modules cycle \<longleftrightarrow> length cycle \<ge> 2 \<and> hd cycle = last cycle \<and>
     successively (\<lambda>a b. (a, b) \<in> depends modules) cycle \<and>
     (\<forall>a. (a, a) \<in> (depends modules)\<^sup>+ \<longrightarrow> hd cycle \<le> a)"

lemma cycle_path_modules:
  assumes rep: "represents modules ms es" and p: "cycle_path es m p" "m < length ms"
    and least: "\<And>x. x < length ms \<Longrightarrow> on_cycle es x \<Longrightarrow> m \<le> x"
  shows "module_cycle modules (map (\<lambda>u. map md_id ms ! u) (p @ [m]))"
proof -
  have edge: "(md_id (ms ! u), md_id (ms ! v)) \<in> depends modules" "u < length ms" "v < length ms"
    if "(u, v) \<in> edge_rel es" for u v
    using that edge_rel_bounds [of "length ms" es] depends_edge [OF rep] rep by (auto simp: represents_def)
  have named: "(map md_id ms ! u, map md_id ms ! v) \<in> depends modules" if "(u, v) \<in> edge_rel es" for u v
    using edge [OF that] by simp
  have "successively (\<lambda>u v. (u, v) \<in> edge_rel es) (p @ [m])" "p \<noteq> []" "hd p = m"
    using p(1) by (simp_all add: cycle_path_def)
  then have succ: "successively (\<lambda>a b. (a, b) \<in> depends modules) (map (\<lambda>u. map md_id ms ! u) (p @ [m]))"
    unfolding successively_map by (elim successively_mono) (erule named)
  have "md_id (ms ! m) \<le> a" if a: "(a, a) \<in> (depends modules)\<^sup>+" for a
  proof -
    obtain b where "(a, b) \<in> depends modules" using tranclD [OF a] by blast
    moreover have "set ms = set modules" using rep by (simp add: represents_def)
    ultimately obtain u where u: "u < length ms" "a = md_id (ms ! u)" using depends_from [of a b] by blast
    obtain v where v: "(u, v) \<in> (edge_rel es)\<^sup>+" "a = md_id (ms ! v)"
      using a depends_trancl [OF rep u(1)] u(2) by blast
    have "v < length ms" using tranclD2 [OF v(1)] edge(3) by blast
    moreover have "sorted_wrt (<) (map md_id ms)" using rep by (simp add: represents_def)
    ultimately have "v = u" using sorted_ids(3) [of ms v u] u v(2) by simp
    then have "m \<le> u" using least u(1) v(1) by blast
    then show ?thesis using sorted_ids(2) [of ms m u] u p(2) rep by (simp add: represents_def)
  qed
  then show ?thesis
    using succ \<open>p \<noteq> []\<close> \<open>hd p = m\<close> p(2) unfolding module_cycle_def by (auto simp: hd_map Suc_le_eq)
qed

lemma selection_acyclic:
  assumes "selection_ok n es {..<n} [] m" "graph_ok n es"
  shows "acyclic (edge_rel es)"
proof (rule acyclicI, intro allI notI)
  fix x assume x: "on_cycle es x"
  then have "x < n" using edge_rel_bounds [OF assms(2)] by (meson tranclD)
  with x assms(1) show False by (auto simp: selection_ok_def)
qed

lemma order_result:
  assumes "initial_order limit es used = Inr (order, used')" "graph_ok n es" "acyclic (edge_rel es)"
  shows "length order = n" "topological n es order" "set order = {..<n}" "distinct order"
proof -
  note o = initial_order_correct [OF assms(1,2)]
  show "topological n es order" "set order = {..<n}" using o assms(3) by blast+
  moreover show "distinct order" by (rule topological_closed(3) [OF o(1)])
  ultimately show "length order = n" using distinct_card by fastforce
qed

section \<open>The work\<close>

text \<open>Rounds still to be charged: the unvisited nodes with their edges, and the frames.\<close>

definition pending :: "nat \<Rightarrow> graph \<Rightarrow> bool list \<Rightarrow> nat" where
  "pending n es visited = (\<Sum>u\<in>{..<n} - marked visited. Suc (length (es ! u)))"

definition frame_work :: "graph \<Rightarrow> (nat \<times> nat) list \<Rightarrow> nat" where
  "frame_work es stack = sum_list (map (\<lambda>(u, k). Suc (length (es ! u)) - k) stack)"

definition frames_ok :: "graph \<Rightarrow> (nat \<times> nat) list \<Rightarrow> bool" where
  "frames_ok es stack \<longleftrightarrow> (\<forall>(u, k)\<in>set stack. k \<le> length (es ! u))"

lemma frame_simps [simp]:
  "frame_work es [] = 0" "frame_work es ((u, k) # stack) = Suc (length (es ! u)) - k + frame_work es stack"
  "frames_ok es []" "frames_ok es ((u, k) # stack) \<longleftrightarrow> k \<le> length (es ! u) \<and> frames_ok es stack"
  by (simp_all add: frame_work_def frames_ok_def)

lemma pending_mark:
  assumes "t < n" "\<not> visited ! t" "length visited = n"
  shows "pending n es visited = Suc (length (es ! t)) + pending n es (visited[t := True])"
proof -
  have t: "t \<in> {..<n} - marked visited" using assms by (simp add: nth_marked)
  have "{..<n} - marked (visited[t := True]) = {..<n} - marked visited - {t}" using assms by auto
  then show ?thesis unfolding pending_def using t by (simp add: sum.remove)
qed

lemma finish_loop_work:
  "graph_ok n es \<Longrightarrow> length visited = n \<Longrightarrow> frames_ok es stack \<Longrightarrow> fst ` set stack \<subseteq> {..<n} \<Longrightarrow>
   (case finish_loop limit es visited stack fs used of
      Inl e \<Rightarrow> limit < used + pending n es visited + frame_work es stack
    | Inr (visited', fs', used') \<Rightarrow> length visited' = n \<and>
        used' + pending n es visited' = used + pending n es visited + frame_work es stack)"
proof (induction limit es visited stack fs used rule: finish_loop.induct)
  case (2 limit es visited u k stack fs used)
  show ?case
  proof (cases "used < limit")
    case True
    then have used: "charge limit used = Inr (Suc used)" by simp
    have u: "u < n" "k \<le> length (es ! u)" using "2.prems" by auto
    consider (new) "k < length (es ! u)" "\<not> visited ! (es ! u ! k)" | (old) "k < length (es ! u)" "visited ! (es ! u ! k)"
      | (popped) "\<not> k < length (es ! u)" by blast
    then show ?thesis
    proof cases
      case new
      have t: "es ! u ! k < n" using graph_ok_target [OF "2.prems"(1) u(1) new(1)] .
      have "finish_loop limit es visited ((u, k) # stack) fs used =
          finish_loop limit es (visited[es ! u ! k := True]) ((es ! u ! k, 0) # (u, k + 1) # stack) fs (Suc used)"
        using True new by (simp add: finish_loop.simps Let_def)
      then show ?thesis
        using "2.IH"(1) [OF used new(1) refl new(2)] "2.prems" t new pending_mark [OF t new(2) "2.prems"(2), of es]
        by (simp split: sum.splits prod.splits)
    next
      case old
      have "finish_loop limit es visited ((u, k) # stack) fs used =
          finish_loop limit es visited ((u, k + 1) # stack) fs (Suc used)"
        using True old by (simp add: finish_loop.simps Let_def)
      then show ?thesis
        using "2.IH"(2) [OF used old(1) refl _] "2.prems" old by (simp split: sum.splits prod.splits)
    next
      case popped
      have "finish_loop limit es visited ((u, k) # stack) fs used = finish_loop limit es visited stack (fs @ [u]) (Suc used)"
        using True popped by (simp add: finish_loop.simps)
      then show ?thesis
        using "2.IH"(3) [OF used popped] "2.prems" popped u(2) by (simp split: sum.splits prod.splits)
    qed
  next
    case False
    then show ?thesis using "2.prems" by (simp add: finish_loop.simps charge_def graph_fail_def) linarith
  qed
qed simp

lemma finish_roots_work:
  assumes "graph_ok n es"
  shows "length visited = n \<Longrightarrow> set roots \<subseteq> {..<n} \<Longrightarrow>
   (case finish_roots limit es roots visited fs used of
      Inl e \<Rightarrow> limit < used + pending n es visited
    | Inr (visited', fs', used') \<Rightarrow> length visited' = n \<and> used' + pending n es visited' = used + pending n es visited)"
proof (induction roots arbitrary: visited fs used)
  case (Cons root roots)
  show ?case
  proof (cases "visited ! root")
    case False
    have root: "root < n" using Cons.prems by simp
    have len: "length (visited[root := True]) = n" using Cons.prems by simp
    note one = finish_loop_work [OF assms len, where stack = "[(root, 0)]" and limit = limit and fs = fs and used = used]
      and p = pending_mark [OF root False Cons.prems(1), of es]
    show ?thesis
    proof (cases "finish_loop limit es (visited[root := True]) [(root, 0)] fs used")
      case (Inl e)
      then show ?thesis using one p root False by simp
    next
      case (Inr r)
      then obtain visited1 fs1 used1 where r: "r = (visited1, fs1, used1)" by (cases r)
      then show ?thesis
        using one p root False Inr Cons.IH [where visited = visited1 and fs = fs1 and used = used1] Cons.prems by (simp split: sum.splits prod.splits)
    qed
  qed (use Cons in simp)
qed simp

definition unvisited :: "nat \<Rightarrow> bool list \<Rightarrow> nat" where
  "unvisited n visited = card ({..<n} - marked visited)"

lemma unvisited_mark:
  assumes "t < n" "\<not> visited ! t" "length visited = n"
  shows "unvisited n visited = Suc (unvisited n (visited[t := True]))"
proof -
  have t: "t \<in> {..<n} - marked visited" using assms by (simp add: nth_marked)
  have "{..<n} - marked (visited[t := True]) = {..<n} - marked visited - {t}" using assms by auto
  then show ?thesis unfolding unvisited_def using card_Suc_Diff1 [OF _ t] by simp
qed

lemma push_unvisited_work:
  "push_unvisited ts visited stack = (visited', stack') \<Longrightarrow> set ts \<subseteq> {..<n} \<Longrightarrow> length visited = n \<Longrightarrow>
   set stack \<subseteq> {..<n} \<Longrightarrow>
   length visited' = n \<and> set stack' \<subseteq> {..<n} \<and>
   unvisited n visited' + length stack' = unvisited n visited + length stack"
proof (induction ts visited stack rule: push_unvisited.induct)
  case (2 t ts visited stack)
  then show ?case
    using unvisited_mark [of t n visited] by (cases "visited ! t") simp_all
qed simp

lemma reverse_bounded: "graph_ok n es \<Longrightarrow> reverse_ok n es rs \<Longrightarrow> v < n \<Longrightarrow> set (rs ! v) \<subseteq> {..<n}"
  using edge_rel_bounds [of n es] by (auto simp: reverse_ok_def)

lemma component_loop_work:
  assumes "graph_ok n es" "reverse_ok n es rs"
  shows "length visited = n \<Longrightarrow> set stack \<subseteq> {..<n} \<Longrightarrow>
   (case component_loop limit rs visited stack part used of
      Inl e \<Rightarrow> limit < used + unvisited n visited + length stack
    | Inr (visited', part', used') \<Rightarrow> length visited' = n \<and>
        used' + unvisited n visited' = used + unvisited n visited + length stack)"
  using assms(2)
proof (induction limit rs visited stack part used rule: component_loop.induct)
  case (2 limit rs visited node stack part used)
  show ?case
  proof (cases "used < limit")
    case True
    obtain visited1 stack1 where push: "push_unvisited (rs ! node) visited stack = (visited1, stack1)" by force
    have "set (rs ! node) \<subseteq> {..<n}"
      using reverse_bounded [OF assms(1) "2.prems"(3)] "2.prems"(2) by simp
    note P = push_unvisited_work [OF push this "2.prems"(1)]
    have "component_loop limit rs visited (node # stack) part used =
        component_loop limit rs visited1 stack1 (part @ [node]) (Suc used)"
      using True push by (simp add: component_loop.simps)
    moreover have used: "charge limit used = Inr (Suc used)" using True by simp
    ultimately show ?thesis
      using "2.IH" [OF used push [symmetric] refl _ _ "2.prems"(3)] P "2.prems"(2) by (simp split: sum.splits prod.splits)
  qed (simp add: component_loop.simps charge_def graph_fail_def)
qed simp

lemma select_loop_work:
  assumes "graph_ok n es" "reverse_ok n es rs"
  shows "length visited = n \<Longrightarrow> set roots \<subseteq> {..<n} \<Longrightarrow>
   (case select_loop limit es rs roots visited selected m used of
      Inl e \<Rightarrow> limit < used + unvisited n visited
    | Inr (selected', used') \<Rightarrow> used' \<le> used + unvisited n visited)"
proof (induction roots arbitrary: visited selected m used)
  case (Cons root roots)
  show ?case
  proof (cases "visited ! root")
    case False
    have root: "root < n" using Cons.prems by simp
    have len: "length (visited[root := True]) = n" using Cons.prems by simp
    note one = component_loop_work [OF assms len, where stack = "[root]" and part = "[]" and limit = limit and used = used]
      and p = unvisited_mark [OF root False Cons.prems(1)]
    show ?thesis
    proof (cases "component_loop limit rs (visited[root := True]) [root] [] used")
      case (Inl e)
      then show ?thesis using one p root False by simp
    next
      case (Inr r)
      then obtain visited1 part used1 where r: "r = (visited1, part, used1)" by (cases r)
      then have w: "length visited1 = n" "used1 + unvisited n visited1 = used + unvisited n visited"
        using one p root Inr by simp_all
      define sel where "sel = (if is_cyclic part es \<and> min_element part < m then (part, min_element part) else (selected, m))"
      have "select_loop limit es rs (root # roots) visited selected m used =
          select_loop limit es rs roots visited1 (fst sel) (snd sel) used1"
        using False Inr r by (auto simp: sel_def)
      then show ?thesis
        using Cons.IH [OF w(1), where selected = "fst sel" and m = "snd sel" and used = used1] w(2) Cons.prems(2)
        by (simp split: sum.splits prod.splits)
    qed
  qed (use Cons in simp)
qed simp

lemma cycle_loop_work:
  "graph_ok n es \<Longrightarrow> length visited = n \<Longrightarrow> frames_ok es stack \<Longrightarrow> fst ` set stack \<subseteq> {..<n} \<Longrightarrow>
   cycle_loop limit es ids member start visited path stack used = Inl work_error \<Longrightarrow>
   limit < used + pending n es visited + frame_work es stack"
proof (induction limit es ids member start visited path stack used rule: cycle_loop.induct)
  case (1 limit es ids member start visited path used)
  then show ?case by (simp add: work_error_def)
next
  case (2 limit es ids member start visited path u k stack used)
  show ?case
  proof (cases "used < limit")
    case True
    then have used: "charge limit used = Inr (Suc used)" by simp
    have u: "u < n" "k \<le> length (es ! u)" using "2.prems" by auto
    let ?t = "es ! u ! k"
    consider (popped) "length (es ! u) \<le> k" | (outside) "\<not> length (es ! u) \<le> k" "\<not> member ! ?t"
      | (found) "\<not> length (es ! u) \<le> k" "\<not> \<not> member ! ?t" "?t = start"
      | (old) "\<not> length (es ! u) \<le> k" "\<not> \<not> member ! ?t" "?t \<noteq> start" "visited ! ?t"
      | (new) "\<not> length (es ! u) \<le> k" "\<not> \<not> member ! ?t" "?t \<noteq> start" "\<not> visited ! ?t" by linarith
    then show ?thesis
    proof cases
      case popped
      then show ?thesis using "2.IH"(1) [OF used popped] "2.prems" True u(2) by simp
    next
      case outside
      then show ?thesis using "2.IH"(2) [OF used outside(1) refl refl outside(2)] "2.prems" True by (simp add: Let_def)
    next
      case found
      then show ?thesis using "2.prems" True by (simp add: Let_def)
    next
      case old
      then show ?thesis using "2.IH"(3) [OF used old(1) refl refl old(2-4)] "2.prems" True by (simp add: Let_def)
    next
      case new
      have t: "?t < n" using graph_ok_target [OF "2.prems"(1) u(1)] new(1) by simp
      show ?thesis
        using "2.IH"(4) [OF used new(1) refl refl new(2-4)] "2.prems" True new t
          pending_mark [OF t new(4) "2.prems"(2), of es]
        by (simp add: Let_def)
    qed
  next
    case False
    then show ?thesis using "2.prems" by simp linarith
  qed
qed

lemma order_loop_work:
  "order_inv n es rem ready order \<Longrightarrow> graph_ok n es \<Longrightarrow> dependents_ok n es ds \<Longrightarrow>
   (case order_loop limit ds rem ready order used of
      Inl e \<Rightarrow> limit < used + (n - length order)
    | Inr (order', used') \<Rightarrow> used' + length order = used + length order')"
proof (induction limit ds rem ready order used rule: order_loop.induct)
  case (2 limit ds rem d ready order used)
  have top: "topological n es order" and d: "d < n" "d \<notin> set order"
    using "2.prems"(1) unfolding order_inv_def by (metis list.set_intros(1))+
  have "card (insert d (set order)) \<le> card {..<n}"
    using d(1) topological_closed(2) [OF top] by (intro card_mono) auto
  then have less: "length order < n" using d(2) distinct_card [OF topological_closed(3) [OF top]] by simp
  show ?case
  proof (cases "used < limit")
    case True
    obtain rem1 ready1 where release: "release_importers (ds ! d) rem ready = (rem1, ready1)" by force
    have used: "charge limit used = Inr (Suc used)" using True by simp
    have "order_loop limit ds rem (d # ready) order used = order_loop limit ds rem1 ready1 (order @ [d]) (Suc used)"
      using True release by simp
    then show ?thesis
      using "2.IH" [OF used release [symmetric] refl order_inv_step [OF "2.prems" release] "2.prems"(2,3)] less
      by (auto split: sum.splits prod.splits)
  next
    case False
    then show ?thesis using less by (simp add: charge_def graph_fail_def)
  qed
qed simp

section \<open>The result\<close>

abbreviation cycle_error :: "string list \<Rightarrow> graph_error" where
  "cycle_error cycle \<equiv> ModuleGraphError ImportCycle ''package import graph contains a cycle'' (hd cycle) cycle"

lemma pending_start:
  assumes "represents modules ms es"
  shows "pending (length ms) es (replicate (length ms) False) =
    length ms + sum_list (map (\<lambda>m. length (package_imports m)) ms)"
proof -
  have "length (es ! u) = length (package_imports (ms ! u))" if "u < length ms" for u
    using assms that unfolding represents_def by (metis length_map)
  then have "(\<Sum>u<length ms. Suc (length (es ! u))) = (\<Sum>u<length ms. Suc (length (package_imports (ms ! u))))"
    by (intro sum.cong) auto
  also have "\<dots> = length ms + (\<Sum>u<length ms. length (package_imports (ms ! u)))"
    by (simp add: sum_Suc)
  also have "(\<Sum>u<length ms. length (package_imports (ms ! u))) = sum_list (map (\<lambda>m. length (package_imports m)) ms)"
    by (simp add: sum_list_sum_nth atLeast0LessThan)
  finally show ?thesis by (simp add: pending_def)
qed

lemma find_cycle_work:
  assumes "find_cycle limit selected ids es used = Inl work_error" "graph_ok n es" "length ids = n"
    "min_element selected < n"
  shows "limit < used + pending n es (replicate n False)"
proof -
  let ?m = "min_element selected" and ?start = "(replicate n False)[min_element selected := True]"
  have "limit < used + pending n es ?start + frame_work es [(?m, 0)]"
    using assms by (intro cycle_loop_work) (auto simp: find_cycle_def Let_def)
  then show ?thesis using pending_mark [of ?m n "replicate n False" es] assms(4) by simp
qed

lemma validate_edges_cases:
  assumes rep: "represents modules ms (es_edges st)" and rev: "reverse_ok (length ms) (es_edges st) (es_reverse st)"
  defines "imports_work \<equiv> sum_list (map (\<lambda>m. length (package_imports m)) ms)"
  obtains (work) "validate_edges limit (map md_id ms) st = Inl work_error"
      "limit < es_used st + 3 * length ms + 2 * imports_work"
  | (cycle) cycle where "validate_edges limit (map md_id ms) st = Inl (cycle_error cycle)" "module_cycle modules cycle"
  | (order) order used where "validate_edges limit (map md_id ms) st =
        Inr \<lparr>initialization_order = map (\<lambda>u. md_id (ms ! u)) order, package_import_edges = es_package st,
             host_import_edges = es_host st, validation_work = used\<rparr>"
      "topological (length ms) (es_edges st) order" "set order = {..<length ms}" "distinct order"
      "acyclic (edge_rel (es_edges st))" "used \<le> es_used st + 3 * length ms + imports_work"
proof -
  let ?n = "length ms" and ?es = "es_edges st" and ?ids = "map md_id ms"
  have ok: "graph_ok ?n ?es" using rep unfolding represents_def by blast
  have pend: "pending ?n ?es (replicate ?n False) = ?n + imports_work"
    unfolding imports_work_def by (rule pending_start [OF rep])
  have W1: "case finish_roots limit ?es [0..<?n] (replicate ?n False) [] (es_used st) of
      Inl e \<Rightarrow> limit < es_used st + (?n + imports_work)
    | Inr (visited', fs', used') \<Rightarrow> used' \<le> es_used st + (?n + imports_work)"
    using finish_roots_work [OF ok, where visited = "replicate ?n False" and roots = "[0..<?n]" and limit = limit
        and fs = "[]" and used = "es_used st"] pend
    by (auto simp: atLeast0LessThan split: sum.splits)
  show thesis
  proof (cases "finish_roots limit ?es [0..<?n] (replicate ?n False) [] (es_used st)")
    case (Inl e)
    then have "e = work_error" by (rule finish_roots_error)
    then show thesis using W1 Inl by (intro work) (simp_all add: validate_edges_def)
  next
    case (Inr r1)
    then obtain visited1 fs used1 where r1: "r1 = (visited1, fs, used1)" by (cases r1)
    note F = finish_roots_correct [OF Inr [unfolded r1] ok]
    have u1: "used1 \<le> es_used st + (?n + imports_work)" using W1 Inr r1 by simp
    have roots: "set (rev fs) \<subseteq> {..<?n}" using F(1) by simp
    have zero: "unvisited ?n (replicate ?n False) = ?n" by (simp add: unvisited_def)
    note W2 = select_loop_work [OF ok rev _ roots, where visited = "replicate ?n False" and limit = limit
        and selected = "[]" and m = ?n and used = used1, simplified, unfolded zero]
    show thesis
    proof (cases "select_loop limit ?es (es_reverse st) (rev fs) (replicate ?n False) [] ?n used1")
      case (Inl e)
      then have "e = work_error" by (rule select_loop_error)
      then show thesis using W2 Inl Inr r1 u1 by (intro work) (simp_all add: validate_edges_def)
    next
      case select: (Inr r2)
      then obtain selected used2 where r2: "r2 = (selected, used2)" by (cases r2)
      have u2: "used2 \<le> used1 + ?n" using W2 select r2 by simp
      obtain m where sel: "selection_ok ?n ?es {..<?n} selected m"
        using select_loop_correct [OF F(3,2,1) ok rev select [unfolded r2], of "[]"]
        by (auto simp: selection_ok_def)
      have before: "validate_edges limit ?ids st = bind_result (report_cycle limit selected ?ids ?es used2) (\<lambda>used.
          bind_result (initial_order limit ?es used) (\<lambda>(order, used).
          if length order \<noteq> ?n then Inl (GraphLogicError ''acyclic module graph did not produce a complete order'')
          else Inr \<lparr>initialization_order = map (\<lambda>node. ?ids ! node) order, package_import_edges = es_package st,
                 host_import_edges = es_host st, validation_work = used\<rparr>))"
        using Inr select by (simp add: validate_edges_def r1 r2)
      show thesis
      proof (cases "selected = []")
        case False
        have m: "m < ?n" "min_element selected = m" using sel False by (auto simp: selection_ok_def)
        note C = find_cycle_correct [OF sel False ok, of ?ids limit used2, simplified]
        show thesis
        proof (cases "find_cycle limit selected ?ids ?es used2")
          case (Inl e)
          then have e: "e = work_error" using C by (simp add: charge_Inl)
          have "limit < used2 + (?n + imports_work)"
            using find_cycle_work [OF Inl [unfolded e] ok] m pend by simp
          then show thesis using Inl e u1 u2 False by (intro work) (simp_all add: before report_cycle_def)
        next
          case (Inr r)
          then obtain cycle used3 where r: "r = (cycle, used3)" by (cases r)
          then obtain p where p: "cycle = map (\<lambda>u. ?ids ! u) (p @ [m])" "cycle_path ?es m p" using C Inr by auto
          have "module_cycle modules cycle"
            unfolding p(1) using sel by (intro cycle_path_modules [OF rep p(2) m(1)]) (auto simp: selection_ok_def)
          then show thesis using Inr r False by (intro cycle) (simp_all add: before report_cycle_def)
        qed
      next
        case True
        have acyclic: "acyclic (edge_rel ?es)" using selection_acyclic [OF _ ok] sel True by simp
        have start: "order_inv ?n ?es (map length ?es) (filter (\<lambda>u. map length ?es ! u = 0) [0..<length ?es]) []"
          by (rule order_inv_start [OF ok])
        note W3 = order_loop_work [OF start ok dependents_of_ok [OF ok], where limit = limit and used = used2, simplified]
        show thesis
        proof (cases "initial_order limit ?es used2")
          case (Inl e)
          then have "e = work_error" by (simp add: initial_order_def Let_def order_loop_error)
          then show thesis using W3 Inl u1 u2 True by (intro work) (simp_all add: before report_cycle_def initial_order_def Let_def)
        next
          case (Inr r)
          then obtain order used3 where r: "r = (order, used3)" by (cases r)
          note O = order_result [OF Inr [unfolded r] ok acyclic]
          have "used3 \<le> used2 + ?n" using W3 Inr r O(1) by (simp add: initial_order_def Let_def)
          moreover have "map (\<lambda>node. ?ids ! node) order = map (\<lambda>u. md_id (ms ! u)) order"
            using O(3) by (intro map_cong) auto
          ultimately show thesis
            using Inr r O acyclic u1 u2 True by (intro order [of order used3]) (simp_all add: before report_cycle_def)
        qed
      qed
    qed
  qed
qed

text \<open>The work charged by the checks.\<close>

lemma work_error_other [simp]:
  "work_error \<noteq> GraphSpecifierError s" "GraphSpecifierError s \<noteq> work_error"
  "work_error = ModuleGraphError code message module cycle \<longleftrightarrow> code = ValidationWorkLimitExceeded \<and>
     message = ''module graph validation work limit exceeded'' \<and> module = '''' \<and> cycle = []"
  by (auto simp: work_error_def)

lemma collect_modules_budget:
  "collect_modules is_nfc limits modules ordered used = Inl work_error \<Longrightarrow>
   max_validation_work limits < used + length modules"
proof (induction modules arbitrary: ordered used)
  case (Cons m modules)
  show ?case
  proof (cases "used < max_validation_work limits")
    case True
    with Cons.prems obtain ordered' where "collect_modules is_nfc limits modules ordered' (Suc used) = Inl work_error"
      by (auto simp: error_simps split_beta split: if_splits)
    from Cons.IH [OF this] show ?thesis by simp
  qed simp
qed simp

lemma import_loop_budget:
  "es_total st \<le> max_import_edges limits \<Longrightarrow>
   (case import_loop is_nfc limits ids source ims st of
      Inl e \<Rightarrow> e = work_error \<longrightarrow> max_validation_work limits + es_total st \<le> es_used st + max_import_edges limits
    | Inr st' \<Rightarrow> es_total st' \<le> max_import_edges limits \<and> es_used st' + es_total st = es_used st + es_total st')"
proof (induction ims arbitrary: st)
  case (Cons i ims)
  consider (work) "max_validation_work limits \<le> es_used st"
    | (edges) "es_used st < max_validation_work limits" "max_import_edges limits \<le> es_total st"
    | (invalid) s where "es_used st < max_validation_work limits" "es_total st < max_import_edges limits"
        "validate_module_specifier i is_nfc (gl_specifier limits) = Inl s"
    | (valid) spec where "es_used st < max_validation_work limits" "es_total st < max_import_edges limits"
        "validate_module_specifier i is_nfc (gl_specifier limits) = Inr spec"
    by (metis not_less obj_sumE)
  then show ?case
  proof cases
    case valid
    let ?st = "st\<lparr>es_used := Suc (es_used st), es_total := Suc (es_total st)\<rparr>"
    let ?lookup = "map_of (zip ids [0..<length ids]) (canonical_id spec)"
    let ?host = "?st\<lparr>es_host := Suc (es_host st)\<rparr>"
    let ?package = "\<lambda>t. ?st\<lparr>es_package := Suc (es_package st),
      es_edges := (es_edges st)[source := es_edges st ! source @ [t]],
      es_reverse := (es_reverse st)[t := es_reverse st ! t @ [source]]\<rparr>"
    have r: "import_loop is_nfc limits ids source (i # ims) st =
      (if spec_kind spec = HostModule then import_loop is_nfc limits ids source ims ?host
       else case ?lookup of None \<Rightarrow> graph_fail MissingModule ''imported package module is absent from the graph'' (canonical_id spec)
         | Some t \<Rightarrow> import_loop is_nfc limits ids source ims (?package t))"
      using valid by (cases ?lookup) (simp_all add: propagate_def Let_def del: map_of_eq_None_iff map_of_zip_is_None)
    have room: "es_total ?host \<le> max_import_edges limits" "es_total (?package t) \<le> max_import_edges limits" for t
      using valid(2) by simp_all
    show ?thesis
    proof (cases "spec_kind spec = HostModule")
      case True
      then have "import_loop is_nfc limits ids source (i # ims) st = import_loop is_nfc limits ids source ims ?host"
        by (simp only: r if_True simp_thms)
      then show ?thesis using Cons.IH [OF room(1)] by (simp split: sum.splits)
    next
      case package: False
      show ?thesis
      proof (cases ?lookup)
        case None
        then show ?thesis unfolding r using package by (simp only: if_False option.case) (simp add: graph_fail_def work_error_def)
      next
        case (Some t)
        then have "import_loop is_nfc limits ids source (i # ims) st = import_loop is_nfc limits ids source ims (?package t)"
          using package by (simp only: r if_False option.case)
        then show ?thesis using Cons.IH [OF room(2) [of t]] by (simp split: sum.splits)
      qed
    qed
  qed (use Cons.prems in \<open>auto simp: charge_def graph_fail_def propagate_def Let_def work_error_def split: if_splits\<close>)
qed simp

lemma source_loop_budget:
  "es_total st \<le> max_import_edges limits \<Longrightarrow>
   (case source_loop is_nfc limits ids source ms st of
      Inl e \<Rightarrow> e = work_error \<longrightarrow> max_validation_work limits + es_total st \<le> es_used st + max_import_edges limits
    | Inr st' \<Rightarrow> es_total st' \<le> max_import_edges limits \<and> es_used st' + es_total st = es_used st + es_total st')"
proof (induction ms arbitrary: source st)
  case (Cons m ms)
  note one = import_loop_budget [OF Cons.prems, where is_nfc = is_nfc and ids = ids and source = source and ims = "md_imports m"]
  show ?case
  proof (cases "import_loop is_nfc limits ids source (md_imports m) st")
    case (Inl e)
    then show ?thesis using one by simp
  next
    case (Inr st1)
    then show ?thesis using one Cons.IH [of st1 "Suc source"] by (auto split: sum.splits)
  qed
qed simp

subsection \<open>The properties\<close>

text \<open>Every way in which the validation ends.\<close>

lemma validate_cases:
  obtains (argument) s where "validate_module_graph modules is_nfc limits = Inl (GraphInvalidArgument s)"
  | (rejected) e where "validate_module_graph modules is_nfc limits = Inl e" "check_error e"
      "e = work_error \<Longrightarrow> max_validation_work limits < 4 * max_modules limits + 3 * max_import_edges limits"
  | (cycle) cycle where "validate_module_graph modules is_nfc limits = Inl (cycle_error cycle)" "module_cycle modules cycle"
  | (order) ms es order used where "validate_module_graph modules is_nfc limits =
        Inr \<lparr>initialization_order = map (\<lambda>u. md_id (ms ! u)) order,
             package_import_edges = sum_list (map (\<lambda>m. length (package_imports m)) ms),
             host_import_edges = sum_list (map (\<lambda>m. length (host_imports m)) ms), validation_work = used\<rparr>"
      "represents modules ms es" "topological (length ms) es order" "set order = {..<length ms}" "distinct order"
      "acyclic (edge_rel es)" "used \<le> 4 * length modules + 2 * sum_list (map (\<lambda>m. length (md_imports m)) ms)"
      "\<forall>m\<in>set modules. \<forall>i\<in>insert (md_id m) (set (md_imports m)). specifier_accepted i is_nfc (gl_specifier limits)"
proof -
  let ?v = "validate_module_graph modules is_nfc limits" and ?limit = "max_validation_work limits"
  show thesis
  proof (cases "max_modules limits = 0 \<or> max_import_edges limits = 0 \<or> max_validation_work limits = 0")
    case True
    then show thesis by (intro argument) (auto simp: validate_module_graph_def)
  next
    case positive: False
    show thesis
    proof (cases "length modules > max_modules limits")
      case True
      then show thesis using positive
        by (intro rejected [of "ModuleGraphError ModuleLimitExceeded ''module count exceeds graph limit'' '''' []"])
          (simp_all add: validate_module_graph_def graph_fail_def work_error_def)
    next
      case small: False
      have v: "?v = bind_result (collect_modules is_nfc limits modules [] 0) (\<lambda>(ordered, used).
          bind_result (source_loop is_nfc limits (map fst ordered) 0 (map snd ordered) (empty_edges (length ordered) used))
            (validate_edges ?limit (map fst ordered)))"
        using positive small by (simp add: validate_module_graph_def Let_def)
      show thesis
      proof (cases "collect_modules is_nfc limits modules [] 0")
        case (Inl e)
        then show thesis
          using collect_modules_error [OF Inl] collect_modules_budget [of is_nfc limits modules "[]" 0] small
          by (intro rejected [of e]) (auto simp: v)
      next
        case (Inr c)
        then obtain ordered used where c: "c = (ordered, used)" by (cases c)
        let ?ms = "map snd ordered" and ?start = "empty_edges (length ordered) used"
        have used: "used = length modules" "length ordered = length modules"
          using collect_modules_result [OF Inr [unfolded c], simplified] by auto
        note budget = source_loop_budget [of ?start limits, where is_nfc = is_nfc and ids = "map fst ordered"
            and source = 0 and ms = ?ms]
        show thesis
        proof (cases "source_loop is_nfc limits (map fst ordered) 0 ?ms ?start")
          case (Inl e)
          have "?v = Inl e" using Inr Inl by (simp add: v c)
          moreover have "e = work_error \<Longrightarrow> ?limit < 4 * max_modules limits + 3 * max_import_edges limits"
            using budget Inl used small positive by (simp add: empty_edges_def)
          ultimately show thesis using source_loop_error [OF Inl] by (intro rejected)
        next
          case source: (Inr st)
          note S = stages [OF Inr [unfolded c] source]
          have total: "es_used st = length modules + es_total st" "es_total st \<le> max_import_edges limits"
            using budget source used by (simp_all add: empty_edges_def)
          have fewer: "sum_list (map (\<lambda>m. length (package_imports m)) ?ms) \<le> sum_list (map (\<lambda>m. length (md_imports m)) ?ms)"
            by (intro sum_list_mono) (simp add: package_imports_def)
          have "?v = validate_edges ?limit (map fst ordered) st" using Inr source by (simp add: v c)
          then have eq: "?v = validate_edges ?limit (map md_id ?ms) st" unfolding S(2) .
          show thesis
            using S(1) S(3) [folded length_map [of snd ordered]]
          proof (cases rule: validate_edges_cases [where limit = ?limit])
            case work
            then show thesis
              using eq total S(6) used fewer small
              by (intro rejected [of work_error]) simp_all
          next
            case (cycle cycle)
            then show thesis using eq by (intro that(3)) simp_all
          next
            case (order order used')
            then show thesis
              using eq S used fewer by (intro that(4) [of ?ms order used' "es_edges st"]) simp_all
          qed
        qed
      qed
    qed
  qed
qed

definition initializable :: "module_definition list \<Rightarrow> string list \<Rightarrow> module_definition \<Rightarrow> bool" where
  "initializable modules earlier m \<longleftrightarrow> m \<in> set modules \<and> md_id m \<notin> set earlier \<and>
     set (package_imports m) \<subseteq> set earlier"

text \<open>C4 (validate_module_graph_order): a validated graph has an initialization order in which every module
  occurs once and comes after all the package modules it imports; it is the one that always takes
  the bytewise least module that can be initialized. All names are accepted specifiers, the
  counters are the numbers of package and host imports, and the work is linear.\<close>

theorem validate_module_graph_order:
  assumes "validate_module_graph modules is_nfc limits = Inr g"
  shows "mset (initialization_order g) = mset (map md_id modules) \<and> distinct (initialization_order g) \<and>
    (\<forall>k<length (initialization_order g).
       (\<exists>m. initializable modules (take k (initialization_order g)) m \<and> md_id m = initialization_order g ! k) \<and>
       (\<forall>m. initializable modules (take k (initialization_order g)) m \<longrightarrow> initialization_order g ! k \<le> md_id m)) \<and>
    (\<forall>m\<in>set modules. \<forall>i\<in>insert (md_id m) (set (md_imports m)). specifier_accepted i is_nfc (gl_specifier limits)) \<and>
    package_import_edges g = sum_list (map (\<lambda>m. length (package_imports m)) modules) \<and>
    host_import_edges g = sum_list (map (\<lambda>m. length (host_imports m)) modules) \<and>
    validation_work g \<le> 4 * length modules + 2 * sum_list (map (\<lambda>m. length (md_imports m)) modules)"
proof (cases rule: validate_cases [of modules is_nfc limits])
  case (order ms es order used)
  let ?n = "length ms" and ?o = "map (\<lambda>u. md_id (ms ! u)) order"
  have g: "initialization_order g = ?o" "package_import_edges g = sum_list (map (\<lambda>m. length (package_imports m)) ms)"
    "host_import_edges g = sum_list (map (\<lambda>m. length (host_imports m)) ms)" "validation_work g = used"
    using assms order(1) by auto
  have rep: "set ms = set modules" "sorted_wrt (<) (map md_id ms)"
    "\<And>u. u < ?n \<Longrightarrow> map (\<lambda>v. md_id (ms ! v)) (es ! u) = package_imports (ms ! u)"
    and inside: "\<And>u. u < ?n \<Longrightarrow> set (es ! u) \<subseteq> {..<?n}"
    using order(2) unfolding represents_def graph_ok_def by blast+
  have perm: "mset ms = mset modules"
  proof (rule set_eq_iff_mset_eq_distinct [THEN iffD1])
    show "distinct ms" "distinct modules" using represents_distinct [OF order(2)] by (simp_all add: distinct_map)
  qed (rule rep(1))
  have sums: "sum_list (map f ms) = sum_list (map f modules)" for f :: "module_definition \<Rightarrow> nat"
    using perm by (metis mset_map sum_mset_sum_list)
  have "mset order = mset [0..<?n]"
    using order(4,5) by (intro set_eq_iff_mset_eq_distinct [THEN iffD1]) (simp_all add: atLeast0LessThan)
  then have "mset ?o = mset (map (\<lambda>u. md_id (ms ! u)) [0..<?n])" by simp
  also have "map (\<lambda>u. md_id (ms ! u)) [0..<?n] = map md_id ms" by (rule nth_equalityI) simp_all
  finally have all: "mset ?o = mset (map md_id modules)" using perm by simp
  have dist: "distinct ?o"
    using all represents_distinct(2) [OF order(2)] by (metis mset_eq_imp_distinct_iff)
  have same: "md_id (ms ! u) \<in> set (take k ?o) \<longleftrightarrow> u \<in> set (take k order)" if "u < ?n" for u k
    using that sorted_ids(3) [OF rep(2)] order(4) by (auto simp: take_map dest: in_set_takeD)
  have ready: "initializable modules (take k ?o) (ms ! u) \<longleftrightarrow>
      u \<notin> set (take k order) \<and> set (es ! u) \<subseteq> set (take k order)" if u: "u < ?n" for u k
  proof -
    have img: "set (package_imports (ms ! u)) = (\<lambda>v. md_id (ms ! v)) ` set (es ! u)"
      by (metis list.set_map rep(3) u)
    have "md_id (ms ! v) \<in> set (take k ?o) \<longleftrightarrow> v \<in> set (take k order)" if "v \<in> set (es ! u)" for v
    proof -
      have "v < ?n" using inside [OF u] that by blast
      then show ?thesis by (rule same)
    qed
    then have "set (package_imports (ms ! u)) \<subseteq> set (take k ?o) \<longleftrightarrow> set (es ! u) \<subseteq> set (take k order)"
      unfolding img image_subset_iff subset_iff [of "set (es ! u)"] by blast
    moreover have "ms ! u \<in> set modules" unfolding rep(1) [symmetric] by (rule nth_mem [OF u])
    ultimately show ?thesis using same [OF u] by (simp add: initializable_def)
  qed
  have "(\<exists>m. initializable modules (take k ?o) m \<and> md_id m = ?o ! k) \<and>
      (\<forall>m. initializable modules (take k ?o) m \<longrightarrow> ?o ! k \<le> md_id m)" if k: "k < length ?o" for k
  proof -
    have least: "least_ready ?n es (set (take k order)) (order ! k)"
      using order(3) k by (simp add: topological_def)
    then have x: "order ! k < ?n" "initializable modules (take k ?o) (ms ! (order ! k))"
      using ready by (auto simp: least_ready_def)
    have "?o ! k \<le> md_id m" if m: "initializable modules (take k ?o) m" for m
    proof -
      obtain u where "u < ?n" "m = ms ! u"
        using m rep(1) unfolding initializable_def by (metis in_set_conv_nth)
      then show ?thesis
        using m least ready x(1) k sorted_ids(2) [OF rep(2), of "order ! k" u] by (auto simp: least_ready_def)
    qed
    with x k show ?thesis by auto
  qed
  with all dist g sums order(7,8) show ?thesis by simp
qed (use assms in auto)

lemma validate_module_graph_order_witness:
  "let modules = [\<lparr>md_id = ''app'', md_imports = [''lib'', ''baas/log'']\<rparr>, \<lparr>md_id = ''lib'', md_imports = []\<rparr>]
   in \<exists>g. validate_module_graph modules None default_graph_limits = Inr g \<and>
     mset (initialization_order g) = mset (map md_id modules)"
proof -
  let ?modules = "[\<lparr>md_id = ''app'', md_imports = [''lib'', ''baas/log'']\<rparr>, \<lparr>md_id = ''lib'', md_imports = []\<rparr>]"
  have "validate_module_graph ?modules None default_graph_limits = Inr
      \<lparr>initialization_order = [''lib'', ''app''], package_import_edges = 1, host_import_edges = 1, validation_work = 11\<rparr>"
    by code_simp
  with validate_module_graph_order [OF this] show ?thesis unfolding Let_def by blast
qed

text \<open>C12 (validate_module_graph_cycle): a reported import cycle is one: it lists at least two names, the first
  and the last equal, each importing the next; the module that the error names is its first, and
  it is the bytewise least of all modules that lie on any cycle.\<close>

theorem validate_module_graph_cycle:
  assumes "validate_module_graph modules is_nfc limits = Inl (ModuleGraphError ImportCycle message module cycle)"
  shows "module_cycle modules cycle \<and> module = hd cycle"
proof (cases rule: validate_cases [of modules is_nfc limits])
  case (rejected e)
  with assms show ?thesis by (auto simp: check_error_def work_error_def)
qed (use assms in auto)

lemma validate_module_graph_cycle_witness:
  "module_cycle [\<lparr>md_id = ''b'', md_imports = [''a'']\<rparr>, \<lparr>md_id = ''a'', md_imports = [''b'']\<rparr>] [''a'', ''b'', ''a'']"
proof -
  have "validate_module_graph [\<lparr>md_id = ''b'', md_imports = [''a'']\<rparr>, \<lparr>md_id = ''a'', md_imports = [''b'']\<rparr>] None
      default_graph_limits =
      Inl (ModuleGraphError ImportCycle ''package import graph contains a cycle'' ''a'' [''a'', ''b'', ''a''])"
    by code_simp
  from validate_module_graph_cycle [OF this] show ?thesis by simp
qed

text \<open>C5 (validate_module_graph_decides): the two internal consistency checks never fail (no
  \<open>std::logic_error\<close> is thrown), and validation reports a cycle if and only if it gets past all
  other checks and the package imports are cyclic: it never returns an order for a cyclic graph,
  nor reports a cycle for an acyclic one.\<close>

theorem validate_module_graph_decides:
  "validate_module_graph modules is_nfc limits \<noteq> Inl (GraphLogicError message) \<and>
   \<not> (\<exists>g. validate_module_graph modules is_nfc limits = Inr g \<and> \<not> acyclic (depends modules)) \<and>
   \<not> (\<exists>message module cycle. validate_module_graph modules is_nfc limits =
         Inl (ModuleGraphError ImportCycle message module cycle) \<and> acyclic (depends modules))"
proof (cases rule: validate_cases [of modules is_nfc limits])
  case (cycle cycle)
  then obtain a b rest where c: "cycle = a # b # rest" "last cycle = a"
    by (cases cycle; cases "tl cycle") (auto simp: module_cycle_def split: if_splits)
  have "(a, last (b # rest)) \<in> (depends modules)\<^sup>+"
    using cycle(2) unfolding module_cycle_def c(1)
  proof -
    assume "2 \<le> length (a # b # rest) \<and> hd (a # b # rest) = last (a # b # rest) \<and>
        successively (\<lambda>a b. (a, b) \<in> depends modules) (a # b # rest) \<and>
        (\<forall>x. (x, x) \<in> (depends modules)\<^sup>+ \<longrightarrow> hd (a # b # rest) \<le> x)"
    then have "successively (\<lambda>a b. (a, b) \<in> depends modules) (a # b # rest)" by blast
    then show ?thesis
    proof (induction rest arbitrary: a b)
      case (Cons c rest)
      then have "(b, last (c # rest)) \<in> (depends modules)\<^sup>+" "(a, b) \<in> depends modules" by auto
      then show ?case by (auto intro: trancl_into_trancl2)
    qed auto
  qed
  then have "\<not> acyclic (depends modules)" using c unfolding acyclic_def by auto
  with cycle show ?thesis by auto
next
  case (order ms es order used)
  have "acyclic (depends modules)"
    unfolding acyclic_def
  proof (intro allI notI)
    fix a assume a: "(a, a) \<in> (depends modules)\<^sup>+"
    obtain b where "(a, b) \<in> depends modules" using tranclD [OF a] by blast
    moreover have rep: "set ms = set modules" "sorted_wrt (<) (map md_id ms)" "graph_ok (length ms) es"
      using order(2) unfolding represents_def by blast+
    ultimately obtain u where u: "u < length ms" "a = md_id (ms ! u)" using depends_from by blast
    then obtain v where v: "(u, v) \<in> (edge_rel es)\<^sup>+" "a = md_id (ms ! v)"
      using a depends_trancl [OF order(2)] by blast
    have "v < length ms" using tranclD2 [OF v(1)] edge_rel_bounds [OF rep(3)] by blast
    then have "v = u" using sorted_ids(3) [OF rep(2), of v u] u v(2) by simp
    with v(1) order(6) show False by (simp add: acyclic_def)
  qed
  with order(1) show ?thesis by simp
qed (auto simp: check_error_def work_error_def)

text \<open>C34 (validation_work_suffices): if the work limit is at least four times the module limit plus three
  times the import limit, as it is by default, then it is never exceeded: every graph within the
  other two limits is decided.\<close>

theorem validation_work_suffices:
  assumes "4 * max_modules limits + 3 * max_import_edges limits \<le> max_validation_work limits"
  shows "validate_module_graph modules is_nfc limits \<noteq>
    Inl (ModuleGraphError ValidationWorkLimitExceeded message module cycle)"
proof (cases rule: validate_cases [of modules is_nfc limits])
  case (rejected e)
  then show ?thesis using assms by (auto simp: check_error_def)
qed auto

lemma validation_work_suffices_witness:
  "validate_module_graph [] None default_graph_limits \<noteq>
     Inl (ModuleGraphError ValidationWorkLimitExceeded [] [] [])"
  by (rule validation_work_suffices) (simp add: default_graph_limits_def)

end
