(* ===== verification/BoundedExecutor.thy ===== *)
theory BoundedExecutor
  imports Prelude "HOL-Library.Multiset"
begin

text \<open>
  The bounded executor of the script runtime (src/include/script/runtime/BoundedExecutor.h,
  src/src/script/runtime/BoundedExecutor.cpp) as a state machine.  An action is what one thread
  does between two points at which another may run: a section under the mutex, one atomic
  exchange of a task's phase, one assignment to its promise.  Workers and the calls of clients
  have program counters; \<open>perform\<close> is a partial function, undefined where the action is not
  enabled (a wait whose condition is false, for instance).  A task is the number it gets when it
  is accepted; what its callable returns or throws is chosen by the action.  A call of Shutdown
  carries whether its caller is a worker of the executor.  The condition
  variables carry no data, so notifications are not modelled; a task that is refused is dropped
  with its handle.
\<close>

section \<open>Tasks\<close>

datatype task_phase = PhaseQueued | PhaseRunning | PhaseFinished | PhaseCancelled

datatype outcome = Returned | Threw | TaskCancelledError

record task =
  tk_phase :: task_phase
  tk_stop_requested :: bool
  tk_promise :: "outcome option"

definition new_task :: task where
  "new_task = \<lparr>tk_phase = PhaseQueued, tk_stop_requested = False, tk_promise = None\<rparr>"

text \<open>\<open>compare_exchange_strong\<close> on the phase: whether it was the expected one, and the task.\<close>

definition exchange_phase :: "task_phase \<Rightarrow> task_phase \<Rightarrow> task \<Rightarrow> bool \<times> task" where
  "exchange_phase expected desired task = (if tk_phase task = expected
     then (True, task\<lparr>tk_phase := desired\<rparr>) else (False, task))"

definition begin_execution :: "task \<Rightarrow> bool \<times> task" where
  "begin_execution = exchange_phase PhaseQueued PhaseRunning"

definition finish_execution :: "task \<Rightarrow> task" where
  "finish_execution task = task\<lparr>tk_phase := PhaseFinished\<rparr>"

definition cancel_exchange :: "task \<Rightarrow> bool \<times> task" where
  "cancel_exchange = exchange_phase PhaseQueued PhaseCancelled"

definition request_stop :: "task \<Rightarrow> bool \<times> task" where
  "request_stop task = (\<not> tk_stop_requested task, task\<lparr>tk_stop_requested := True\<rparr>)"

text \<open>A promise is set once; a second attempt throws, which the code swallows.\<close>

definition set_promise :: "outcome \<Rightarrow> task \<Rightarrow> task" where
  "set_promise result task = (if tk_promise task = None then task\<lparr>tk_promise := Some result\<rparr> else task)"

section \<open>State\<close>

datatype worker = WaitingForTask | HoldingTask nat | InvokingTask nat | FulfilledTask nat | ExitingWorker | ExitedWorker

datatype client =
    CancelCalled nat
  | CancelRemoved nat | CancelElsewhere nat
  | CancelSettling nat | CancelStopping nat | CancelReturned bool
  | ShutdownPending bool "nat list" | ShutdownSettling bool nat "nat list" | ShutdownJoining bool
  | ShutdownDetached | ShutdownReturned

datatype enqueue_result = EnqueueAccepted | EnqueueFull | EnqueueTimeout | EnqueueShutdown

datatype shutdown_mode = Drain | CancelPending

record executor =
  ex_capacity :: nat
  ex_queue :: "nat list"
  ex_accepting :: bool
  ex_stopping :: bool
  ex_workers_remaining :: nat
  ex_tasks :: "task list"
  ex_workers :: "worker list"
  ex_clients :: "client list"

text \<open>The constructor; \<open>Inl\<close> is the message of the \<open>std::invalid_argument\<close>.\<close>

definition make_executor :: "nat \<Rightarrow> nat \<Rightarrow> (string, executor) result" where
  "make_executor worker_count queue_capacity =
    (if worker_count = 0 then Inl ''worker_count must be greater than zero''
     else if queue_capacity = 0 then Inl ''queue_capacity must be greater than zero''
     else Inr \<lparr>ex_capacity = queue_capacity, ex_queue = [], ex_accepting = True, ex_stopping = False,
       ex_workers_remaining = worker_count, ex_tasks = [],
       ex_workers = replicate worker_count WaitingForTask, ex_clients = []\<rparr>)"

section \<open>The sections under the mutex\<close>

definition push_task :: "executor \<Rightarrow> executor" where
  "push_task ex = ex\<lparr>ex_tasks := ex_tasks ex @ [new_task], ex_queue := ex_queue ex @ [length (ex_tasks ex)]\<rparr>"

definition try_enqueue :: "executor \<Rightarrow> enqueue_result \<times> executor" where
  "try_enqueue ex = (if \<not> ex_accepting ex then (EnqueueShutdown, ex)
     else if length (ex_queue ex) \<ge> ex_capacity ex then (EnqueueFull, ex)
     else (EnqueueAccepted, push_task ex))"

text \<open>\<open>EnqueueUntil\<close> when its wait ends: the condition holds or the deadline has passed.\<close>

definition enqueue_until :: "bool \<Rightarrow> executor \<Rightarrow> (enqueue_result \<times> executor) option" where
  "enqueue_until expired ex =
    (let ready = (\<not> ex_accepting ex \<or> length (ex_queue ex) < ex_capacity ex) in
     if \<not> ready \<and> \<not> expired then None
     else Some (if \<not> ex_accepting ex then (EnqueueShutdown, ex)
       else if \<not> ready then (EnqueueTimeout, ex)
       else (EnqueueAccepted, push_task ex)))"

text \<open>What \<open>TrySubmit\<close> and \<open>SubmitUntil\<close> make of it: a handle, a disengaged optional, an exception
  or \<open>std::terminate\<close>.\<close>

datatype submission = SubmitHandle | SubmitNullopt | SubmitShutdown | SubmitTimeout | SubmitTerminate

fun try_submit_outcome :: "enqueue_result \<Rightarrow> submission" where
  "try_submit_outcome EnqueueAccepted = SubmitHandle"
| "try_submit_outcome EnqueueFull = SubmitNullopt"
| "try_submit_outcome EnqueueShutdown = SubmitShutdown"
| "try_submit_outcome EnqueueTimeout = SubmitTerminate"

fun submit_until_outcome :: "enqueue_result \<Rightarrow> submission" where
  "submit_until_outcome EnqueueAccepted = SubmitHandle"
| "submit_until_outcome EnqueueShutdown = SubmitShutdown"
| "submit_until_outcome EnqueueTimeout = SubmitTimeout"
| "submit_until_outcome EnqueueFull = SubmitTerminate"

definition try_submit :: "executor \<Rightarrow> submission \<times> executor" where
  "try_submit ex = (let (result, ex') = try_enqueue ex in (try_submit_outcome result, ex'))"

definition submit_until :: "bool \<Rightarrow> executor \<Rightarrow> (submission \<times> executor) option" where
  "submit_until expired ex = map_option (\<lambda>(result, ex'). (submit_until_outcome result, ex')) (enqueue_until expired ex)"

definition update_task :: "nat \<Rightarrow> (task \<Rightarrow> task) \<Rightarrow> executor \<Rightarrow> executor" where
  "update_task t f ex = ex\<lparr>ex_tasks := (ex_tasks ex)[t := f (ex_tasks ex ! t)]\<rparr>"

definition set_worker :: "nat \<Rightarrow> worker \<Rightarrow> executor \<Rightarrow> executor" where
  "set_worker i w ex = ex\<lparr>ex_workers := (ex_workers ex)[i := w]\<rparr>"

definition set_client :: "nat \<Rightarrow> client \<Rightarrow> executor \<Rightarrow> executor" where
  "set_client j c ex = ex\<lparr>ex_clients := (ex_clients ex)[j := c]\<rparr>"

text \<open>\<open>RunWorker\<close>: the wait of the loop ends when stopping or when the queue is not empty; then
  the worker takes the front of the queue or leaves the loop, and \<open>ExitGuard\<close> counts it.\<close>

definition worker_turn :: "nat \<Rightarrow> executor \<Rightarrow> executor option" where
  "worker_turn i ex = (if \<not> (ex_stopping ex \<or> ex_queue ex \<noteq> []) then None
     else case ex_queue ex of
       [] \<Rightarrow> Some (set_worker i ExitingWorker ex)
     | t # queue \<Rightarrow> Some (set_worker i (HoldingTask t) (ex\<lparr>ex_queue := queue\<rparr>)))"

definition worker_exit :: "nat \<Rightarrow> executor \<Rightarrow> executor" where
  "worker_exit i ex = set_worker i ExitedWorker (ex\<lparr>ex_workers_remaining := ex_workers_remaining ex - 1\<rparr>)"

text \<open>\<open>Task::Execute\<close> in three actions.\<close>

definition execute_begin :: "nat \<Rightarrow> nat \<Rightarrow> executor \<Rightarrow> executor" where
  "execute_begin i t ex = (let (ok, task) = begin_execution (ex_tasks ex ! t) in
     set_worker i (if ok then InvokingTask t else WaitingForTask) (update_task t (\<lambda>_. task) ex))"

definition execute_invoke :: "nat \<Rightarrow> nat \<Rightarrow> bool \<Rightarrow> executor \<Rightarrow> executor" where
  "execute_invoke i t throws ex =
     set_worker i (FulfilledTask t) (update_task t (set_promise (if throws then Threw else Returned)) ex)"

definition execute_finish :: "nat \<Rightarrow> nat \<Rightarrow> executor \<Rightarrow> executor" where
  "execute_finish i t ex = set_worker i WaitingForTask (update_task t finish_execution ex)"

text \<open>\<open>State::Cancel\<close>: the section under the mutex, then \<open>CancelQueued\<close> or \<open>RequestCancel\<close>.\<close>

definition cancel_locked :: "nat \<Rightarrow> nat \<Rightarrow> executor \<Rightarrow> executor" where
  "cancel_locked j t ex = (if t \<in> set (ex_queue ex)
     then set_client j (CancelRemoved t) (ex\<lparr>ex_queue := remove1 t (ex_queue ex)\<rparr>)
     else set_client j (CancelElsewhere t) ex)"

definition cancel_queued :: "nat \<Rightarrow> nat \<Rightarrow> executor \<Rightarrow> executor" where
  "cancel_queued j t ex = (let (ok, task) = cancel_exchange (ex_tasks ex ! t) in
     set_client j (if ok then CancelSettling t else CancelReturned False) (update_task t (\<lambda>_. task) ex))"

definition request_cancel :: "nat \<Rightarrow> nat \<Rightarrow> executor \<Rightarrow> executor" where
  "request_cancel j t ex = (let (ok, task) = cancel_exchange (ex_tasks ex ! t) in
     set_client j (if ok then CancelSettling t
         else if tk_phase task = PhaseRunning then CancelStopping t else CancelReturned False)
       (update_task t (\<lambda>_. task) ex))"

definition cancel_settle :: "nat \<Rightarrow> nat \<Rightarrow> executor \<Rightarrow> executor" where
  "cancel_settle j t ex = set_client j (CancelReturned True) (update_task t (set_promise TaskCancelledError) ex)"

definition cancel_stop :: "nat \<Rightarrow> nat \<Rightarrow> executor \<Rightarrow> executor" where
  "cancel_stop j t ex = (let (first, task) = request_stop (ex_tasks ex ! t) in
     set_client j (CancelReturned first) (update_task t (\<lambda>_. task) ex))"

text \<open>\<open>BeginShutdown\<close>: the section under the mutex, then the pending tasks one by one; then
  \<open>JoinAll\<close>, which waits for all workers unless the caller is one of them, whose thread is
  detached instead.\<close>

definition begin_shutdown :: "shutdown_mode \<Rightarrow> bool \<Rightarrow> executor \<Rightarrow> executor" where
  "begin_shutdown mode from_worker ex =
    (if ex_stopping ex then ex\<lparr>ex_clients := ex_clients ex @ [ShutdownJoining from_worker]\<rparr>
     else let ex1 = ex\<lparr>ex_accepting := False, ex_stopping := True\<rparr> in
       if mode = CancelPending
       then ex1\<lparr>ex_queue := [], ex_clients := ex_clients ex @ [ShutdownPending from_worker (ex_queue ex)]\<rparr>
       else ex1\<lparr>ex_clients := ex_clients ex @ [ShutdownPending from_worker []]\<rparr>)"

definition shutdown_cancel :: "nat \<Rightarrow> bool \<Rightarrow> nat list \<Rightarrow> executor \<Rightarrow> executor" where
  "shutdown_cancel j from_worker pending ex = (case pending of
       [] \<Rightarrow> set_client j (ShutdownJoining from_worker) ex
     | t # ts \<Rightarrow> let (ok, task) = cancel_exchange (ex_tasks ex ! t) in
         set_client j (if ok then ShutdownSettling from_worker t ts else ShutdownPending from_worker ts)
           (update_task t (\<lambda>_. task) ex))"

definition shutdown_settle :: "nat \<Rightarrow> bool \<Rightarrow> nat \<Rightarrow> nat list \<Rightarrow> executor \<Rightarrow> executor" where
  "shutdown_settle j from_worker t ts ex =
     set_client j (ShutdownPending from_worker ts) (update_task t (set_promise TaskCancelledError) ex)"

definition join_all :: "nat \<Rightarrow> bool \<Rightarrow> executor \<Rightarrow> executor option" where
  "join_all j from_worker ex =
    (if from_worker then Some (set_client j ShutdownDetached ex)
     else if ex_workers_remaining ex = 0 then Some (set_client j ShutdownReturned ex) else None)"

section \<open>Actions\<close>

datatype action =
    TrySubmit | SubmitUntil bool
  | WorkerAct nat bool
  | CallCancel nat | ClientAct nat
  | CallShutdown shutdown_mode bool

definition worker_act :: "nat \<Rightarrow> bool \<Rightarrow> executor \<Rightarrow> executor option" where
  "worker_act i throws ex = (case ex_workers ex ! i of
       WaitingForTask \<Rightarrow> worker_turn i ex
     | HoldingTask t \<Rightarrow> Some (execute_begin i t ex)
     | InvokingTask t \<Rightarrow> Some (execute_invoke i t throws ex)
     | FulfilledTask t \<Rightarrow> Some (execute_finish i t ex)
     | ExitingWorker \<Rightarrow> Some (worker_exit i ex)
     | ExitedWorker \<Rightarrow> None)"

definition client_act :: "nat \<Rightarrow> executor \<Rightarrow> executor option" where
  "client_act j ex = (case ex_clients ex ! j of
       CancelCalled t \<Rightarrow> Some (cancel_locked j t ex)
     | CancelRemoved t \<Rightarrow> Some (cancel_queued j t ex)
     | CancelElsewhere t \<Rightarrow> Some (request_cancel j t ex)
     | CancelSettling t \<Rightarrow> Some (cancel_settle j t ex)
     | CancelStopping t \<Rightarrow> Some (cancel_stop j t ex)
     | CancelReturned r \<Rightarrow> None
     | ShutdownPending w ts \<Rightarrow> Some (shutdown_cancel j w ts ex)
     | ShutdownSettling w t ts \<Rightarrow> Some (shutdown_settle j w t ts ex)
     | ShutdownJoining w \<Rightarrow> join_all j w ex
     | ShutdownDetached \<Rightarrow> None
     | ShutdownReturned \<Rightarrow> None)"

fun perform :: "action \<Rightarrow> executor \<Rightarrow> executor option" where
  "perform TrySubmit ex = Some (snd (try_submit ex))"
| "perform (SubmitUntil expired) ex = map_option snd (submit_until expired ex)"
| "perform (WorkerAct i throws) ex = (if i < length (ex_workers ex) then worker_act i throws ex else None)"
| "perform (CallCancel t) ex = (if t < length (ex_tasks ex)
     then Some (ex\<lparr>ex_clients := ex_clients ex @ [CancelCalled t]\<rparr>) else None)"
| "perform (ClientAct j) ex = (if j < length (ex_clients ex) then client_act j ex else None)"
| "perform (CallShutdown mode from_worker) ex = Some (begin_shutdown mode from_worker ex)"

inductive exec_step :: "executor \<Rightarrow> executor \<Rightarrow> bool" where
  act: "perform a ex = Some ex' \<Longrightarrow> exec_step ex ex'"

inductive_cases exec_stepE: "exec_step ex ex'"

fun run_actions :: "action list \<Rightarrow> executor \<Rightarrow> executor option" where
  "run_actions [] ex = Some ex"
| "run_actions (a # as) ex = (case perform a ex of None \<Rightarrow> None | Some ex' \<Rightarrow> run_actions as ex')"

end
