(* ===== verification/BoundedExecutor_Invariant.thy ===== *)
theory BoundedExecutor_Invariant
  imports BoundedExecutor
begin

text \<open>
  The invariant of the bounded executor in all interleavings of its workers and clients, one
  operation at a time, and its interpretation in the locale of transition systems.
\<close>

section \<open>Who holds a task\<close>

text \<open>How often a task occurs in what a function extracts from the entries of a list.\<close>

definition tally :: "('a \<Rightarrow> nat list) \<Rightarrow> 'a list \<Rightarrow> nat \<Rightarrow> nat" where
  "tally f xs t = sum_list (map (\<lambda>x. count_list (f x) t) xs)"

lemma tally_simps [simp]:
  "tally f [] t = 0" "tally f (x # xs) t = count_list (f x) t + tally f xs t"
  "tally f (xs @ ys) t = tally f xs t + tally f ys t"
  by (simp_all add: tally_def)

lemma tally_ge: "i < length xs \<Longrightarrow> count_list (f (xs ! i)) t \<le> tally f xs t"
proof (induction xs arbitrary: i)
  case (Cons x xs)
  then show ?case by (cases i) (auto intro: trans_le_add2)
qed simp

lemma tally_update:
  "i < length xs \<Longrightarrow> tally f (xs[i := y]) t = tally f xs t - count_list (f (xs ! i)) t + count_list (f y) t"
proof (induction xs arbitrary: i)
  case (Cons x xs)
  show ?case
  proof (cases i)
    case (Suc k)
    then show ?thesis using Cons tally_ge [of k xs f t] by simp
  qed simp
qed simp

lemma tally_replicate: "f x = [] \<Longrightarrow> tally f (replicate n x) t = 0"
  by (induction n) simp_all

fun worker_holds :: "worker \<Rightarrow> nat list" where
  "worker_holds (HoldingTask t) = [t]" | "worker_holds w = []"

fun worker_invokes :: "worker \<Rightarrow> nat list" where
  "worker_invokes (InvokingTask t) = [t]" | "worker_invokes w = []"

fun worker_fulfilled :: "worker \<Rightarrow> nat list" where
  "worker_fulfilled (FulfilledTask t) = [t]" | "worker_fulfilled w = []"

fun client_holds :: "client \<Rightarrow> nat list" where
  "client_holds (CancelRemoved t) = [t]" | "client_holds (ShutdownPending w ts) = ts"
| "client_holds (ShutdownSettling w t ts) = ts" | "client_holds c = []"

fun client_settles :: "client \<Rightarrow> nat list" where
  "client_settles (CancelSettling t) = [t]" | "client_settles (ShutdownSettling w t ts) = [t]"
| "client_settles c = []"

text \<open>The tasks a cancellation refers to after it has left the mutex without taking the task.\<close>

fun client_mentions :: "client \<Rightarrow> nat list" where
  "client_mentions (CancelElsewhere t) = [t]" | "client_mentions (CancelStopping t) = [t]"
| "client_mentions c = []"

fun client_stops :: "client \<Rightarrow> nat list" where
  "client_stops (CancelStopping t) = [t]" | "client_stops c = []"

definition held :: "executor \<Rightarrow> nat \<Rightarrow> nat" where
  "held ex t = count_list (ex_queue ex) t + tally worker_holds (ex_workers ex) t + tally client_holds (ex_clients ex) t"

section \<open>The invariant\<close>

text \<open>One task: its phase and promise, against how often it is held, invoked, fulfilled, settled
  and about to be stopped.\<close>

definition task_ok :: "task \<Rightarrow> nat \<Rightarrow> nat \<Rightarrow> nat \<Rightarrow> nat \<Rightarrow> nat \<Rightarrow> bool" where
  "task_ok task holds invokes fulfills settles stops \<longleftrightarrow> holds \<le> 1 \<and>
     (stops > 0 \<or> tk_stop_requested task \<longrightarrow> tk_phase task \<in> {PhaseRunning, PhaseFinished}) \<and>
     (case tk_phase task of
        PhaseQueued \<Rightarrow> holds = 1 \<and> invokes = 0 \<and> fulfills = 0 \<and> settles = 0 \<and> tk_promise task = None
      | PhaseRunning \<Rightarrow> holds = 0 \<and> settles = 0 \<and>
          (invokes = 1 \<and> fulfills = 0 \<and> tk_promise task = None \<or>
           invokes = 0 \<and> fulfills = 1 \<and> tk_promise task \<in> {Some Returned, Some Threw})
      | PhaseFinished \<Rightarrow> holds = 0 \<and> invokes = 0 \<and> fulfills = 0 \<and> settles = 0 \<and>
          tk_promise task \<in> {Some Returned, Some Threw}
      | PhaseCancelled \<Rightarrow> invokes = 0 \<and> fulfills = 0 \<and>
          (settles = 1 \<and> tk_promise task = None \<or> settles = 0 \<and> tk_promise task = Some TaskCancelledError))"

definition entry_ok :: "executor \<Rightarrow> nat \<Rightarrow> bool" where
  "entry_ok ex t \<longleftrightarrow> (if t < length (ex_tasks ex)
     then task_ok (ex_tasks ex ! t) (held ex t) (tally worker_invokes (ex_workers ex) t)
       (tally worker_fulfilled (ex_workers ex) t) (tally client_settles (ex_clients ex) t)
       (tally client_stops (ex_clients ex) t)
     else held ex t = 0 \<and> tally worker_invokes (ex_workers ex) t = 0 \<and>
       tally worker_fulfilled (ex_workers ex) t = 0 \<and> tally client_settles (ex_clients ex) t = 0 \<and>
       tally client_stops (ex_clients ex) t = 0)"

definition queue_ok :: "executor \<Rightarrow> bool" where
  "queue_ok ex \<longleftrightarrow> length (ex_queue ex) \<le> ex_capacity ex \<and> sorted_wrt (<) (ex_queue ex) \<and>
     (\<forall>t\<in>set (ex_queue ex). t < length (ex_tasks ex) \<and> tk_phase (ex_tasks ex ! t) = PhaseQueued)"

text \<open>What the clients refer to: accepted tasks, which a cancellation that has missed the queue
  will not find there later.\<close>

definition client_ok :: "executor \<Rightarrow> client \<Rightarrow> bool" where
  "client_ok ex c \<longleftrightarrow> (case c of
       CancelCalled t \<Rightarrow> t < length (ex_tasks ex)
     | CancelElsewhere t \<Rightarrow> t < length (ex_tasks ex) \<and> t \<notin> set (ex_queue ex)
     | ShutdownPending w ts \<Rightarrow> ex_stopping ex | ShutdownSettling w t ts \<Rightarrow> ex_stopping ex | ShutdownJoining w \<Rightarrow> ex_stopping ex
     | ShutdownReturned \<Rightarrow> ex_stopping ex \<and> ex_workers_remaining ex = 0
     | _ \<Rightarrow> True)"

definition workers_ok :: "executor \<Rightarrow> bool" where
  "workers_ok ex \<longleftrightarrow> ex_accepting ex = (\<not> ex_stopping ex) \<and> ex_workers ex \<noteq> [] \<and>
     ex_workers_remaining ex = length (filter (\<lambda>w. w \<noteq> ExitedWorker) (ex_workers ex)) \<and>
     (ExitingWorker \<in> set (ex_workers ex) \<or> ExitedWorker \<in> set (ex_workers ex) \<longrightarrow> ex_stopping ex \<and> ex_queue ex = [])"

definition exec_inv :: "executor \<Rightarrow> bool" where
  "exec_inv ex \<longleftrightarrow> (\<forall>t. entry_ok ex t) \<and> queue_ok ex \<and> list_all (client_ok ex) (ex_clients ex) \<and> workers_ok ex"

lemma exec_invD:
  assumes "exec_inv ex"
  shows "entry_ok ex t" "queue_ok ex" "list_all (client_ok ex) (ex_clients ex)" "workers_ok ex"
  using assms by (simp_all add: exec_inv_def)

lemma exec_inv_start: "make_executor n capacity = Inr ex \<Longrightarrow> exec_inv ex"
  by (auto simp: make_executor_def exec_inv_def entry_ok_def queue_ok_def workers_ok_def held_def tally_replicate
      split: if_splits)

section \<open>Preservation\<close>

lemma push_task_inv:
  assumes inv: "exec_inv ex" and "ex_accepting ex" "length (ex_queue ex) < ex_capacity ex"
  shows "exec_inv (push_task ex)"
proof -
  note I = exec_invD [OF inv]
  have held: "held (push_task ex) t = held ex t + (if t = length (ex_tasks ex) then 1 else 0)" for t
    by (simp add: held_def push_task_def)
  have same: "ex_workers (push_task ex) = ex_workers ex" "ex_clients (push_task ex) = ex_clients ex"
    "ex_tasks (push_task ex) = ex_tasks ex @ [new_task]" by (simp_all add: push_task_def)
  have "entry_ok (push_task ex) t" for t
    using I(1) [of t] unfolding entry_ok_def held same
    by (cases t "length (ex_tasks ex)" rule: linorder_cases)
      (simp_all add: nth_append task_ok_def new_task_def)
  moreover have "queue_ok (push_task ex)"
    using I(2) assms(3) by (auto simp: queue_ok_def push_task_def sorted_wrt_append nth_append new_task_def)
  moreover have "client_ok (push_task ex) c" if "client_ok ex c" for c
    using that by (cases c) (auto simp: client_ok_def push_task_def)
  then have "list_all (client_ok (push_task ex)) (ex_clients (push_task ex))"
    using I(3) by (auto simp: same list_all_iff)
  moreover have "workers_ok (push_task ex)"
    using I(4) assms(2) by (auto simp: workers_ok_def push_task_def)
  ultimately show ?thesis by (simp add: exec_inv_def)
qed

text \<open>How the counts and the other fields change when a program counter or a task is replaced.\<close>

lemma set_worker_simps [simp]:
  "ex_queue (set_worker i w ex) = ex_queue ex" "ex_tasks (set_worker i w ex) = ex_tasks ex"
  "ex_clients (set_worker i w ex) = ex_clients ex" "ex_workers (set_worker i w ex) = (ex_workers ex)[i := w]"
  "ex_capacity (set_worker i w ex) = ex_capacity ex" "ex_stopping (set_worker i w ex) = ex_stopping ex"
  "ex_accepting (set_worker i w ex) = ex_accepting ex"
  "ex_workers_remaining (set_worker i w ex) = ex_workers_remaining ex"
  by (simp_all add: set_worker_def)

lemma set_client_simps [simp]:
  "ex_queue (set_client i c ex) = ex_queue ex" "ex_tasks (set_client i c ex) = ex_tasks ex"
  "ex_workers (set_client i c ex) = ex_workers ex" "ex_clients (set_client i c ex) = (ex_clients ex)[i := c]"
  "ex_capacity (set_client i c ex) = ex_capacity ex" "ex_stopping (set_client i c ex) = ex_stopping ex"
  "ex_accepting (set_client i c ex) = ex_accepting ex"
  "ex_workers_remaining (set_client i c ex) = ex_workers_remaining ex"
  by (simp_all add: set_client_def)

lemma update_task_simps [simp]:
  "ex_queue (update_task t f ex) = ex_queue ex" "ex_workers (update_task t f ex) = ex_workers ex"
  "ex_clients (update_task t f ex) = ex_clients ex" "ex_tasks (update_task t f ex) = (ex_tasks ex)[t := f (ex_tasks ex ! t)]"
  "ex_capacity (update_task t f ex) = ex_capacity ex" "ex_stopping (update_task t f ex) = ex_stopping ex"
  "ex_accepting (update_task t f ex) = ex_accepting ex"
  "ex_workers_remaining (update_task t f ex) = ex_workers_remaining ex"
  by (simp_all add: update_task_def)

lemma worker_tally:
  assumes "i < length (ex_workers ex)" "ex_workers ex ! i = v"
  shows "tally f ((ex_workers ex)[i := w]) t = tally f (ex_workers ex) t - count_list (f v) t + count_list (f w) t"
    "count_list (f v) t \<le> tally f (ex_workers ex) t"
  using assms tally_update [of i "ex_workers ex" f w t] tally_ge [of i "ex_workers ex" f t] by auto

lemma client_tally:
  assumes "j < length (ex_clients ex)" "ex_clients ex ! j = b"
  shows "tally f ((ex_clients ex)[j := c]) t = tally f (ex_clients ex) t - count_list (f b) t + count_list (f c) t"
    "count_list (f b) t \<le> tally f (ex_clients ex) t"
  using assms tally_update [of j "ex_clients ex" f c t] tally_ge [of j "ex_clients ex" f t] by auto

text \<open>The task a program counter refers to has been accepted.\<close>

lemma entry_mention:
  "entry_ok ex t \<Longrightarrow> held ex t + tally worker_invokes (ex_workers ex) t + tally worker_fulfilled (ex_workers ex) t +
     tally client_settles (ex_clients ex) t + tally client_stops (ex_clients ex) t > 0 \<Longrightarrow> t < length (ex_tasks ex)"
  by (auto simp: entry_ok_def split: if_splits)

lemma filter_exited_update:
  "i < length ws \<Longrightarrow> ws ! i \<noteq> ExitedWorker \<Longrightarrow>
   length (filter (\<lambda>w. w \<noteq> ExitedWorker) (ws[i := w])) =
     (if w = ExitedWorker then length (filter (\<lambda>w. w \<noteq> ExitedWorker) ws) - 1
      else length (filter (\<lambda>w. w \<noteq> ExitedWorker) ws))"
proof (induction ws arbitrary: i)
  case (Cons x ws)
  show ?case
  proof (cases i)
    case (Suc k)
    have "ws ! k \<in> set (filter (\<lambda>w. w \<noteq> ExitedWorker) ws)" using Cons.prems Suc by simp
    then have "0 < length (filter (\<lambda>w. w \<noteq> ExitedWorker) ws)" by (metis length_pos_if_in_set)
    then show ?thesis using Cons Suc by auto
  qed (use Cons.prems in auto)
qed simp

lemma set_worker_workers_ok:
  assumes "workers_ok ex" "i < length (ex_workers ex)" "ex_workers ex ! i \<noteq> ExitedWorker" "w \<noteq> ExitedWorker"
    "w = ExitingWorker \<Longrightarrow> ex_stopping ex \<and> ex_queue ex = []"
    "ex_queue ex' = ex_queue ex \<or> ex_queue ex' = tl (ex_queue ex)" "ex_workers ex' = (ex_workers ex)[i := w]"
    "ex_workers_remaining ex' = ex_workers_remaining ex" "ex_stopping ex' = ex_stopping ex" "ex_accepting ex' = ex_accepting ex"
  shows "workers_ok ex'"
proof -
  have "v \<in> set (ex_workers ex) \<or> v = w" if "v \<in> set ((ex_workers ex)[i := w])" for v
    using that set_update_subset_insert [of "ex_workers ex" i w] by auto
  from this [of ExitingWorker] this [of ExitedWorker]
  have "ExitingWorker \<in> set (ex_workers ex') \<or> ExitedWorker \<in> set (ex_workers ex') \<longrightarrow> ex_stopping ex \<and> ex_queue ex = []"
    using assms(1,4,5,7) by (auto simp: workers_ok_def)
  then show ?thesis
    using assms filter_exited_update [OF assms(2,3), of w] by (auto simp: workers_ok_def)
qed

text \<open>A new program counter that mentions no task, for one that mentions none or the front of the
  queue.\<close>

lemma worker_turn_inv:
  assumes inv: "exec_inv ex" and i: "i < length (ex_workers ex)" "ex_workers ex ! i = WaitingForTask"
    and act: "worker_turn i ex = Some ex'"
  shows "exec_inv ex'"
proof (cases "ex_queue ex")
  case Nil
  note I = exec_invD [OF inv]
  have ex': "ex' = set_worker i ExitingWorker ex" and stop: "ex_stopping ex"
    using act Nil by (auto simp: worker_turn_def split: if_splits)
  have "entry_ok ex' t" for t
    using I(1) [of t] unfolding entry_ok_def held_def by (simp add: ex' worker_tally [OF i])
  moreover have "client_ok ex' c" if "client_ok ex c" for c
    using that by (cases c) (simp_all add: client_ok_def ex')
  then have "list_all (client_ok ex') (ex_clients ex')" using I(3) by (auto simp: ex' list_all_iff)
  moreover have "workers_ok ex'"
    by (rule set_worker_workers_ok [OF I(4) i(1), where w = ExitingWorker]) (simp_all add: ex' i(2) stop Nil)
  ultimately show ?thesis using I(2) by (simp add: exec_inv_def queue_ok_def ex')
next
  case (Cons t0 queue)
  note I = exec_invD [OF inv]
  have ex': "ex' = set_worker i (HoldingTask t0) (ex\<lparr>ex_queue := queue\<rparr>)"
    using act Cons by (auto simp: worker_turn_def)
  have "held ex' t = held ex t" for t
    by (simp add: held_def ex' worker_tally [OF i] Cons)
  then have "entry_ok ex' t" for t
    using I(1) [of t] by (simp add: entry_ok_def ex' worker_tally [OF i])
  moreover have "client_ok ex' c" if "client_ok ex c" for c
    using that by (cases c) (simp_all add: client_ok_def ex' Cons)
  then have "list_all (client_ok ex') (ex_clients ex')" using I(3) by (auto simp: ex' list_all_iff)
  moreover have "workers_ok ex'"
    by (rule set_worker_workers_ok [OF I(4) i(1), where w = "HoldingTask t0"]) (simp_all add: ex' i(2) Cons)
  ultimately show ?thesis using I(2) by (simp add: exec_inv_def queue_ok_def ex' Cons)
qed

lemma worker_exit_inv:
  assumes inv: "exec_inv ex" and i: "i < length (ex_workers ex)" "ex_workers ex ! i = ExitingWorker"
  shows "exec_inv (worker_exit i ex)"
proof -
  note I = exec_invD [OF inv]
  have rest: "ex_stopping ex \<and> ex_queue ex = []" using I(4) i nth_mem [OF i(1)] by (simp add: workers_ok_def)
  have "entry_ok (worker_exit i ex) t" for t
    using I(1) [of t] unfolding entry_ok_def held_def by (simp add: worker_exit_def worker_tally [OF i])
  moreover have "client_ok (worker_exit i ex) c" if "client_ok ex c" for c
    using that by (cases c) (simp_all add: client_ok_def worker_exit_def)
  then have "list_all (client_ok (worker_exit i ex)) (ex_clients (worker_exit i ex))"
    using I(3) by (auto simp: worker_exit_def list_all_iff)
  moreover have "workers_ok (worker_exit i ex)"
    using I(4) filter_exited_update [OF i(1), of ExitedWorker] i rest by (simp add: workers_ok_def worker_exit_def)
  ultimately show ?thesis using I(2) by (simp add: exec_inv_def queue_ok_def worker_exit_def)
qed

lemma update_task_queue_ok:
  "queue_ok ex \<Longrightarrow> (tk \<in> set (ex_queue ex) \<Longrightarrow> tk_phase (f (ex_tasks ex ! tk)) = PhaseQueued) \<Longrightarrow>
   queue_ok (update_task tk f ex)"
  by (cases "tk < length (ex_tasks ex)") (auto simp: queue_ok_def nth_list_update list_update_beyond)

text \<open>An action that changes the program counter of one worker and one task, and leaves the queue.\<close>

lemma worker_task_inv:
  assumes inv: "exec_inv ex" and i: "i < length (ex_workers ex)" "ex_workers ex ! i = v" "v \<noteq> ExitedWorker"
    "w \<notin> {ExitingWorker, ExitedWorker}"
    and ex': "ex' = set_worker i w (update_task tk (\<lambda>_. task) ex)"
    and others: "\<And>f t. f \<in> {worker_holds, worker_invokes, worker_fulfilled} \<Longrightarrow> t \<noteq> tk \<Longrightarrow> count_list (f v) t = count_list (f w) t"
    and entry: "entry_ok ex' tk" and queued: "tk \<in> set (ex_queue ex) \<Longrightarrow> tk_phase task = PhaseQueued"
  shows "exec_inv ex'"
proof -
  note I = exec_invD [OF inv]
  have same: "tally f ((ex_workers ex)[i := w]) t = tally f (ex_workers ex) t"
    if "f \<in> {worker_holds, worker_invokes, worker_fulfilled}" "t \<noteq> tk" for f t
    using worker_tally(1) [OF i(1,2), where f = f and w = w and t = t] worker_tally(2) [OF i(1,2), where f = f and t = t]
      others [OF that] by simp
  have "entry_ok ex' t" for t
  proof (cases "t = tk")
    case False
    then show ?thesis using I(1) [of t] unfolding entry_ok_def held_def by (simp add: ex' same)
  qed (use entry in simp)
  moreover have "client_ok ex' c" if "client_ok ex c" for c
    using that by (cases c) (simp_all add: client_ok_def ex')
  then have "list_all (client_ok ex') (ex_clients ex')" using I(3) by (auto simp: ex' list_all_iff)
  moreover have "workers_ok ex'"
    by (rule set_worker_workers_ok [OF I(4) i(1), where w = w]) (use i in \<open>simp_all add: ex'\<close>)
  moreover have "queue_ok ex'"
    unfolding ex' using update_task_queue_ok [OF I(2), where f = "\<lambda>_. task", OF queued] by (simp add: queue_ok_def)
  ultimately show ?thesis by (simp add: exec_inv_def)
qed

text \<open>A task that is held elsewhere is not in the queue.\<close>

lemma held_not_queued:
  assumes "entry_ok ex t" "count_list (ex_queue ex) t < held ex t"
  shows "t \<notin> set (ex_queue ex)"
  using assms by (auto simp: entry_ok_def task_ok_def count_list_0_iff [symmetric] split: if_splits)

lemma worker_act_inv:
  assumes inv: "exec_inv ex" and i: "i < length (ex_workers ex)" and act: "worker_act i throws ex = Some ex'"
  shows "exec_inv ex'"
proof (cases "ex_workers ex ! i")
  case WaitingForTask
  then show ?thesis using worker_turn_inv [OF inv i] act by (simp add: worker_act_def)
next
  case (HoldingTask t0)
  note e = exec_invD(1) [OF inv, of t0]
  note T = worker_tally [OF i HoldingTask]
  have count: "count_list (ex_queue ex) t0 < held ex t0" using T(2) [of worker_holds t0] by (simp add: held_def)
  then have t0: "t0 < length (ex_tasks ex)" using entry_mention [OF e] by simp
  have queue: "t0 \<notin> set (ex_queue ex)" using held_not_queued [OF e count] .
  let ?begun = "begin_execution (ex_tasks ex ! t0)"
  let ?w = "if fst ?begun then InvokingTask t0 else WaitingForTask"
  have ex': "ex' = set_worker i ?w (update_task t0 (\<lambda>_. snd ?begun) ex)"
    using act by (simp add: worker_act_def HoldingTask execute_begin_def case_prod_beta Let_def)
  show ?thesis
  proof (rule worker_task_inv [OF inv i HoldingTask, where w = ?w and task = "snd ?begun" and tk = t0])
    show "entry_ok ex' t0"
      using e t0 T(2) [of worker_holds t0] T(1) [of worker_holds ?w t0]
      unfolding entry_ok_def held_def
      by (auto simp: ex' T(1) task_ok_def begin_execution_def exchange_phase_def split: task_phase.splits)
  qed (use ex' queue in \<open>auto\<close>)
next
  case (InvokingTask t0)
  note e = exec_invD(1) [OF inv, of t0]
  note T = worker_tally [OF i InvokingTask]
  have t0: "t0 < length (ex_tasks ex)" using entry_mention [OF e] T(2) [of worker_invokes t0] by simp
  let ?task = "set_promise (if throws then Threw else Returned) (ex_tasks ex ! t0)"
  have ex': "ex' = set_worker i (FulfilledTask t0) (update_task t0 (\<lambda>_. ?task) ex)"
    using act by (simp add: worker_act_def InvokingTask execute_invoke_def update_task_def)
  show ?thesis
  proof (rule worker_task_inv [OF inv i InvokingTask, where w = "FulfilledTask t0" and task = ?task and tk = t0])
    show "entry_ok ex' t0"
      using e t0 T(2) [of worker_invokes t0]
      unfolding entry_ok_def held_def
      by (auto simp: ex' T(1) task_ok_def set_promise_def split: task_phase.splits)
    show "tk_phase ?task = PhaseQueued" if "t0 \<in> set (ex_queue ex)"
      using that exec_invD(2) [OF inv] by (auto simp: queue_ok_def set_promise_def)
  qed (use ex' in \<open>auto\<close>)
next
  case (FulfilledTask t0)
  note e = exec_invD(1) [OF inv, of t0]
  note T = worker_tally [OF i FulfilledTask]
  have t0: "t0 < length (ex_tasks ex)" using entry_mention [OF e] T(2) [of worker_fulfilled t0] by simp
  let ?task = "finish_execution (ex_tasks ex ! t0)"
  have ex': "ex' = set_worker i WaitingForTask (update_task t0 (\<lambda>_. ?task) ex)"
    using act by (simp add: worker_act_def FulfilledTask execute_finish_def update_task_def)
  have running: "tk_phase (ex_tasks ex ! t0) = PhaseRunning"
    using e t0 T(2) [of worker_fulfilled t0] by (auto simp: entry_ok_def task_ok_def split: task_phase.splits)
  show ?thesis
  proof (rule worker_task_inv [OF inv i FulfilledTask, where w = WaitingForTask and task = ?task and tk = t0])
    show "entry_ok ex' t0"
      using e t0 T(2) [of worker_fulfilled t0]
      unfolding entry_ok_def held_def
      by (auto simp: ex' T(1) task_ok_def finish_execution_def split: task_phase.splits)
    show "tk_phase ?task = PhaseQueued" if "t0 \<in> set (ex_queue ex)"
      using that exec_invD(2) [OF inv] running by (auto simp: queue_ok_def)
  qed (use ex' in \<open>auto\<close>)
next
  case ExitingWorker
  then show ?thesis using worker_exit_inv [OF inv i] act by (simp add: worker_act_def)
qed (use act in \<open>simp add: worker_act_def\<close>)

section \<open>Clients\<close>

text \<open>A client that has moved on without a task.\<close>

lemma client_move_inv:
  assumes inv: "exec_inv ex" and j: "j < length (ex_clients ex)" "ex_clients ex ! j = b"
    and others: "\<And>t f. f \<in> {client_holds, client_settles, client_stops} \<Longrightarrow> count_list (f b) t = count_list (f c) t"
    and c: "client_ok ex c"
  shows "exec_inv (set_client j c ex)"
proof -
  note I = exec_invD [OF inv]
  have same: "tally f ((ex_clients ex)[j := c]) t = tally f (ex_clients ex) t"
    if "f \<in> {client_holds, client_settles, client_stops}" for f t
    using client_tally(1) [OF j, where f = f and c = c and t = t] client_tally(2) [OF j, where f = f and t = t]
      others [OF that] by simp
  have "entry_ok (set_client j c ex) t" for t
    using I(1) [of t] unfolding entry_ok_def held_def by (simp add: same)
  moreover have "client_ok (set_client j c ex) = client_ok ex"
    by (rule ext) (simp add: client_ok_def split: client.split)
  then have "list_all (client_ok (set_client j c ex)) (ex_clients (set_client j c ex))"
    using I(3) c set_update_subset_insert [of "ex_clients ex" j c] by (auto simp: list_all_iff)
  moreover have "workers_ok (set_client j c ex)" "queue_ok (set_client j c ex)"
    using I(2,4) by (simp_all add: workers_ok_def queue_ok_def)
  ultimately show ?thesis by (simp add: exec_inv_def)
qed

text \<open>A client that has moved on with one task changed.\<close>

lemma client_task_inv:
  assumes inv: "exec_inv ex" and j: "j < length (ex_clients ex)" "ex_clients ex ! j = b"
    and ex': "ex' = set_client j c (update_task tk (\<lambda>_. task) ex)"
    and others: "\<And>f t. f \<in> {client_holds, client_settles, client_stops} \<Longrightarrow> t \<noteq> tk \<Longrightarrow> count_list (f b) t = count_list (f c) t"
    and entry: "entry_ok ex' tk" and queued: "tk \<in> set (ex_queue ex) \<Longrightarrow> tk_phase task = PhaseQueued"
    and c: "client_ok ex c"
  shows "exec_inv ex'"
proof -
  note I = exec_invD [OF inv]
  have same: "tally f ((ex_clients ex)[j := c]) t = tally f (ex_clients ex) t"
    if "f \<in> {client_holds, client_settles, client_stops}" "t \<noteq> tk" for f t
    using client_tally(1) [OF j, where f = f and c = c and t = t] client_tally(2) [OF j, where f = f and t = t]
      others [OF that] by simp
  have "entry_ok ex' t" for t
  proof (cases "t = tk")
    case False
    then show ?thesis using I(1) [of t] unfolding entry_ok_def held_def by (simp add: ex' same)
  qed (use entry in simp)
  moreover have "client_ok ex' = client_ok ex"
    by (rule ext) (simp add: client_ok_def ex' split: client.split)
  then have "list_all (client_ok ex') (ex_clients ex')"
    using I(3) c set_update_subset_insert [of "ex_clients ex" j c] by (auto simp: ex' list_all_iff)
  moreover have "workers_ok ex'" using I(4) by (simp add: workers_ok_def ex')
  moreover have "queue_ok ex'"
    unfolding ex' using update_task_queue_ok [OF I(2), where f = "\<lambda>_. task", OF queued] by (simp add: queue_ok_def)
  ultimately show ?thesis by (simp add: exec_inv_def)
qed

text \<open>The queue without one of its tasks, which a cancellation has taken.\<close>

lemma queue_ok_distinct: "queue_ok ex \<Longrightarrow> distinct (ex_queue ex)"
  by (simp add: queue_ok_def strict_sorted_iff)

lemma cancel_locked_inv:
  assumes inv: "exec_inv ex" and j: "j < length (ex_clients ex)" "ex_clients ex ! j = CancelCalled t0"
  shows "exec_inv (cancel_locked j t0 ex)"
proof (cases "t0 \<in> set (ex_queue ex)")
  case False
  have "client_ok ex (CancelCalled t0)"
    using exec_invD(3) [OF inv] j by (metis list_all_length)
  then show ?thesis
    unfolding cancel_locked_def using False
    by simp (rule client_move_inv [OF inv j], auto simp: client_ok_def)
next
  case True
  note I = exec_invD [OF inv]
  let ?ex = "set_client j (CancelRemoved t0) (ex\<lparr>ex_queue := remove1 t0 (ex_queue ex)\<rparr>)"
  have "0 < count_list (ex_queue ex) t0" using True count_list_0_iff [of "ex_queue ex" t0] by auto
  then have "held ?ex t = held ex t" for t by (auto simp: held_def client_tally [OF j])
  then have "entry_ok ?ex t" for t
    using I(1) [of t] by (simp add: entry_ok_def client_tally [OF j])
  moreover have "client_ok ?ex c" if "client_ok ex c" for c
    using that by (cases c) (auto simp: client_ok_def dest: notin_set_remove1)
  then have "list_all (client_ok ?ex) (ex_clients ?ex)"
    using I(3) set_update_subset_insert [of "ex_clients ex" j "CancelRemoved t0"]
    by (auto simp: list_all_iff client_ok_def)
  moreover have "workers_ok ?ex" using I(4) True by (auto simp: workers_ok_def)
  moreover have "remove1 t0 (ex_queue ex) = filter ((\<noteq>) t0) (ex_queue ex)"
    using queue_ok_distinct [OF I(2)] by (simp add: distinct_remove1_removeAll removeAll_filter_not_eq)
  then have "queue_ok ?ex"
    using I(2) by (auto simp: queue_ok_def sorted_wrt_filter intro: le_trans [OF length_filter_le])
  ultimately show ?thesis using True by (simp add: exec_inv_def cancel_locked_def)
qed

text \<open>A task that a client refers to has been accepted; one that it holds is not in the queue.\<close>

lemma client_mention:
  assumes "exec_inv ex" "j < length (ex_clients ex)"
    "\<exists>f\<in>{client_holds, client_settles, client_stops}. t \<in> set (f (ex_clients ex ! j))"
  shows "t < length (ex_tasks ex)"
proof -
  obtain f where f: "f \<in> {client_holds, client_settles, client_stops}" "t \<in> set (f (ex_clients ex ! j))"
    using assms(3) by blast
  then have "0 < count_list (f (ex_clients ex ! j)) t" by (simp add: zero_less_iff_neq_zero count_list_0_iff)
  then have "0 < tally f (ex_clients ex) t" using tally_ge [OF assms(2), of f t] by linarith
  then show ?thesis using f(1) entry_mention [OF exec_invD(1) [OF assms(1)], of t] by (auto simp: held_def)
qed

lemma client_held:
  assumes "exec_inv ex" "j < length (ex_clients ex)" "t \<in> set (client_holds (ex_clients ex ! j))"
  shows "t \<notin> set (ex_queue ex)"
proof (rule held_not_queued [OF exec_invD(1) [OF assms(1)]])
  have "0 < count_list (client_holds (ex_clients ex ! j)) t"
    using assms(3) by (simp add: zero_less_iff_neq_zero count_list_0_iff)
  then show "count_list (ex_queue ex) t < held ex t"
    using tally_ge [OF assms(2), of client_holds t] by (simp add: held_def)
qed

lemma cancel_queued_inv:
  assumes inv: "exec_inv ex" and j: "j < length (ex_clients ex)" "ex_clients ex ! j = CancelRemoved t0"
  shows "exec_inv (cancel_queued j t0 ex)"
proof -
  note e = exec_invD(1) [OF inv, of t0] and T = client_tally [OF j]
  have t0: "t0 < length (ex_tasks ex)" by (rule client_mention [OF inv j(1)]) (simp add: j(2))
  have queue: "t0 \<notin> set (ex_queue ex)" by (rule client_held [OF inv j(1)]) (simp add: j(2))
  let ?new = "cancel_exchange (ex_tasks ex ! t0)"
  let ?c = "if fst ?new then CancelSettling t0 else CancelReturned False"
  show ?thesis
  proof (rule client_task_inv [OF inv j, where c = ?c and task = "snd ?new" and tk = t0])
    show "entry_ok (cancel_queued j t0 ex) t0"
      using e t0 T(2) [of client_holds t0] T(1) [of client_holds ?c t0]
      unfolding entry_ok_def held_def
      by (auto simp: cancel_queued_def case_prod_beta T(1) task_ok_def cancel_exchange_def exchange_phase_def
          split: task_phase.splits)
  qed (use queue in \<open>auto simp: cancel_queued_def case_prod_beta client_ok_def\<close>)
qed

lemma request_cancel_inv:
  assumes inv: "exec_inv ex" and j: "j < length (ex_clients ex)" "ex_clients ex ! j = CancelElsewhere t0"
  shows "exec_inv (request_cancel j t0 ex)"
proof -
  note e = exec_invD(1) [OF inv, of t0] and T = client_tally [OF j]
  have "client_ok ex (CancelElsewhere t0)" using exec_invD(3) [OF inv] j by (metis list_all_length)
  then have t0: "t0 < length (ex_tasks ex)" and queue: "t0 \<notin> set (ex_queue ex)" by (simp_all add: client_ok_def)
  let ?new = "cancel_exchange (ex_tasks ex ! t0)"
  let ?c = "if fst ?new then CancelSettling t0
    else if tk_phase (snd ?new) = PhaseRunning then CancelStopping t0 else CancelReturned False"
  show ?thesis
  proof (rule client_task_inv [OF inv j, where c = ?c and task = "snd ?new" and tk = t0])
    show "entry_ok (request_cancel j t0 ex) t0"
      using e t0 T(1) [of client_settles ?c t0] T(1) [of client_stops ?c t0]
      unfolding entry_ok_def held_def
      by (auto simp: request_cancel_def case_prod_beta T(1) task_ok_def cancel_exchange_def exchange_phase_def
          split: task_phase.splits)
  qed (use queue in \<open>auto simp: request_cancel_def case_prod_beta client_ok_def\<close>)
qed

text \<open>The promise of a cancelled task.\<close>

lemma settle_inv:
  assumes inv: "exec_inv ex" and j: "j < length (ex_clients ex)" "ex_clients ex ! j = b"
    and b: "client_settles b = [t0]" "client_stops b = []" "client_stops c = []" "client_settles c = []"
      "client_holds b = client_holds c" "client_ok ex c"
  shows "exec_inv (set_client j c (update_task t0 (set_promise TaskCancelledError) ex))"
proof -
  note e = exec_invD(1) [OF inv, of t0] and T = client_tally [OF j]
  have t0: "t0 < length (ex_tasks ex)" by (rule client_mention [OF inv j(1)]) (simp add: j(2) b)
  let ?task = "set_promise TaskCancelledError (ex_tasks ex ! t0)"
  let ?ex = "set_client j c (update_task t0 (set_promise TaskCancelledError) ex)"
  show ?thesis
  proof (rule client_task_inv [OF inv j, where c = c and task = ?task and tk = t0])
    show "?ex = set_client j c (update_task t0 (\<lambda>_. ?task) ex)" by (simp add: update_task_def)
    show "entry_ok ?ex t0"
      using e t0 T(2) [of client_settles t0] T(2) [of client_holds t0]
      unfolding entry_ok_def held_def
      by (auto simp: T(1) b task_ok_def set_promise_def split: task_phase.splits)
    show "tk_phase ?task = PhaseQueued" if "t0 \<in> set (ex_queue ex)"
      using that exec_invD(2) [OF inv] by (auto simp: queue_ok_def set_promise_def)
  qed (use b in \<open>auto simp: count_list_0_iff\<close>)
qed

lemma cancel_stop_inv:
  assumes inv: "exec_inv ex" and j: "j < length (ex_clients ex)" "ex_clients ex ! j = CancelStopping t0"
  shows "exec_inv (cancel_stop j t0 ex)"
proof -
  note e = exec_invD(1) [OF inv, of t0] and T = client_tally [OF j]
  have t0: "t0 < length (ex_tasks ex)" by (rule client_mention [OF inv j(1)]) (simp add: j(2))
  let ?new = "request_stop (ex_tasks ex ! t0)"
  show ?thesis
  proof (rule client_task_inv [OF inv j, where c = "CancelReturned (fst ?new)" and task = "snd ?new" and tk = t0])
    show "entry_ok (cancel_stop j t0 ex) t0"
      using e t0 T(2) [of client_stops t0]
      unfolding entry_ok_def held_def
      by (auto simp: cancel_stop_def case_prod_beta T(1) task_ok_def request_stop_def split: task_phase.splits)
    show "tk_phase (snd ?new) = PhaseQueued" if "t0 \<in> set (ex_queue ex)"
      using that exec_invD(2) [OF inv] by (auto simp: queue_ok_def request_stop_def)
  qed (auto simp: cancel_stop_def case_prod_beta client_ok_def)
qed

lemma shutdown_cancel_inv:
  assumes inv: "exec_inv ex" and j: "j < length (ex_clients ex)" "ex_clients ex ! j = ShutdownPending from_worker pending"
  shows "exec_inv (shutdown_cancel j from_worker pending ex)"
proof -
  have stop: "ex_stopping ex" using exec_invD(3) [OF inv] j by (auto simp: list_all_length client_ok_def)
  show ?thesis
  proof (cases pending)
    case Nil
    then show ?thesis
      unfolding shutdown_cancel_def by simp (rule client_move_inv [OF inv j], auto simp: client_ok_def stop)
  next
    case (Cons t0 ts)
    note e = exec_invD(1) [OF inv, of t0] and T = client_tally [OF j]
    have t0: "t0 < length (ex_tasks ex)" by (rule client_mention [OF inv j(1)]) (simp add: j(2) Cons)
    have queue: "t0 \<notin> set (ex_queue ex)" by (rule client_held [OF inv j(1)]) (simp add: j(2) Cons)
    let ?new = "cancel_exchange (ex_tasks ex ! t0)"
    let ?c = "if fst ?new then ShutdownSettling from_worker t0 ts else ShutdownPending from_worker ts"
    show ?thesis
    proof (rule client_task_inv [OF inv j, where c = ?c and task = "snd ?new" and tk = t0])
      show "entry_ok (shutdown_cancel j from_worker pending ex) t0"
        using e t0 T(2) [of client_holds t0] T(1) [of client_holds ?c t0] T(1) [of client_settles ?c t0]
        unfolding entry_ok_def held_def
        by (auto simp: shutdown_cancel_def Cons case_prod_beta T(1) task_ok_def cancel_exchange_def exchange_phase_def
            split: task_phase.splits)
    qed (use queue stop in \<open>auto simp: shutdown_cancel_def Cons case_prod_beta client_ok_def\<close>)
  qed
qed

lemma join_all_inv:
  assumes inv: "exec_inv ex" and j: "j < length (ex_clients ex)" "ex_clients ex ! j = ShutdownJoining from_worker"
    and act: "join_all j from_worker ex = Some ex'"
  shows "exec_inv ex'"
proof -
  have stop: "ex_stopping ex" using exec_invD(3) [OF inv] j by (auto simp: list_all_length client_ok_def)
  have "exec_inv (set_client j ShutdownDetached ex)"
    by (rule client_move_inv [OF inv j]) (auto simp: client_ok_def)
  moreover have "exec_inv (set_client j ShutdownReturned ex)" if "ex_workers_remaining ex = 0"
    by (rule client_move_inv [OF inv j]) (use stop that in \<open>auto simp: client_ok_def\<close>)
  ultimately show ?thesis using act by (auto simp: join_all_def split: if_splits)
qed

lemma client_act_inv:
  assumes inv: "exec_inv ex" and j: "j < length (ex_clients ex)" and act: "client_act j ex = Some ex'"
  shows "exec_inv ex'"
proof (cases "ex_clients ex ! j")
  case (CancelCalled t)
  then show ?thesis using cancel_locked_inv [OF inv j] act by (simp add: client_act_def)
next
  case (CancelRemoved t)
  then show ?thesis using cancel_queued_inv [OF inv j] act by (simp add: client_act_def)
next
  case (CancelElsewhere t)
  then show ?thesis using request_cancel_inv [OF inv j] act by (simp add: client_act_def)
next
  case (CancelSettling t)
  have "exec_inv (cancel_settle j t ex)"
    unfolding cancel_settle_def by (rule settle_inv [OF inv j CancelSettling]) (simp_all add: client_ok_def)
  then show ?thesis using act CancelSettling by (simp add: client_act_def)
next
  case (CancelStopping t)
  then show ?thesis using cancel_stop_inv [OF inv j] act by (simp add: client_act_def)
next
  case (ShutdownPending w ts)
  then show ?thesis using shutdown_cancel_inv [OF inv j] act by (simp add: client_act_def)
next
  case (ShutdownSettling w t ts)
  have "ex_stopping ex"
    using exec_invD(3) [OF inv] j ShutdownSettling by (auto simp: list_all_length client_ok_def)
  then have "exec_inv (shutdown_settle j w t ts ex)"
    unfolding shutdown_settle_def by (intro settle_inv [OF inv j ShutdownSettling]) (simp_all add: client_ok_def)
  then show ?thesis using act ShutdownSettling by (simp add: client_act_def)
next
  case (ShutdownJoining w)
  then show ?thesis using join_all_inv [OF inv j] act by (simp add: client_act_def)
qed (use act in \<open>simp_all add: client_act_def\<close>)

lemma call_cancel_inv:
  assumes inv: "exec_inv ex" and t: "t < length (ex_tasks ex)"
  shows "exec_inv (ex\<lparr>ex_clients := ex_clients ex @ [CancelCalled t]\<rparr>)"
proof -
  note I = exec_invD [OF inv]
  let ?ex = "ex\<lparr>ex_clients := ex_clients ex @ [CancelCalled t]\<rparr>"
  have "entry_ok ?ex u" for u using I(1) [of u] unfolding entry_ok_def held_def by simp
  moreover have "client_ok ?ex = client_ok ex" by (rule ext) (simp add: client_ok_def split: client.split)
  then have "list_all (client_ok ?ex) (ex_clients ?ex)" using I(3) t by (simp add: client_ok_def)
  moreover have "workers_ok ?ex" "queue_ok ?ex" using I(2,4) by (simp_all add: workers_ok_def queue_ok_def)
  ultimately show ?thesis by (simp add: exec_inv_def)
qed

lemma begin_shutdown_inv:
  assumes inv: "exec_inv ex"
  shows "exec_inv (begin_shutdown mode from_worker ex)"
proof -
  note I = exec_invD [OF inv]
  let ?ex = "begin_shutdown mode from_worker ex"
  have "held ?ex t = held ex t" for t by (simp add: begin_shutdown_def held_def Let_def)
  moreover have "ex_tasks ?ex = ex_tasks ex" "ex_workers ?ex = ex_workers ex"
    "tally client_settles (ex_clients ?ex) t = tally client_settles (ex_clients ex) t"
    "tally client_stops (ex_clients ?ex) t = tally client_stops (ex_clients ex) t" for t
    by (simp_all add: begin_shutdown_def Let_def)
  ultimately have "entry_ok ?ex t" for t using I(1) [of t] by (simp add: entry_ok_def)
  moreover have keep: "client_ok ?ex c" if "client_ok ex c" for c
    using that by (cases c) (auto simp: client_ok_def begin_shutdown_def Let_def)
  obtain c where "ex_clients ?ex = ex_clients ex @ [c]" "client_ok ?ex c"
    by (cases "ex_stopping ex"; cases mode) (auto simp: begin_shutdown_def Let_def client_ok_def)
  then have "list_all (client_ok ?ex) (ex_clients ?ex)"
    using I(3) keep by (simp add: list_all_iff)
  moreover have "workers_ok ?ex" using I(4) by (auto simp: workers_ok_def begin_shutdown_def Let_def)
  moreover have "queue_ok ?ex" using I(2) by (auto simp: queue_ok_def begin_shutdown_def Let_def)
  ultimately show ?thesis by (simp add: exec_inv_def)
qed

lemma try_submit_state: "snd (try_submit ex) = (if ex_accepting ex \<and> length (ex_queue ex) < ex_capacity ex then push_task ex else ex)"
  by (simp add: try_submit_def try_enqueue_def)

lemma submit_until_state:
  "submit_until expired ex = Some (result, ex') \<Longrightarrow>
   ex' = (if ex_accepting ex \<and> length (ex_queue ex) < ex_capacity ex then push_task ex else ex)"
  by (auto simp: submit_until_def enqueue_until_def Let_def split: if_splits)

lemma perform_inv:
  assumes inv: "exec_inv ex" and act: "perform a ex = Some ex'"
  shows "exec_inv ex'"
proof (cases a)
  case TrySubmit
  then show ?thesis using act inv push_task_inv [OF inv] by (auto simp: try_submit_state split: if_splits)
next
  case (SubmitUntil expired)
  then obtain result where "submit_until expired ex = Some (result, ex')" using act by auto
  from submit_until_state [OF this] show ?thesis using inv push_task_inv [OF inv] by (auto split: if_splits)
next
  case (WorkerAct i throws)
  then show ?thesis using act worker_act_inv [OF inv] by (auto split: if_splits)
next
  case (CallCancel t)
  then show ?thesis using act call_cancel_inv [OF inv] by (auto split: if_splits)
next
  case (ClientAct j)
  then show ?thesis using act client_act_inv [OF inv] by (auto split: if_splits)
next
  case (CallShutdown mode from_worker)
  then show ?thesis using act begin_shutdown_inv [OF inv] by auto
qed

definition executor_start :: "executor \<Rightarrow> bool" where
  "executor_start ex \<longleftrightarrow> (\<exists>n capacity. make_executor n capacity = Inr ex)"

interpretation executor_system: invariant_system executor_start exec_step exec_inv
  by unfold_locales (auto simp: executor_start_def elim!: exec_stepE intro: exec_inv_start perform_inv)

lemma run_actions_reachable:
  "run_actions as ex = Some ex' \<Longrightarrow> reachable_from exec_step s ex \<Longrightarrow> reachable_from exec_step s ex'"
proof (induction as arbitrary: ex)
  case (Cons a as)
  then obtain ex1 where ex1: "perform a ex = Some ex1" "run_actions as ex1 = Some ex'" by (auto split: option.splits)
  have "reachable_from exec_step s ex1"
    by (rule reachable_from.further [OF Cons.prems(2)]) (rule exec_step.act [OF ex1(1)])
  then show ?case by (rule Cons.IH [OF ex1(2)])
qed simp

end
