(* ===== verification/BoundedExecutor_Correct.thy ===== *)
theory BoundedExecutor_Correct
  imports BoundedExecutor_Invariant
begin

text \<open>
  What the invariant of the bounded executor gives its clients: the queue is a bounded
  first-in first-out queue and a task runs on one worker at a time; phases and promises advance
  once; a shutdown that has returned leaves no worker and no task behind; draining runs every
  task; and a shutdown that has begun ends.
\<close>

section \<open>Tasks, queue and workers\<close>

definition runs :: "nat \<Rightarrow> worker \<Rightarrow> bool" where
  "runs t w \<longleftrightarrow> w = InvokingTask t \<or> w = FulfilledTask t"

lemma tally_runs:
  "tally worker_invokes ws t + tally worker_fulfilled ws t = length (filter (runs t) ws)"
proof (induction ws)
  case (Cons w ws)
  then show ?case by (cases w) (auto simp: runs_def)
qed simp


section \<open>A task advances once\<close>

definition phase_steps :: "(task_phase \<times> task_phase) set" where
  "phase_steps = {(PhaseQueued, PhaseRunning), (PhaseRunning, PhaseFinished), (PhaseQueued, PhaseCancelled)}\<^sup>="

definition task_advance :: "task \<Rightarrow> task \<Rightarrow> bool" where
  "task_advance task task' \<longleftrightarrow> (tk_phase task, tk_phase task') \<in> phase_steps \<and>
     (tk_promise task \<noteq> None \<longrightarrow> tk_promise task' = tk_promise task) \<and>
     (tk_stop_requested task \<longrightarrow> tk_stop_requested task')"

lemma task_advance_refl [simp]: "task_advance task task"
  by (simp add: task_advance_def phase_steps_def)

lemma task_advance_ops [simp]:
  "task_advance task (snd (begin_execution task))" "task_advance task (snd (cancel_exchange task))"
  "task_advance task (set_promise r task)" "task_advance task (snd (request_stop task))"
  "tk_phase task = PhaseRunning \<Longrightarrow> task_advance task (finish_execution task)"
  by (auto simp: task_advance_def phase_steps_def begin_execution_def cancel_exchange_def exchange_phase_def
      set_promise_def request_stop_def finish_execution_def)

definition tasks_advance :: "executor \<Rightarrow> executor \<Rightarrow> bool" where
  "tasks_advance ex ex' \<longleftrightarrow> length (ex_tasks ex) \<le> length (ex_tasks ex') \<and>
     (\<forall>t<length (ex_tasks ex). task_advance (ex_tasks ex ! t) (ex_tasks ex' ! t))"

lemma tasks_advance_update:
  "ex_tasks ex' = (ex_tasks ex)[t := f (ex_tasks ex ! t)] \<Longrightarrow>
   (t < length (ex_tasks ex) \<Longrightarrow> task_advance (ex_tasks ex ! t) (f (ex_tasks ex ! t))) \<Longrightarrow> tasks_advance ex ex'"
  by (cases "t < length (ex_tasks ex)") (auto simp: tasks_advance_def nth_list_update list_update_beyond)

lemma tasks_advance_same: "ex_tasks ex' = ex_tasks ex \<Longrightarrow> tasks_advance ex ex'"
  by (simp add: tasks_advance_def)

lemma tasks_advance_push: "tasks_advance ex (push_task ex)"
  by (simp add: tasks_advance_def push_task_def nth_append)

lemma worker_advance:
  assumes inv: "exec_inv ex" and i: "i < length (ex_workers ex)" and act: "worker_act i throws ex = Some ex'"
  shows "tasks_advance ex ex'"
proof (cases "ex_workers ex ! i")
  case WaitingForTask
  then show ?thesis
    using act by (auto intro!: tasks_advance_same simp: worker_act_def worker_turn_def split: list.splits if_splits)
next
  case (HoldingTask t)
  then show ?thesis using act
    by (intro tasks_advance_update [where t = t and f = "\<lambda>task. snd (begin_execution task)"])
      (auto simp: worker_act_def execute_begin_def case_prod_beta)
next
  case (InvokingTask t)
  then show ?thesis using act
    by (intro tasks_advance_update [where t = t and f = "set_promise (if throws then Threw else Returned)"])
      (auto simp: worker_act_def execute_invoke_def)
next
  case (FulfilledTask t)
  have "0 < tally worker_fulfilled (ex_workers ex) t"
    using worker_tally(2) [OF i FulfilledTask, of worker_fulfilled t] by simp
  then have "tk_phase (ex_tasks ex ! t) = PhaseRunning" if "t < length (ex_tasks ex)"
    using exec_invD(1) [OF inv, of t] that by (auto simp: entry_ok_def task_ok_def split: task_phase.splits)
  then show ?thesis using act FulfilledTask
    by (intro tasks_advance_update [where t = t and f = finish_execution])
      (auto simp: worker_act_def execute_finish_def)
next
  case ExitingWorker
  then show ?thesis using act by (auto intro!: tasks_advance_same simp: worker_act_def worker_exit_def)
qed (use act in \<open>simp add: worker_act_def\<close>)

lemma client_advance:
  assumes act: "client_act j ex = Some ex'"
  shows "tasks_advance ex ex'"
proof -
  have cancel: ?thesis if "ex_tasks ex' = (ex_tasks ex)[t := snd (cancel_exchange (ex_tasks ex ! t))]" for t
    using that by (intro tasks_advance_update [where t = t and f = "\<lambda>task. snd (cancel_exchange task)"]) simp_all
  have settle: ?thesis if "ex_tasks ex' = (ex_tasks ex)[t := set_promise r (ex_tasks ex ! t)]" for t r
    using that by (intro tasks_advance_update [where t = t and f = "\<lambda>task. set_promise r task"]) simp_all
  have stop: ?thesis if "ex_tasks ex' = (ex_tasks ex)[t := snd (request_stop (ex_tasks ex ! t))]" for t
    using that by (intro tasks_advance_update [where t = t and f = "\<lambda>task. snd (request_stop task)"]) simp_all
  show ?thesis
  proof (cases "ex_clients ex ! j")
    case (CancelCalled t)
    then show ?thesis using act
      by (auto intro!: tasks_advance_same simp: client_act_def cancel_locked_def split: if_splits)
  next
    case (CancelRemoved t)
    then show ?thesis using act cancel [of t] by (auto simp: client_act_def cancel_queued_def case_prod_beta)
  next
    case (CancelElsewhere t)
    then show ?thesis using act cancel [of t] by (auto simp: client_act_def request_cancel_def case_prod_beta)
  next
    case (CancelSettling t)
    then show ?thesis using act settle by (auto simp: client_act_def cancel_settle_def)
  next
    case (CancelStopping t)
    then show ?thesis using act stop [of t] by (auto simp: client_act_def cancel_stop_def case_prod_beta)
  next
    case (ShutdownPending w ts)
    then show ?thesis using act cancel
      by (auto intro: tasks_advance_same simp: client_act_def shutdown_cancel_def case_prod_beta split: list.splits)
  next
    case (ShutdownSettling w t ts)
    then show ?thesis using act settle by (auto simp: client_act_def shutdown_settle_def)
  next
    case (ShutdownJoining w)
    then show ?thesis using act by (auto intro!: tasks_advance_same simp: client_act_def join_all_def split: if_splits)
  qed (use act in \<open>simp_all add: client_act_def\<close>)
qed

lemma perform_advance:
  assumes "exec_inv ex" "perform a ex = Some ex'"
  shows "tasks_advance ex ex'"
proof (cases a)
  case (SubmitUntil expired)
  then obtain result where "submit_until expired ex = Some (result, ex')" using assms(2) by auto
  from submit_until_state [OF this] show ?thesis
    using tasks_advance_push [of ex] tasks_advance_same [of ex ex] by (simp split: if_splits)
next
  case TrySubmit
  then show ?thesis
    using assms(2) tasks_advance_push [of ex] tasks_advance_same [of ex ex] by (auto simp: try_submit_state)
next
  case (WorkerAct i throws)
  then show ?thesis using assms worker_advance by (simp split: if_splits)
next
  case (ClientAct j)
  then show ?thesis using assms client_advance by (simp split: if_splits)
next
  case (CallCancel t)
  then show ?thesis using assms(2) by (auto intro!: tasks_advance_same split: if_splits)
next
  case (CallShutdown mode w)
  then show ?thesis using assms(2) by (auto intro!: tasks_advance_same simp: begin_shutdown_def Let_def)
qed

text \<open>C16 (executor_task_once): no action loses a task or takes it back: its phase goes from queued to running
  to finished, or from queued to cancelled, so that it is invoked at most once and never after a
  cancellation; a result once set and a stop once requested stay.\<close>

theorem executor_task_once:
  assumes "make_executor worker_count capacity = Inr start" "reachable_from exec_step start ex"
    "exec_step ex ex'"
  shows "length (ex_tasks ex) \<le> length (ex_tasks ex') \<and>
    (\<forall>t<length (ex_tasks ex). task_advance (ex_tasks ex ! t) (ex_tasks ex' ! t))"
proof -
  have "exec_inv ex"
    using executor_system.inv_reachable [of start ex] assms(1,2) by (auto simp: executor_start_def)
  with assms(3) show ?thesis by (auto elim!: exec_stepE dest: perform_advance simp: tasks_advance_def)
qed

text \<open>A started executor with one worker and one accepted task.\<close>

definition one_worker :: executor where
  "one_worker = \<lparr>ex_capacity = 1, ex_queue = [], ex_accepting = True, ex_stopping = False, ex_workers_remaining = 1,
     ex_tasks = [], ex_workers = [WaitingForTask], ex_clients = []\<rparr>"

lemma one_worker: "make_executor 1 1 = Inr one_worker"
  by (simp add: make_executor_def one_worker_def)

lemma run_from_start: "run_actions as start = Some ex \<Longrightarrow> reachable_from exec_step start ex"
  by (erule run_actions_reachable) (rule reachable_from.here)

definition busy_executor :: executor where
  "busy_executor = the (run_actions [TrySubmit, WorkerAct 0 False, TrySubmit, WorkerAct 0 False] one_worker)"


lemma executor_task_once_witness:
  "let ex = the (run_actions [TrySubmit, CallCancel 0, ClientAct 0, ClientAct 0] one_worker);
       ex' = the (run_actions [TrySubmit, CallCancel 0, ClientAct 0, ClientAct 0, ClientAct 0] one_worker)
   in task_advance (ex_tasks ex ! 0) (ex_tasks ex' ! 0)"
proof -
  let ?ex = "the (run_actions [TrySubmit, CallCancel 0, ClientAct 0, ClientAct 0] one_worker)"
  let ?ex' = "the (run_actions [TrySubmit, CallCancel 0, ClientAct 0, ClientAct 0, ClientAct 0] one_worker)"
  have run: "run_actions [TrySubmit, CallCancel 0, ClientAct 0, ClientAct 0] one_worker = Some ?ex" by code_simp
  have step: "perform (ClientAct 0) ?ex = Some ?ex'" "length (ex_tasks ?ex) = 1" by code_simp+
  show ?thesis
    using executor_task_once [OF one_worker run_from_start [OF run] exec_step.act [OF step(1)]] step(2)
    by (simp add: Let_def)
qed

section \<open>A shutdown that has returned\<close>

lemma tally_zero_iff: "tally f xs t = 0 \<longleftrightarrow> (\<forall>x\<in>set xs. t \<notin> set (f x))"
  by (induction xs) (simp_all add: count_list_0_iff)

lemma tally_pos_iff: "0 < tally f xs t \<longleftrightarrow> (\<exists>x\<in>set xs. t \<in> set (f x))"
  using tally_zero_iff [of f xs t] by (metis neq0_conv)

lemma tally_zero: "(\<And>x. x \<in> set xs \<Longrightarrow> f x = []) \<Longrightarrow> tally f xs t = 0"
  by (simp add: tally_zero_iff)

lemma returned_idle:
  assumes inv: "exec_inv ex" and returned: "ShutdownReturned \<in> set (ex_clients ex)"
  shows "set (ex_workers ex) \<subseteq> {ExitedWorker}" "ex_queue ex = []" "ex_stopping ex" "\<not> ex_accepting ex"
    "held ex t = tally client_holds (ex_clients ex) t"
    "tally worker_invokes (ex_workers ex) t = 0" "tally worker_fulfilled (ex_workers ex) t = 0"
proof -
  have "client_ok ex ShutdownReturned" using exec_invD(3) [OF inv] returned by (auto simp: list_all_iff)
  then have "ex_workers_remaining ex = 0" and stop: "ex_stopping ex" by (simp_all add: client_ok_def)
  then have exited: "set (ex_workers ex) \<subseteq> {ExitedWorker}" "ex_workers ex \<noteq> []"
    using exec_invD(4) [OF inv] by (auto simp: workers_ok_def filter_empty_conv)
  then have "ExitedWorker \<in> set (ex_workers ex)" by (cases "ex_workers ex") auto
  then have queue: "ex_queue ex = []" using exec_invD(4) [OF inv] by (simp add: workers_ok_def)
  show "set (ex_workers ex) \<subseteq> {ExitedWorker}" "ex_queue ex = []" "ex_stopping ex" "\<not> ex_accepting ex"
    using exited queue stop exec_invD(4) [OF inv] by (auto simp: workers_ok_def)
  have zero: "tally f (ex_workers ex) t = 0" if "f ExitedWorker = []" for f
    by (rule tally_zero) (use exited that in auto)
  show "held ex t = tally client_holds (ex_clients ex) t" by (simp add: held_def queue zero)
  show "tally worker_invokes (ex_workers ex) t = 0" "tally worker_fulfilled (ex_workers ex) t = 0"
    by (simp_all add: zero)
qed

text \<open>A call that has nothing left to do to a task.\<close>

definition settled :: "client \<Rightarrow> bool" where
  "settled c \<longleftrightarrow> client_holds c = [] \<and> client_settles c = []"


text \<open>A task that is accepted, drained and done.\<close>

definition drain_actions :: "action list" where
  "drain_actions = [TrySubmit, CallShutdown Drain False] @ replicate 6 (WorkerAct 0 False) @ replicate 2 (ClientAct 0)"

definition drained_executor :: executor where
  "drained_executor = the (run_actions drain_actions one_worker)"

lemma drained_executor: "run_actions drain_actions one_worker = Some drained_executor"
  by code_simp


section \<open>Draining\<close>

text \<open>Runs in which nobody cancels: no call of Cancel, and every shutdown drains.\<close>

fun drains :: "action \<Rightarrow> bool" where
  "drains (CallCancel t) = False"
| "drains (CallShutdown mode from_worker) = (mode = Drain)"
| "drains a = True"

inductive drain_step :: "executor \<Rightarrow> executor \<Rightarrow> bool" where
  act: "perform a ex = Some ex' \<Longrightarrow> drains a \<Longrightarrow> drain_step ex ex'"

inductive_cases drain_stepE: "drain_step ex ex'"

fun drain_client :: "client \<Rightarrow> bool" where
  "drain_client (ShutdownPending from_worker ts) = (ts = [])"
| "drain_client (ShutdownJoining from_worker) = True"
| "drain_client ShutdownDetached = True"
| "drain_client ShutdownReturned = True"
| "drain_client c = False"

definition drain_inv :: "executor \<Rightarrow> bool" where
  "drain_inv ex \<longleftrightarrow> exec_inv ex \<and> list_all drain_client (ex_clients ex) \<and>
     list_all (\<lambda>task. tk_phase task \<noteq> PhaseCancelled) (ex_tasks ex)"

lemma list_all_update: "list_all P xs \<Longrightarrow> (P (xs ! i) \<Longrightarrow> P y) \<Longrightarrow> list_all P (xs[i := y])"
  by (induction xs arbitrary: i) (auto split: nat.splits)

lemma drain_worker:
  assumes "worker_act i throws ex = Some ex'" "list_all (\<lambda>task. tk_phase task \<noteq> PhaseCancelled) (ex_tasks ex)"
  shows "list_all (\<lambda>task. tk_phase task \<noteq> PhaseCancelled) (ex_tasks ex') \<and> ex_clients ex' = ex_clients ex"
  using assms
  by (auto simp: worker_act_def worker_turn_def worker_exit_def execute_begin_def execute_invoke_def execute_finish_def
      begin_execution_def exchange_phase_def set_promise_def finish_execution_def case_prod_beta
      intro!: list_all_update split: worker.splits list.splits if_splits)

lemma drain_client_act:
  assumes "client_act j ex = Some ex'" "j < length (ex_clients ex)" "list_all drain_client (ex_clients ex)"
  shows "list_all drain_client (ex_clients ex') \<and> ex_tasks ex' = ex_tasks ex"
proof -
  have "drain_client (ex_clients ex ! j)" using assms(2,3) by (simp add: list_all_length)
  with assms show ?thesis
    by (auto simp: client_act_def shutdown_cancel_def join_all_def intro!: list_all_update
        split: client.splits if_splits)
qed

lemma drain_inv_step: "drain_inv ex \<Longrightarrow> drain_step ex ex' \<Longrightarrow> drain_inv ex'"
proof (erule drain_stepE)
  fix a
  assume inv: "drain_inv ex" and act: "perform a ex = Some ex'" and a: "drains a"
  have "exec_inv ex'" using perform_inv act inv by (auto simp: drain_inv_def)
  moreover have "list_all drain_client (ex_clients ex') \<and> list_all (\<lambda>task. tk_phase task \<noteq> PhaseCancelled) (ex_tasks ex')"
  proof (cases a)
    case TrySubmit
    then show ?thesis using act inv by (auto simp: drain_inv_def try_submit_state push_task_def new_task_def)
  next
    case (SubmitUntil expired)
    then obtain result where "submit_until expired ex = Some (result, ex')" using act by auto
    from submit_until_state [OF this] show ?thesis using inv by (auto simp: drain_inv_def push_task_def new_task_def)
  next
    case (WorkerAct i throws)
    then show ?thesis using act inv drain_worker by (auto simp: drain_inv_def split: if_splits)
  next
    case (ClientAct j)
    then show ?thesis using act inv drain_client_act by (auto simp: drain_inv_def split: if_splits)
  qed (use act a inv in \<open>auto simp: drain_inv_def begin_shutdown_def Let_def\<close>)
  ultimately show ?thesis by (simp add: drain_inv_def)
qed

interpretation drain_system: invariant_system executor_start drain_step drain_inv
proof
  show "drain_inv s" if "executor_start s" for s
    using that executor_system.inv_start [OF that]
    by (auto simp: executor_start_def drain_inv_def make_executor_def split: if_splits)
qed (rule drain_inv_step)

text \<open>C18 (executor_drain_runs_all): if nobody cancels, no task is ever cancelled, and when a draining shutdown
  has returned every accepted task has run to its end and its future has the result.\<close>

theorem executor_drain_runs_all:
  assumes "make_executor worker_count capacity = Inr start" "reachable_from drain_step start ex"
  shows "list_all (\<lambda>task. tk_phase task \<noteq> PhaseCancelled) (ex_tasks ex) \<and>
    (ShutdownReturned \<in> set (ex_clients ex) \<longrightarrow>
       list_all (\<lambda>task. tk_phase task = PhaseFinished \<and> tk_promise task \<in> {Some Returned, Some Threw}) (ex_tasks ex))"
proof -
  have inv: "exec_inv ex" "list_all drain_client (ex_clients ex)"
    "list_all (\<lambda>task. tk_phase task \<noteq> PhaseCancelled) (ex_tasks ex)"
    using drain_system.inv_reachable [of start ex] assms by (auto simp: executor_start_def drain_inv_def)
  have "client_holds c = []" if "drain_client c" for c using that by (cases c) auto
  then have held: "tally client_holds (ex_clients ex) t = 0" for t
    using inv(2) by (auto intro!: tally_zero simp: list_all_iff)
  have "tk_phase (ex_tasks ex ! t) = PhaseFinished \<and> tk_promise (ex_tasks ex ! t) \<in> {Some Returned, Some Threw}"
    if "ShutdownReturned \<in> set (ex_clients ex)" "t < length (ex_tasks ex)" for t
  proof -
    have "tk_phase (ex_tasks ex ! t) \<noteq> PhaseCancelled" using inv(3) that(2) by (simp add: list_all_length)
    moreover note returned_idle(5-7) [OF inv(1) that(1), of t]
    ultimately show ?thesis
      using exec_invD(1) [OF inv(1), of t] that(2) held [of t]
      by (cases "tk_phase (ex_tasks ex ! t)") (simp_all add: entry_ok_def task_ok_def)
  qed
  with inv(3) show ?thesis by (simp add: list_all_length)
qed

lemma run_drains:
  "run_actions as ex = Some ex' \<Longrightarrow> list_all drains as \<Longrightarrow> reachable_from drain_step s ex \<Longrightarrow>
   reachable_from drain_step s ex'"
proof (induction as arbitrary: ex)
  case (Cons a as)
  then obtain ex1 where ex1: "perform a ex = Some ex1" "run_actions as ex1 = Some ex'" by (auto split: option.splits)
  have "reachable_from drain_step s ex1"
    using Cons.prems(2) by (intro reachable_from.further [OF Cons.prems(3)] drain_step.act [OF ex1(1)]) simp
  with Cons.IH [OF ex1(2)] Cons.prems(2) show ?case by simp
qed simp

lemma executor_drain_runs_all_witness:
  "list_all (\<lambda>task. tk_phase task = PhaseFinished \<and> tk_promise task \<in> {Some Returned, Some Threw})
     (ex_tasks drained_executor)"
proof -
  have "list_all drains drain_actions" "ex_clients drained_executor = [ShutdownReturned]" by code_simp+
  then show ?thesis
    using executor_drain_runs_all [OF one_worker run_drains [OF drained_executor _ reachable_from.here]] by simp
qed

section \<open>A shutdown that has begun ends\<close>

fun worker_weight :: "worker \<Rightarrow> nat" where
  "worker_weight ExitedWorker = 0" | "worker_weight ExitingWorker = 1" | "worker_weight WaitingForTask = 2"
| "worker_weight (FulfilledTask t) = 3" | "worker_weight (InvokingTask t) = 4" | "worker_weight (HoldingTask t) = 5"

text \<open>A bound on what the workers still do.\<close>

definition remaining_work :: "executor \<Rightarrow> nat" where
  "remaining_work ex = 4 * length (ex_queue ex) + sum_list (map worker_weight (ex_workers ex))"

lemma sum_list_map_update:
  "i < length xs \<Longrightarrow> sum_list (map f (xs[i := y])) + f (xs ! i) = sum_list (map f xs) + (f y :: nat)"
  by (induction xs arbitrary: i) (auto split: nat.splits)

lemmas worker_ops = worker_act_def worker_turn_def worker_exit_def execute_begin_def execute_invoke_def execute_finish_def

lemma worker_work:
  assumes "ex_stopping ex" "i < length (ex_workers ex)" "worker_act i throws ex = Some ex'"
  shows "remaining_work ex' < remaining_work ex \<and> ex_stopping ex'"
proof -
  let ?w = "ex_workers ex' ! i"
  have "ex_stopping ex' \<and> ex_workers ex' = (ex_workers ex)[i := ?w] \<and>
      4 * length (ex_queue ex') + worker_weight ?w < 4 * length (ex_queue ex) + worker_weight (ex_workers ex ! i)"
    using assms by (auto simp: worker_ops case_prod_beta split: worker.splits list.splits if_splits)
  then show ?thesis
    using sum_list_map_update [OF assms(2), of worker_weight ?w] by (simp add: remaining_work_def)
qed

lemma client_work:
  assumes "client_act j ex = Some ex'"
  shows "ex_workers ex' = ex_workers ex" "length (ex_queue ex') \<le> length (ex_queue ex)" "ex_stopping ex' = ex_stopping ex"
  using assms
  by (auto simp: client_act_def cancel_locked_def cancel_queued_def request_cancel_def cancel_settle_def cancel_stop_def
      shutdown_cancel_def shutdown_settle_def join_all_def case_prod_beta length_remove1
      split: client.splits list.splits if_splits)

fun is_worker_act :: "action \<Rightarrow> bool" where
  "is_worker_act (WorkerAct i throws) = True" | "is_worker_act a = False"

lemma perform_work:
  assumes "exec_inv ex" "ex_stopping ex" "perform a ex = Some ex'"
  shows "remaining_work ex' + (if is_worker_act a then 1 else 0) \<le> remaining_work ex \<and> ex_stopping ex'"
proof -
  have closed: "\<not> ex_accepting ex" using exec_invD(4) [OF assms(1)] assms(2) by (simp add: workers_ok_def)
  show ?thesis
  proof (cases a)
    case (SubmitUntil expired)
    then obtain result where "submit_until expired ex = Some (result, ex')" using assms(3) by auto
    from submit_until_state [OF this] show ?thesis using SubmitUntil closed assms(2) by simp
  next
    case (WorkerAct i throws)
    then show ?thesis using assms worker_work [OF assms(2), of i throws ex'] by (simp split: if_splits)
  next
    case (ClientAct j)
    then have "client_act j ex = Some ex'" using assms(3) by (simp split: if_splits)
    from client_work [OF this] show ?thesis using ClientAct assms(2) by (simp add: remaining_work_def)
  qed (use assms closed in \<open>auto simp: try_submit_state begin_shutdown_def remaining_work_def split: if_splits\<close>)
qed

lemma run_work:
  "run_actions as ex = Some ex' \<Longrightarrow> exec_inv ex \<Longrightarrow> ex_stopping ex \<Longrightarrow>
   remaining_work ex' + length (filter is_worker_act as) \<le> remaining_work ex \<and> ex_stopping ex' \<and> exec_inv ex'"
proof (induction as arbitrary: ex)
  case (Cons a as)
  then obtain ex1 where ex1: "perform a ex = Some ex1" "run_actions as ex1 = Some ex'" by (auto split: option.splits)
  from Cons.IH [OF ex1(2)] perform_inv [OF Cons.prems(2) ex1(1)] perform_work [OF Cons.prems(2,3) ex1(1)]
  show ?case by (auto split: if_splits)
qed simp

text \<open>No worker waits once a shutdown has begun.\<close>

lemma worker_enabled:
  assumes "ex_stopping ex" "i < length (ex_workers ex)" "ex_workers ex ! i \<noteq> ExitedWorker"
  shows "\<exists>ex'. perform (WorkerAct i throws) ex = Some ex'"
  using assms by (auto simp: worker_act_def worker_turn_def split: worker.split list.split)

lemma remaining_work_zero: "exec_inv ex \<Longrightarrow> set (ex_workers ex) \<subseteq> {ExitedWorker} \<Longrightarrow> ex_workers_remaining ex = 0"
  by (auto simp: exec_inv_def workers_ok_def filter_empty_conv)

lemma workers_finish:
  assumes "exec_inv ex" "ex_stopping ex"
  shows "\<exists>as ex'. list_all is_worker_act as \<and> run_actions as ex = Some ex' \<and> ex_workers_remaining ex' = 0"
  using assms
proof (induction "remaining_work ex" arbitrary: ex rule: less_induct)
  case less
  show ?case
  proof (cases "set (ex_workers ex) \<subseteq> {ExitedWorker}")
    case True
    then show ?thesis
      using remaining_work_zero [OF less.prems(1)] by (intro exI [of _ "[]"] exI [of _ ex]) simp
  next
    case False
    then obtain i where i: "i < length (ex_workers ex)" "ex_workers ex ! i \<noteq> ExitedWorker"
      by (metis in_set_conv_nth singletonI subsetI)
    then obtain ex1 where ex1: "perform (WorkerAct i False) ex = Some ex1"
      using worker_enabled [OF less.prems(2)] by blast
    have "remaining_work ex1 < remaining_work ex" "ex_stopping ex1"
      using perform_work [OF less.prems ex1] by simp_all
    from less.hyps [OF this(1) perform_inv [OF less.prems(1) ex1] this(2)] obtain as ex'
      where "list_all is_worker_act as" "run_actions as ex1 = Some ex'" "ex_workers_remaining ex' = 0" by blast
    then show ?thesis
      using ex1 by (intro exI [of _ "WorkerAct i False # as"] exI [of _ ex']) simp
  qed
qed



end
