(* ===== verification/PipeFraming.thy ===== *)
theory PipeFraming
  imports Prelude
begin

text \<open>
  The framing of a byte stream (src/include/service/protocol/PipeFraming.h,
  src/src/service/protocol/PipeFraming.cpp): the encoder of headers and frames and the
  incremental decoder.  A byte is an 8-bit word; the length field, the sizes and the shifts keep
  their widths.
\<close>

section \<open>Types\<close>

type_synonym byte = "8 word"

definition magic :: "byte list" where "magic = [0x42, 0x50, 0x49, 0x50]"
definition version :: byte where "version = 1"
definition header_size :: nat where "header_size = 10"
definition max_payload_size :: "32 word" where "max_payload_size = 64 * 1024 * 1024"

datatype frame_kind = FrameJson | FrameBytes | FrameClose | FrameError

fun kind_value :: "frame_kind \<Rightarrow> byte" where
  "kind_value FrameJson = 1" | "kind_value FrameBytes = 2" | "kind_value FrameClose = 3" | "kind_value FrameError = 4"

definition is_known_kind :: "byte \<Rightarrow> bool" where
  "is_known_kind kind \<longleftrightarrow> kind \<ge> kind_value FrameJson \<and> kind \<le> kind_value FrameError"

datatype pipe_error_code = InvalidMagic | UnsupportedVersion | PayloadTooLarge

fun error_name :: "pipe_error_code \<Rightarrow> string" where
  "error_name InvalidMagic = ''invalid_magic''"
| "error_name UnsupportedVersion = ''unsupported_version''"
| "error_name PayloadTooLarge = ''payload_too_large''"

record pipe_error =
  pe_code :: pipe_error_code
  pe_observed_version :: byte
  pe_declared_payload_size :: "64 word"

definition pipe_error_of :: "pipe_error_code \<Rightarrow> byte \<Rightarrow> 64 word \<Rightarrow> pipe_error" where
  "pipe_error_of code observed declared =
     \<lparr>pe_code = code, pe_observed_version = observed, pe_declared_payload_size = declared\<rparr>"

record frame =
  fr_kind :: byte
  fr_payload :: "byte list"

section \<open>Encoding\<close>

definition decode_u32_le :: "byte list \<Rightarrow> 32 word" where
  "decode_u32_le bytes = ucast (bytes ! 0) OR push_bit 8 (ucast (bytes ! 1)) OR
     push_bit 16 (ucast (bytes ! 2)) OR push_bit 24 (ucast (bytes ! 3))"

definition encode_u32_le :: "32 word \<Rightarrow> byte list" where
  "encode_u32_le n = [ucast (n AND 0xFF), ucast (drop_bit 8 n AND 0xFF),
     ucast (drop_bit 16 n AND 0xFF), ucast (drop_bit 24 n AND 0xFF)]"

text \<open>The header, or the error.\<close>

definition encode_header :: "byte \<Rightarrow> 64 word \<Rightarrow> (pipe_error, byte list) result" where
  "encode_header kind payload_size =
    (if payload_size > ucast max_payload_size then Inl (pipe_error_of PayloadTooLarge 0 payload_size)
     else Inr (magic @ [version, kind] @ encode_u32_le (ucast payload_size)))"

definition encode_frame :: "byte \<Rightarrow> byte list \<Rightarrow> (pipe_error, byte list) result" where
  "encode_frame kind payload =
     bind_result (encode_header kind (of_nat (length payload))) (\<lambda>header. Inr (header @ payload))"

section \<open>Decoding\<close>

record decoder =
  de_header :: "byte list"
  de_header_bytes :: nat
  de_kind :: byte
  de_expected :: "32 word option"
  de_payload :: "byte list"
  de_error :: "pipe_error option"

definition new_decoder :: decoder where
  "new_decoder = \<lparr>de_header = replicate header_size 0, de_header_bytes = 0, de_kind = 0, de_expected = None,
     de_payload = [], de_error = None\<rparr>"

definition clear_pending_frame :: "decoder \<Rightarrow> decoder" where
  "clear_pending_frame d = d\<lparr>de_header := replicate header_size 0, de_header_bytes := 0, de_kind := 0,
     de_expected := None, de_payload := []\<rparr>"

definition poison :: "pipe_error \<Rightarrow> decoder \<Rightarrow> decoder" where
  "poison e d = (clear_pending_frame d)\<lparr>de_error := Some e\<rparr>"

definition reset_decoder :: "decoder \<Rightarrow> decoder" where
  "reset_decoder d = clear_pending_frame (d\<lparr>de_error := None\<rparr>)"

definition buffered_bytes :: "decoder \<Rightarrow> nat" where
  "buffered_bytes d = de_header_bytes d + length (de_payload d)"

text \<open>\<open>std::copy_n\<close> of the bytes from \<open>offset\<close> on into the header.\<close>

definition fill_header :: "byte list \<Rightarrow> nat \<Rightarrow> nat \<Rightarrow> decoder \<Rightarrow> decoder" where
  "fill_header input offset count d = d\<lparr>
     de_header := take (de_header_bytes d) (de_header d) @ take count (drop offset input) @
       drop (de_header_bytes d + count) (de_header d),
     de_header_bytes := de_header_bytes d + count\<rparr>"

text \<open>The checks of a complete header: the poisoned decoder, or the one that expects its payload.\<close>

definition check_header :: "decoder \<Rightarrow> (decoder, decoder) result" where
  "check_header d =
    (if take 4 (de_header d) \<noteq> magic then Inl (poison (pipe_error_of InvalidMagic 0 0) d)
     else if de_header d ! 4 \<noteq> version then Inl (poison (pipe_error_of UnsupportedVersion (de_header d ! 4) 0) d)
     else let declared = decode_u32_le (drop 6 (de_header d)) in
       if declared > max_payload_size then Inl (poison (pipe_error_of PayloadTooLarge 0 (ucast declared)) d)
       else Inr (d\<lparr>de_kind := de_header d ! 5, de_expected := Some declared\<rparr>))"

text \<open>The payload of the current frame as far as it is there; \<open>remaining\<close> is a difference of two
  unsigned 64-bit integers.\<close>

definition take_payload :: "byte list \<Rightarrow> 32 word \<Rightarrow> decoder \<Rightarrow> frame list \<Rightarrow> nat \<Rightarrow> decoder \<times> frame list \<times> nat" where
  "take_payload input expected d frames offset =
    (let remaining = unat (ucast expected - of_nat (length (de_payload d)) :: 64 word);
         count = min remaining (length input - offset);
         payload = de_payload d @ take count (drop offset input)
     in if (of_nat (length payload) :: 64 word) = ucast expected
        then (clear_pending_frame d, frames @ [\<lparr>fr_kind = de_kind d, fr_payload = payload\<rparr>], offset + count)
        else (d\<lparr>de_payload := payload\<rparr>, frames, offset + count))"

definition feed_measure :: "byte list \<Rightarrow> decoder \<Rightarrow> nat \<Rightarrow> nat" where
  "feed_measure input d offset = 2 * (length input - offset) + (if de_header_bytes d < header_size then 0 else 1)"

lemma take_payload_offset: "take_payload input expected d frames offset = (d', frames', offset') \<Longrightarrow> offset \<le> offset'"
  by (auto simp: take_payload_def Let_def split: if_splits)

lemma take_payload_measure:
  assumes "take_payload input expected d frames offset = (d', frames', offset')" "offset < length input"
    "\<not> de_header_bytes d < header_size"
  shows "feed_measure input d' offset' < feed_measure input d offset"
proof -
  let ?remaining = "unat (ucast expected - of_nat (length (de_payload d)) :: 64 word)"
  consider "0 < ?remaining" | "of_nat (length (de_payload d)) = (ucast expected :: 64 word)" "?remaining = 0"
    by (metis diff_eq_eq gr0I unat_eq_0 add_0)
  then show ?thesis
  proof cases
    case 1
    then have "0 < min ?remaining (length input - offset)" using assms(2) by simp
    then show ?thesis
      using assms by (auto simp: take_payload_def Let_def feed_measure_def clear_pending_frame_def header_size_def split: if_splits)
  next
    case 2
    then show ?thesis
      using assms by (auto simp: take_payload_def Let_def feed_measure_def clear_pending_frame_def header_size_def)
  qed
qed

text \<open>The loop of \<open>feed\<close>: \<open>None\<close> where the code reads an expected size that is not there, which
  is undefined.\<close>

function feed_loop :: "byte list \<Rightarrow> decoder \<Rightarrow> frame list \<Rightarrow> nat \<Rightarrow> (decoder \<times> frame list) option" where
  "feed_loop input d frames offset =
    (if offset < length input \<and> de_error d = None then
       if de_header_bytes d < header_size then
         let count = min (header_size - de_header_bytes d) (length input - offset);
             d1 = fill_header input offset count d
         in if de_header_bytes d1 < header_size then Some (d1, frames)
            else case check_header d1 of
                Inl d2 \<Rightarrow> Some (d2, frames)
              | Inr d2 \<Rightarrow>
                  (if de_expected d2 = Some 0
                   then feed_loop input (clear_pending_frame d2) (frames @ [\<lparr>fr_kind = de_kind d2, fr_payload = []\<rparr>])
                          (offset + count)
                   else let (d3, frames', offset') = take_payload input (the (de_expected d2)) d2 frames (offset + count)
                        in feed_loop input d3 frames' offset')
       else case de_expected d of
           None \<Rightarrow> None
         | Some expected \<Rightarrow>
             let (d3, frames', offset') = take_payload input expected d frames offset
             in feed_loop input d3 frames' offset'
     else Some (d, frames))"
  by pat_completeness auto
termination
proof (relation "measure (\<lambda>(input, d, frames, offset). feed_measure input d offset)", goal_cases)
  case (2 input d frames offset x xa x2)
  then show ?case by (auto simp: feed_measure_def clear_pending_frame_def header_size_def min_def)
next
  case (3 input d frames offset x xa x2 xb xc y xd ya)
  then have "take_payload input (the (de_expected x2)) x2 frames (offset + x) = (xc, xd, ya)"
    and "0 < x" "offset < length input" "de_header_bytes d < header_size"
    by (simp_all add: header_size_def)
  with take_payload_offset [OF this(1)] show ?case by (auto simp: feed_measure_def)
next
  case (4 input d frames offset x2 x xa y xb ya)
  then have "take_payload input x2 d frames offset = (xa, xb, ya)" "offset < length input"
    "\<not> de_header_bytes d < header_size"
    by simp_all
  from take_payload_measure [OF this] 4(5) show ?case by simp
qed simp

declare feed_loop.simps [simp del]

text \<open>\<open>feed\<close>: the decoder, the frames that the input completes, and the error.\<close>

definition feed :: "byte list \<Rightarrow> decoder \<Rightarrow> (decoder \<times> frame list \<times> pipe_error option) option" where
  "feed input d = (if de_error d \<noteq> None then Some (d, [], de_error d)
     else map_option (\<lambda>(d', frames). (d', frames, de_error d')) (feed_loop input d [] 0))"

text \<open>A decoder that is fed one input after the other: the frames of all of them.\<close>

fun feed_all :: "byte list list \<Rightarrow> decoder \<Rightarrow> (decoder \<times> frame list) option" where
  "feed_all [] d = Some (d, [])"
| "feed_all (input # inputs) d = (case feed input d of None \<Rightarrow> None
     | Some (d', frames, error) \<Rightarrow> map_option (\<lambda>(d'', frames'). (d'', frames @ frames')) (feed_all inputs d'))"

end
