(* ===== verification/PipeFraming_Correct.thy ===== *)
theory PipeFraming_Correct
  imports PipeFraming
begin

text \<open>
  The decoder of frames against a reference parser of the whole byte stream: however the stream
  is cut into inputs, the decoder returns the frames of the stream, keeps what is left of it, and
  stops at the same error; and it undoes the encoder.
\<close>

section \<open>The length field\<close>

lemma low_byte: "(0xFF :: 32 word) = mask 8"
  by (simp add: mask_eq_exp_minus_1)

lemma decode_encode_u32 [simp]: "decode_u32_le (encode_u32_le n) = n"
proof (rule bit_word_eqI)
  fix k
  assume k: "k < LENGTH(32)"
  then consider "k < 8" | "8 \<le> k \<and> k < 16" | "16 \<le> k \<and> k < 24" | "24 \<le> k \<and> k < 32" by fastforce
  then show "bit (decode_u32_le (encode_u32_le n)) k = bit n k"
    by cases (auto simp: decode_u32_le_def encode_u32_le_def low_byte bit_simps)
qed

lemma length_encode_u32 [simp]: "length (encode_u32_le n) = 4"
  by (simp add: encode_u32_le_def)

lemma length_magic [simp]: "length magic = 4"
  by (simp add: magic_def)

section \<open>The stream\<close>

definition declared_size :: "byte list \<Rightarrow> nat" where
  "declared_size bytes = unat (decode_u32_le (take 4 (drop 6 bytes)))"

text \<open>What is wrong with a header.\<close>

definition header_error :: "byte list \<Rightarrow> pipe_error option" where
  "header_error bytes =
    (if take 4 bytes \<noteq> magic then Some (pipe_error_of InvalidMagic 0 0)
     else if bytes ! 4 \<noteq> version then Some (pipe_error_of UnsupportedVersion (bytes ! 4) 0)
     else if declared_size bytes > unat max_payload_size
       then Some (pipe_error_of PayloadTooLarge 0 (of_nat (declared_size bytes)))
     else None)"

text \<open>The frames of a stream, the error that ends it, and the bytes after the last frame.\<close>

function stream_frames :: "byte list \<Rightarrow> frame list \<times> pipe_error option \<times> byte list" where
  "stream_frames bytes =
    (if length bytes < header_size then ([], None, bytes)
     else case header_error bytes of
         Some e \<Rightarrow> ([], Some e, [])
       | None \<Rightarrow> let n = header_size + declared_size bytes in
           if length bytes < n then ([], None, bytes)
           else case stream_frames (drop n bytes) of (frames, e, rest) \<Rightarrow>
             (\<lparr>fr_kind = bytes ! 5, fr_payload = drop header_size (take n bytes)\<rparr> # frames, e, rest))"
  by pat_completeness auto
termination by (relation "measure length") (auto simp: header_size_def)

declare stream_frames.simps [simp del]

lemma stream_short: "length bytes < header_size \<Longrightarrow> stream_frames bytes = ([], None, bytes)"
  by (simp add: stream_frames.simps)

lemma stream_bad: "header_size \<le> length bytes \<Longrightarrow> header_error bytes = Some e \<Longrightarrow> stream_frames bytes = ([], Some e, [])"
  by (simp add: stream_frames.simps)

lemma stream_partial:
  "header_size \<le> length bytes \<Longrightarrow> header_error bytes = None \<Longrightarrow> length bytes < header_size + declared_size bytes \<Longrightarrow>
   stream_frames bytes = ([], None, bytes)"
  by (simp add: stream_frames.simps)

text \<open>A header only depends on its ten bytes.\<close>

lemma header_prefix:
  assumes "header_size \<le> length xs"
  shows "header_error (xs @ ys) = header_error xs" "declared_size (xs @ ys) = declared_size xs"
    "(xs @ ys) ! 5 = xs ! 5"
  using assms by (simp_all add: header_error_def declared_size_def header_size_def nth_append)

lemma stream_frame:
  assumes "length header = header_size" "header_error header = None" "length payload = declared_size header"
    "stream_frames rest = (frames, e, left)"
  shows "stream_frames (header @ payload @ rest) = (\<lparr>fr_kind = header ! 5, fr_payload = payload\<rparr> # frames, e, left)"
  using assms header_prefix [of header "payload @ rest"]
  by (subst stream_frames.simps) (simp add: Let_def)

text \<open>A longer stream.\<close>

lemma stream_append:
  "stream_frames xs = (frames, e, rest) \<Longrightarrow>
   stream_frames (xs @ ys) = (case e of Some err \<Rightarrow> (frames, e, rest)
     | None \<Rightarrow> (case stream_frames (rest @ ys) of (frames', e', rest') \<Rightarrow> (frames @ frames', e', rest')))"
proof (induction xs arbitrary: frames rule: stream_frames.induct)
  case (1 xs)
  let ?n = "header_size + declared_size xs"
  consider "length xs < header_size" | err where "header_size \<le> length xs" "header_error xs = Some err"
    | "header_size \<le> length xs" "header_error xs = None" "length xs < ?n"
    | "header_size \<le> length xs" "header_error xs = None" "?n \<le> length xs"
    by fastforce
  then show ?case
  proof cases
    case 1
    then show ?thesis using "1.prems" by (auto simp: stream_short split: prod.split)
  next
    case 2
    then have "stream_frames (xs @ ys) = ([], Some err, [])" by (intro stream_bad) (simp_all add: header_prefix)
    then show ?thesis using "1.prems" stream_bad [OF 2] by auto
  next
    case 3
    then show ?thesis using "1.prems" by (auto simp: stream_partial split: prod.split)
  next
    case 4
    obtain fs e' rest' where r: "stream_frames (drop ?n xs) = (fs, e', rest')" by (cases "stream_frames (drop ?n xs)")
    have xs: "take header_size xs @ drop header_size (take ?n xs) @ drop ?n xs = xs"
      by (metis append_assoc append_take_drop_id drop_take le_add1 take_add_drop le_add_diff_inverse)
    have h: "length (take header_size xs) = header_size" "header_error (take header_size xs) = None"
      "length (drop header_size (take ?n xs)) = declared_size (take header_size xs)" "take header_size xs ! 5 = xs ! 5"
      using 4 header_prefix [of "take header_size xs" "drop header_size xs"] by auto
    from stream_frame [OF h(1-3) r] h(4) xs "1.prems"
    have eq: "e = e'" "rest = rest'" "frames = \<lparr>fr_kind = xs ! 5, fr_payload = drop header_size (take ?n xs)\<rparr> # fs"
      by simp_all
    have IH: "stream_frames (drop ?n xs @ ys) = (case e of Some err \<Rightarrow> (fs, e, rest)
        | None \<Rightarrow> (case stream_frames (rest @ ys) of (frames', e', rest') \<Rightarrow> (fs @ frames', e', rest')))"
      using 4 r eq by (intro "1.IH") simp_all
    obtain frames2 e2 rest2 where r2: "stream_frames (drop ?n xs @ ys) = (frames2, e2, rest2)"
      by (cases "stream_frames (drop ?n xs @ ys)")
    have "stream_frames (xs @ ys) = (\<lparr>fr_kind = xs ! 5, fr_payload = drop header_size (take ?n xs)\<rparr> # frames2, e2, rest2)"
      using stream_frame [OF h(1-3) r2] h(4) xs by (metis append_assoc)
    then show ?thesis using IH r2 eq by (auto split: option.splits prod.splits)
  qed
qed

section \<open>The decoder\<close>

text \<open>The bytes that the decoder keeps.\<close>

definition pending_bytes :: "decoder \<Rightarrow> byte list" where
  "pending_bytes d = take (de_header_bytes d) (de_header d) @ de_payload d"

definition decoder_ok :: "decoder \<Rightarrow> bool" where
  "decoder_ok d \<longleftrightarrow> length (de_header d) = header_size \<and> de_header_bytes d \<le> header_size \<and>
     drop (de_header_bytes d) (de_header d) = replicate (header_size - de_header_bytes d) 0 \<and>
     (de_error d \<noteq> None \<longrightarrow> de_header_bytes d = 0) \<and>
     (if de_header_bytes d < header_size then de_kind d = 0 \<and> de_expected d = None \<and> de_payload d = []
      else header_error (de_header d) = None \<and> de_kind d = de_header d ! 5 \<and>
        de_expected d = Some (decode_u32_le (drop 6 (de_header d))) \<and>
        length (de_payload d) < declared_size (de_header d))"

lemma decoder_ok_new [simp]: "decoder_ok new_decoder"
  by (simp add: decoder_ok_def new_decoder_def header_size_def)

lemma decoder_ok_clear [simp]: "de_error d = None \<Longrightarrow> clear_pending_frame d = new_decoder"
  by (simp add: clear_pending_frame_def new_decoder_def)

lemma pending_new [simp]: "pending_bytes new_decoder = []" "de_error new_decoder = None"
  by (simp_all add: pending_bytes_def new_decoder_def)

lemma decoder_new_iff: "decoder_ok d \<Longrightarrow> pending_bytes d = [] \<and> de_error d = None \<longleftrightarrow> d = new_decoder"
  by (cases d) (auto simp: decoder_ok_def pending_bytes_def new_decoder_def header_size_def split: if_splits)

lemma declared_header: "length h = header_size \<Longrightarrow> declared_size h = unat (decode_u32_le (drop 6 h))"
  by (simp add: declared_size_def header_size_def)

lemma check_header_eq:
  assumes "length (de_header d) = header_size" "de_error d = None"
  shows "check_header d = (case header_error (de_header d) of
      Some e \<Rightarrow> Inl (new_decoder\<lparr>de_error := Some e\<rparr>)
    | None \<Rightarrow> Inr (d\<lparr>de_kind := de_header d ! 5, de_expected := Some (decode_u32_le (drop 6 (de_header d)))\<rparr>))"
  using assms
  by (simp add: check_header_def header_error_def poison_def Let_def declared_header word_less_nat_alt)

lemma remaining_eq:
  fixes expected :: "32 word"
  assumes "n \<le> unat expected"
  shows "unat (ucast expected - of_nat n :: 64 word) = unat expected - n"
    "(of_nat m = (ucast expected :: 64 word)) \<longleftrightarrow> m mod 2 ^ 64 = unat expected"
proof -
  have bound: "unat expected < 2 ^ 32" using unsigned_less [of expected] by simp
  have up: "unat (ucast expected :: 64 word) = unat expected"
    using bound by (simp add: unsigned_ucast_eq take_bit_nat_eq_self)
  have "of_nat n \<le> (ucast expected :: 64 word)"
    using assms bound by (simp add: word_le_nat_alt up unat_of_nat)
  then show "unat (ucast expected - of_nat n :: 64 word) = unat expected - n"
    using assms bound by (simp add: unat_sub up unat_of_nat)
  show "(of_nat m = (ucast expected :: 64 word)) \<longleftrightarrow> m mod 2 ^ 64 = unat expected"
    by (simp add: word_unat_eq_iff up unat_of_nat)
qed

text \<open>What is left of the payload of the frame that a decoder is in.\<close>

lemma take_payload_eq:
  assumes ok: "decoder_ok d" "\<not> de_header_bytes d < header_size" "de_error d = None"
    and n: "n = declared_size (de_header d) - length (de_payload d)"
  shows "take_payload input (the (de_expected d)) d frames offset =
    (if n \<le> length input - offset
     then (new_decoder, frames @ [\<lparr>fr_kind = de_header d ! 5, fr_payload = de_payload d @ take n (drop offset input)\<rparr>], offset + n)
     else (d\<lparr>de_payload := de_payload d @ drop offset input\<rparr>, frames, offset + (length input - offset)))"
proof -
  let ?expected = "decode_u32_le (drop 6 (de_header d))"
  have d: "de_expected d = Some ?expected" "de_kind d = de_header d ! 5" "length (de_payload d) < unat ?expected"
    "n = unat ?expected - length (de_payload d)"
    using ok n by (auto simp: decoder_ok_def declared_header)
  have "unat ?expected < 2 ^ 32" using unsigned_less [where w = ?expected and 'a = nat] by simp
  then have "unat ?expected < 2 ^ 64" by simp
  moreover have "length (de_payload d) + min n (length input - offset) \<le> unat ?expected" using d(3,4) by simp
  ultimately have full: "of_nat (length (de_payload d) + min n (length input - offset)) = (ucast ?expected :: 64 word) \<longleftrightarrow>
      n \<le> length input - offset"
    using d(3,4) by (subst remaining_eq) auto
  have rest: "unat (ucast ?expected - of_nat (length (de_payload d)) :: 64 word) = n"
    using d(3,4) by (simp add: remaining_eq)
  show ?thesis
    using full by (simp add: take_payload_def Let_def d(1,2) rest ok(3))
qed

lemma payload_stage:
  assumes ok: "decoder_ok d" "\<not> de_header_bytes d < header_size" "de_error d = None" "offset \<le> length input"
    and take: "take_payload input (the (de_expected d)) d frames offset = (d', frames', offset')"
  shows "decoder_ok d' \<and> de_error d' = None \<and> offset' \<le> length input \<and> (offset < length input \<longrightarrow> offset < offset') \<and>
    (\<exists>new. frames' = frames @ new \<and> (\<forall>fs e rest. stream_frames (pending_bytes d' @ drop offset' input) = (fs, e, rest) \<longrightarrow>
       stream_frames (pending_bytes d @ drop offset input) = (new @ fs, e, rest)))"
proof -
  let ?n = "declared_size (de_header d) - length (de_payload d)"
  have d: "length (de_header d) = header_size" "de_header_bytes d = header_size" "header_error (de_header d) = None"
    "length (de_payload d) < declared_size (de_header d)"
    using ok(1,2) by (auto simp: decoder_ok_def)
  show ?thesis
  proof (cases "?n \<le> length input - offset")
    case True
    let ?payload = "de_payload d @ take ?n (drop offset input)"
    have new: "d' = new_decoder" "offset' = offset + ?n"
      "frames' = frames @ [\<lparr>fr_kind = de_header d ! 5, fr_payload = ?payload\<rparr>]"
      using take True by (simp_all add: take_payload_eq [OF ok(1-3) refl])
    have "stream_frames (pending_bytes d @ drop offset input) =
        (\<lparr>fr_kind = de_header d ! 5, fr_payload = ?payload\<rparr> # fs, e, rest)"
      if "stream_frames (drop offset' input) = (fs, e, rest)" for fs e rest
    proof -
      have "pending_bytes d @ drop offset input = de_header d @ ?payload @ drop offset' input"
        using d(1,2) append_take_drop_id [of ?n "drop offset input"]
        by (simp add: pending_bytes_def new(2) add.commute)
      moreover have "length ?payload = declared_size (de_header d)" using d(4) True by simp
      ultimately show ?thesis using stream_frame [OF d(1,3) _ that, of ?payload] by simp
    qed
    with True ok(4) d(4) show ?thesis by (auto simp: new)
  next
    case False
    then have new: "d' = d\<lparr>de_payload := de_payload d @ drop offset input\<rparr>" "offset' = length input" "frames' = frames"
      using take ok(4) by (simp_all add: take_payload_eq [OF ok(1-3) refl])
    have "pending_bytes d' = pending_bytes d @ drop offset input"
      by (simp add: new(1) pending_bytes_def)
    moreover have "decoder_ok d'" using ok False by (auto simp: decoder_ok_def new(1))
    ultimately show ?thesis using ok(3) by (simp add: new)
  qed
qed

text \<open>Between two inputs.\<close>

lemma stream_pending:
  assumes "decoder_ok d" "de_error d = None"
  shows "stream_frames (pending_bytes d) = ([], None, pending_bytes d)"
proof (cases "de_header_bytes d < header_size")
  case True
  then show ?thesis using assms by (intro stream_short) (auto simp: decoder_ok_def pending_bytes_def)
next
  case False
  then have "length (de_header d) = header_size" "header_error (de_header d) = None"
    "length (de_payload d) < declared_size (de_header d)" "pending_bytes d = de_header d @ de_payload d"
    using assms by (auto simp: decoder_ok_def pending_bytes_def)
  then show ?thesis by (simp add: stream_partial header_prefix)
qed

lemma fill_header_ok:
  assumes "decoder_ok d" "de_header_bytes d < header_size" "count \<le> header_size - de_header_bytes d"
    "count \<le> length input - offset"
  shows "length (de_header (fill_header input offset count d)) = header_size"
    "de_header_bytes (fill_header input offset count d) = de_header_bytes d + count"
    "take (de_header_bytes d + count) (de_header (fill_header input offset count d)) =
       pending_bytes d @ take count (drop offset input)"
    "drop (de_header_bytes d + count) (de_header (fill_header input offset count d)) =
       replicate (header_size - (de_header_bytes d + count)) 0"
    "de_kind (fill_header input offset count d) = 0" "de_expected (fill_header input offset count d) = None"
    "de_payload (fill_header input offset count d) = []" "de_error (fill_header input offset count d) = de_error d"
proof -
  have d: "length (de_header d) = header_size" "de_kind d = 0" "de_expected d = None" "de_payload d = []"
    "drop (de_header_bytes d) (de_header d) = replicate (header_size - de_header_bytes d) 0"
    using assms(1,2) by (auto simp: decoder_ok_def)
  have "drop (de_header_bytes d + count) (de_header d) = drop count (drop (de_header_bytes d) (de_header d))"
    by (simp add: add.commute)
  then have "drop (de_header_bytes d + count) (de_header d) = replicate (header_size - (de_header_bytes d + count)) 0"
    by (simp add: d(5))
  with d(1-4) assms(2-4) show "length (de_header (fill_header input offset count d)) = header_size"
    "de_header_bytes (fill_header input offset count d) = de_header_bytes d + count"
    "take (de_header_bytes d + count) (de_header (fill_header input offset count d)) =
       pending_bytes d @ take count (drop offset input)"
    "drop (de_header_bytes d + count) (de_header (fill_header input offset count d)) =
       replicate (header_size - (de_header_bytes d + count)) 0"
    "de_kind (fill_header input offset count d) = 0" "de_expected (fill_header input offset count d) = None"
    "de_payload (fill_header input offset count d) = []" "de_error (fill_header input offset count d) = de_error d"
    by (simp_all add: fill_header_def pending_bytes_def)
qed

lemma fill_header_partial:
  assumes "decoder_ok d" "de_header_bytes d < header_size" "count \<le> header_size - de_header_bytes d"
    "count \<le> length input - offset" "de_error d = None" "de_header_bytes (fill_header input offset count d) < header_size"
  shows "decoder_ok (fill_header input offset count d)"
  using fill_header_ok [OF assms(1-4)] assms(5,6) by (simp add: decoder_ok_def)

lemma check_header_ok:
  assumes "length (de_header d) = header_size" "de_header_bytes d = header_size" "de_error d = None" "de_payload d = []"
    "check_header d = Inr d'" "de_expected d' \<noteq> Some 0"
  shows "decoder_ok d'" "\<not> de_header_bytes d' < header_size" "de_error d' = None" "pending_bytes d' = de_header d"
proof -
  have "header_error (de_header d) = None" and d': "d' = d\<lparr>de_kind := de_header d ! 5,
      de_expected := Some (decode_u32_le (drop 6 (de_header d)))\<rparr>"
    using assms(5) check_header_eq [OF assms(1,3)] by (auto split: option.splits)
  moreover have "0 < declared_size (de_header d)"
    using assms(1,6) by (simp add: d' declared_header unat_gt_0)
  ultimately show "decoder_ok d'" "\<not> de_header_bytes d' < header_size" "de_error d' = None" "pending_bytes d' = de_header d"
    using assms(1-4) by (simp_all add: decoder_ok_def pending_bytes_def)
qed

text \<open>The steps of the loop of \<open>feed\<close>.\<close>

lemma feed_loop_end: "offset = length input \<or> de_error d \<noteq> None \<Longrightarrow> feed_loop input d frames offset = Some (d, frames)"
  by (subst feed_loop.simps) auto

lemma feed_loop_payload:
  assumes "offset < length input" "de_error d = None" "\<not> de_header_bytes d < header_size" "de_expected d = Some expected"
    "take_payload input expected d frames offset = (d', frames', offset')"
  shows "feed_loop input d frames offset = feed_loop input d' frames' offset'"
  using assms by (subst feed_loop.simps) simp

lemma feed_loop_header:
  assumes "offset < length input" "de_error d = None" "de_header_bytes d < header_size"
    "count = min (header_size - de_header_bytes d) (length input - offset)" "d1 = fill_header input offset count d"
  shows "de_header_bytes d1 < header_size \<Longrightarrow> feed_loop input d frames offset = Some (d1, frames)"
    "\<not> de_header_bytes d1 < header_size \<Longrightarrow> check_header d1 = Inl d2 \<Longrightarrow> feed_loop input d frames offset = Some (d2, frames)"
    "\<not> de_header_bytes d1 < header_size \<Longrightarrow> check_header d1 = Inr d3 \<Longrightarrow> de_expected d3 = Some 0 \<Longrightarrow>
     feed_loop input d frames offset = feed_loop input (clear_pending_frame d3)
       (frames @ [\<lparr>fr_kind = de_kind d3, fr_payload = []\<rparr>]) (offset + count)"
    "\<not> de_header_bytes d1 < header_size \<Longrightarrow> check_header d1 = Inr d3 \<Longrightarrow> de_expected d3 \<noteq> Some 0 \<Longrightarrow>
     take_payload input (the (de_expected d3)) d3 frames (offset + count) = (d', frames', offset') \<Longrightarrow>
     feed_loop input d frames offset = feed_loop input d' frames' offset'"
  using assms by (subst feed_loop.simps, simp)+

text \<open>The loop from any offset.\<close>

definition feeds :: "byte list \<Rightarrow> decoder \<Rightarrow> frame list \<Rightarrow> nat \<Rightarrow> bool" where
  "feeds input d frames offset \<longleftrightarrow> (\<exists>d' fs. feed_loop input d frames offset = Some (d', frames @ fs) \<and> decoder_ok d' \<and>
     stream_frames (pending_bytes d @ drop offset input) = (fs, de_error d', pending_bytes d'))"

lemma feeds_step:
  assumes "feeds input d' (frames @ new) offset'"
    "feed_loop input d frames offset = feed_loop input d' (frames @ new) offset'"
    "\<And>fs e rest. stream_frames (pending_bytes d' @ drop offset' input) = (fs, e, rest) \<Longrightarrow>
       stream_frames (pending_bytes d @ drop offset input) = (new @ fs, e, rest)"
  shows "feeds input d frames offset"
  using assms unfolding feeds_def by fastforce

lemma feed_loop_stream:
  "decoder_ok d \<Longrightarrow> de_error d = None \<Longrightarrow> offset \<le> length input \<Longrightarrow> feeds input d frames offset"
proof (induction "length input - offset" arbitrary: d offset frames rule: less_induct)
  case less
  note ok = less.prems
  have further: "feeds input d' frames' offset'"
    if "decoder_ok d'" "de_error d' = None" "offset' \<le> length input" "offset < offset'" for d' frames' offset'
    using less.hyps [OF _ that(1-3)] that(3,4) by simp
  consider "offset = length input" | "offset < length input" "de_header_bytes d < header_size"
    | "offset < length input" "\<not> de_header_bytes d < header_size"
    using ok(3) by linarith
  then show ?case
  proof cases
    case 1
    then show ?thesis using ok stream_pending [OF ok(1,2)] by (simp add: feeds_def feed_loop_end)
  next
    case 3
    obtain d3 frames3 offset3 where take: "take_payload input (the (de_expected d)) d frames offset = (d3, frames3, offset3)"
      by (cases "take_payload input (the (de_expected d)) d frames offset")
    have expected: "de_expected d = Some (the (de_expected d))" using ok(1) 3(2) by (auto simp: decoder_ok_def)
    from payload_stage [OF ok(1) 3(2) ok(2,3) take] 3(1) obtain new
      where d3: "decoder_ok d3" "de_error d3 = None" "offset3 \<le> length input" "offset < offset3" "frames3 = frames @ new"
        "\<And>fs e rest. stream_frames (pending_bytes d3 @ drop offset3 input) = (fs, e, rest) \<Longrightarrow>
           stream_frames (pending_bytes d @ drop offset input) = (new @ fs, e, rest)" by blast
    show ?thesis
      by (rule feeds_step [OF further [OF d3(1-4)]])
        (use feed_loop_payload [OF 3(1) ok(2) 3(2) expected take] d3(5,6) in auto)
  next
    case 2
    let ?count = "min (header_size - de_header_bytes d) (length input - offset)"
    let ?d1 = "fill_header input offset ?count d"
    let ?rest = "drop (offset + ?count) input"
    note F = fill_header_ok [OF ok(1) 2(2), of ?count input offset, OF min.cobounded1 min.cobounded2]
    note steps = feed_loop_header [OF 2(1) ok(2) 2(2) refl refl]
    have count: "0 < ?count" using 2 by simp
    have inside: "offset + ?count \<le> length input"
      using min.cobounded2 [of "header_size - de_header_bytes d" "length input - offset"] 2(1) by linarith
    have bytes: "pending_bytes d @ drop offset input = take (de_header_bytes ?d1) (de_header ?d1) @ ?rest"
      using F(2,3) append_take_drop_id [of ?count "drop offset input"] by (simp add: add.commute)
    show ?thesis
    proof (cases "de_header_bytes ?d1 < header_size")
      case True
      then have "?count = length input - offset" using F(2) by auto
      moreover have "decoder_ok ?d1"
        by (rule fill_header_partial [OF ok(1) 2(2) min.cobounded1 min.cobounded2 ok(2) True])
      moreover have "pending_bytes ?d1 = take (de_header_bytes ?d1) (de_header ?d1)" by (simp add: pending_bytes_def F(7))
      ultimately show ?thesis
        using steps(1) [OF True] bytes stream_pending [of ?d1] F(8) ok(2) by (simp add: feeds_def)
    next
      case False
      have full: "de_header_bytes ?d1 = header_size" using False F(2) 2(2) by (simp add: min_def split: if_splits)
      then have header: "pending_bytes d @ drop offset input = de_header ?d1 @ ?rest" using bytes F(1) by simp
      have d1: "length (de_header ?d1) = header_size" "de_error ?d1 = None" "de_payload ?d1 = []"
        using F(1,7,8) ok(2) by simp_all
      show ?thesis
      proof (cases "check_header ?d1")
        case (Inl d2)
        then obtain e where e: "header_error (de_header ?d1) = Some e" "d2 = new_decoder\<lparr>de_error := Some e\<rparr>"
          using check_header_eq [OF d1(1,2)] by (auto split: option.splits)
        have "stream_frames (pending_bytes d @ drop offset input) = ([], Some e, [])"
          unfolding header using e(1) d1(1) by (intro stream_bad) (simp_all add: header_prefix)
        moreover have "decoder_ok d2" "pending_bytes d2 = []" "de_error d2 = Some e"
          by (simp_all add: e(2) decoder_ok_def pending_bytes_def new_decoder_def header_size_def)
        ultimately show ?thesis using steps(2) [OF False Inl] by (simp add: feeds_def)
      next
        case (Inr d2)
        then have e: "header_error (de_header ?d1) = None"
          and d2: "de_kind d2 = de_header ?d1 ! 5" "de_expected d2 = Some (decode_u32_le (drop 6 (de_header ?d1)))" "de_error d2 = None"
          using check_header_eq [OF d1(1,2)] d1(2) by (auto split: option.splits)
        show ?thesis
        proof (cases "de_expected d2 = Some 0")
          case True
          have empty: "length ([] :: byte list) = declared_size (de_header ?d1)"
            using True d2(2) by (simp add: declared_header [OF d1(1)])
          have "feeds input new_decoder (frames @ [\<lparr>fr_kind = de_header ?d1 ! 5, fr_payload = []\<rparr>]) (offset + ?count)"
            by (rule further) (use count inside in \<open>simp_all only: less_add_same_cancel1 decoder_ok_new pending_new\<close>)
          then show ?thesis
            by (rule feeds_step)
              (use steps(3) [OF False Inr True] d2(1,3) header stream_frame [OF d1(1) e empty] in simp_all)
        next
          case nonempty: False
          note C = check_header_ok [OF d1(1) full d1(2,3) Inr nonempty]
          obtain d3 frames3 offset3
            where take: "take_payload input (the (de_expected d2)) d2 frames (offset + ?count) = (d3, frames3, offset3)"
            by (cases "take_payload input (the (de_expected d2)) d2 frames (offset + ?count)")
          from payload_stage [OF C(1-3) inside take] take_payload_offset [OF take] obtain new
            where d3: "decoder_ok d3" "de_error d3 = None" "offset3 \<le> length input" "offset + ?count \<le> offset3"
              "frames3 = frames @ new"
              "\<And>fs e rest. stream_frames (pending_bytes d3 @ drop offset3 input) = (fs, e, rest) \<Longrightarrow>
                 stream_frames (pending_bytes d2 @ ?rest) = (new @ fs, e, rest)" by auto
          have "feeds input d3 (frames @ new) offset3"
            by (rule further [OF d3(1-3)]) (use count d3(4) in linarith)
          then show ?thesis
            by (rule feeds_step)
              (use steps(4) [OF False Inr nonempty take] d3(5,6) header C(4) in simp_all)
        qed
      qed
    qed
  qed
qed

text \<open>One input, and a sequence of inputs.\<close>

lemma feed_stream:
  assumes "decoder_ok d" "de_error d = None"
  shows "\<exists>d' frames. feed input d = Some (d', frames, de_error d') \<and> decoder_ok d' \<and>
    stream_frames (pending_bytes d @ input) = (frames, de_error d', pending_bytes d')"
  using feed_loop_stream [OF assms, of 0 input "[]"] assms(2) by (auto simp: feeds_def feed_def)

lemma feed_all_poisoned: "de_error d \<noteq> None \<Longrightarrow> feed_all inputs d = Some (d, [])"
  by (induction inputs) (simp_all add: feed_def)

lemma feed_all_decoder:
  "decoder_ok d \<Longrightarrow> de_error d = None \<Longrightarrow>
   \<exists>d' frames. feed_all inputs d = Some (d', frames) \<and> decoder_ok d' \<and>
     stream_frames (pending_bytes d @ concat inputs) = (frames, de_error d', pending_bytes d')"
proof (induction inputs arbitrary: d)
  case Nil
  then show ?case using stream_pending [OF Nil] by simp
next
  case (Cons input inputs)
  obtain d1 frames1 where d1: "feed input d = Some (d1, frames1, de_error d1)" "decoder_ok d1"
    "stream_frames (pending_bytes d @ input) = (frames1, de_error d1, pending_bytes d1)"
    using feed_stream [OF Cons.prems] by blast
  note stream = stream_append [OF d1(3), of "concat inputs"]
  show ?case
  proof (cases "de_error d1")
    case None
    from Cons.IH [OF d1(2) None] obtain d2 frames2 where d2: "feed_all inputs d1 = Some (d2, frames2)" "decoder_ok d2"
      "stream_frames (pending_bytes d1 @ concat inputs) = (frames2, de_error d2, pending_bytes d2)" by blast
    then show ?thesis using d1(1) None stream by simp
  next
    case (Some e)
    then show ?thesis using d1 feed_all_poisoned [of d1 inputs] stream by simp
  qed
qed

lemma buffered_bound: "decoder_ok d \<Longrightarrow> buffered_bytes d \<le> header_size + unat max_payload_size"
  by (auto simp: decoder_ok_def buffered_bytes_def header_error_def declared_header split: if_splits)

text \<open>C8 (feed_all_stream): however a stream of bytes is cut into inputs, the decoder reads no missing size, and
  returns exactly the frames of the stream up to its first bad header; it keeps that error for all
  later inputs, and otherwise the bytes after the last complete frame. It never buffers more than
  a header and the largest payload.\<close>

theorem feed_all_stream:
  "\<exists>d frames. feed_all inputs new_decoder = Some (d, frames) \<and>
     stream_frames (concat inputs) = (frames, de_error d, pending_bytes d) \<and>
     buffered_bytes d \<le> header_size + unat max_payload_size"
  using feed_all_decoder [OF decoder_ok_new, of inputs] buffered_bound by fastforce

section \<open>Round trip\<close>

lemma encoded_header:
  assumes "n \<le> unat max_payload_size"
  shows "length (magic @ [version, kind] @ encode_u32_le (of_nat n)) = header_size"
    "header_error (magic @ [version, kind] @ encode_u32_le (of_nat n)) = None"
    "declared_size (magic @ [version, kind] @ encode_u32_le (of_nat n)) = n"
    "(magic @ [version, kind] @ encode_u32_le (of_nat n)) ! 5 = kind"
proof -
  have "n < 2 ^ 32" using assms unsigned_less [where w = max_payload_size and 'a = nat] by simp
  then have "unat (of_nat n :: 32 word) = n" by (simp add: unat_of_nat)
  then show size: "declared_size (magic @ [version, kind] @ encode_u32_le (of_nat n)) = n"
    by (simp add: declared_size_def)
  show "length (magic @ [version, kind] @ encode_u32_le (of_nat n)) = header_size"
    "(magic @ [version, kind] @ encode_u32_le (of_nat n)) ! 5 = kind"
    by (simp_all add: header_size_def nth_append)
  show "header_error (magic @ [version, kind] @ encode_u32_le (of_nat n)) = None"
    using size assms by (simp add: header_error_def nth_append)
qed

lemma encode_frame_ok:
  assumes "length payload \<le> unat max_payload_size"
  shows "encode_frame kind payload =
    Inr ((magic @ [version, kind] @ encode_u32_le (of_nat (length payload))) @ payload)"
proof -
  have "unat max_payload_size < 2 ^ 32" using unsigned_less [where w = max_payload_size and 'a = nat] by simp
  then have "\<not> of_nat (length payload) > (ucast max_payload_size :: 64 word)"
    using assms by (simp add: word_less_nat_alt unat_of_nat unsigned_ucast_eq take_bit_nat_eq_self)
  moreover have "ucast (of_nat (length payload) :: 64 word) = (of_nat (length payload) :: 32 word)"
    by (simp add: word_unat_eq_iff unat_of_nat unsigned_ucast_eq take_bit_eq_mod mod_mod_cancel)
  ultimately show ?thesis by (simp add: encode_frame_def encode_header_def)
qed

text \<open>The bytes of a frame within the limit.\<close>

definition frame_bytes :: "frame \<Rightarrow> byte list" where
  "frame_bytes f = (case encode_frame (fr_kind f) (fr_payload f) of Inr bytes \<Rightarrow> bytes | Inl e \<Rightarrow> [])"

lemma stream_encoded:
  "list_all (\<lambda>f. length (fr_payload f) \<le> unat max_payload_size) frames \<Longrightarrow>
   stream_frames (concat (map frame_bytes frames)) = (frames, None, [])"
proof (induction frames)
  case Nil
  then show ?case by (simp add: stream_short header_size_def)
next
  case (Cons f frames)
  have size: "length (fr_payload f) \<le> unat max_payload_size" and rest: "stream_frames (concat (map frame_bytes frames)) = (frames, None, [])"
    using Cons by simp_all
  note H = encoded_header [OF size, of "fr_kind f"]
  have "frame_bytes f = (magic @ [version, fr_kind f] @ encode_u32_le (of_nat (length (fr_payload f)))) @ fr_payload f"
    by (simp add: frame_bytes_def encode_frame_ok [OF size])
  then show ?case using stream_frame [OF H(1,2) H(3) [symmetric] rest] H(4) by simp
qed

text \<open>C9 (pipe_round_trip): frames of any kinds and of payloads within the limit are encoded without an error,
  and the decoder gives them back, however the encoded bytes arrive; it then holds nothing.\<close>

theorem pipe_round_trip:
  assumes "list_all (\<lambda>f. length (fr_payload f) \<le> unat max_payload_size) frames"
    "concat inputs = concat (map frame_bytes frames)"
  shows "feed_all inputs new_decoder = Some (new_decoder, frames) \<and>
    list_all (\<lambda>f. encode_frame (fr_kind f) (fr_payload f) = Inr (frame_bytes f)) frames"
proof -
  obtain d where d: "feed_all inputs new_decoder = Some (d, frames)" "decoder_ok d" "de_error d = None" "pending_bytes d = []"
    using feed_all_decoder [OF decoder_ok_new, of inputs] stream_encoded [OF assms(1)] assms(2) by auto
  have "d = new_decoder" using decoder_new_iff [OF d(2)] d(3,4) by simp
  moreover have "encode_frame (fr_kind f) (fr_payload f) = Inr (frame_bytes f)"
    if "length (fr_payload f) \<le> unat max_payload_size" for f
    by (simp add: frame_bytes_def encode_frame_ok [OF that])
  ultimately show ?thesis using d(1) assms(1) by (simp add: list_all_iff)
qed

text \<open>A frame of two bytes that arrives in two inputs, and an empty one.\<close>

lemma pipe_round_trip_witness:
  "feed_all [[0x42, 0x50, 0x49], [0x50, 1, 2, 2, 0, 0, 0, 7, 8, 0x42, 0x50, 0x49, 0x50, 1, 3, 0, 0, 0, 0]] new_decoder =
     Some (new_decoder, [\<lparr>fr_kind = 2, fr_payload = [7, 8]\<rparr>, \<lparr>fr_kind = 3, fr_payload = []\<rparr>])"
  by (rule pipe_round_trip [THEN conjunct1]; code_simp)

end
