(* ===== verification/SchedulerPolicy.thy ===== *)
theory SchedulerPolicy
  imports Utf8
begin

text \<open>
  The policy of the task scheduler (src/include/scheduler/SchedulerPolicy.h,
  src/src/scheduler/SchedulerPolicy.cpp): reading the event document, the inventory of functions,
  the plan of due events, the transform after a completion and the JSON form of a document.

  The JSON library is not part of the repository.  Its value type is a datatype (an object is the
  association list of its members), and what it makes of a text are parameters: the events that
  \<open>sax_parse\<close> reports, the value that \<open>parse\<close> returns and the text that \<open>dump\<close> writes, \<open>None\<close> for
  an exception.  Integers are the mathematical ones, within the ranges of their types: the code
  bounds every one before it computes with it.
\<close>

section \<open>Types\<close>

definition maximum_unix_seconds :: int where "maximum_unix_seconds = 253402300799"
definition maximum_interval_seconds :: int where "maximum_interval_seconds = 315360000"
definition seconds_per_day :: int where "seconds_per_day = 86400"

record parse_limits =
  maximum_json_bytes :: nat
  maximum_depth :: nat
  maximum_nodes :: nat
  maximum_events :: nat
  maximum_items_per_event :: nat
  maximum_string_bytes :: nat
  maximum_total_string_bytes :: nat

definition default_parse_limits :: parse_limits where
  "default_parse_limits = \<lparr>maximum_json_bytes = 1024 * 1024, maximum_depth = 8, maximum_nodes = 16384,
     maximum_events = 256, maximum_items_per_event = 64, maximum_string_bytes = 256,
     maximum_total_string_bytes = 128 * 1024\<rparr>"

definition hard_limits :: parse_limits where
  "hard_limits = \<lparr>maximum_json_bytes = 4 * 1024 * 1024, maximum_depth = 16, maximum_nodes = 65536,
     maximum_events = 1024, maximum_items_per_event = 256, maximum_string_bytes = 1024,
     maximum_total_string_bytes = 512 * 1024\<rparr>"

definition effective_limits :: "parse_limits \<Rightarrow> parse_limits" where
  "effective_limits l = \<lparr>
     maximum_json_bytes = min (maximum_json_bytes l) (maximum_json_bytes hard_limits),
     maximum_depth = min (maximum_depth l) (maximum_depth hard_limits),
     maximum_nodes = min (maximum_nodes l) (maximum_nodes hard_limits),
     maximum_events = min (maximum_events l) (maximum_events hard_limits),
     maximum_items_per_event = min (maximum_items_per_event l) (maximum_items_per_event hard_limits),
     maximum_string_bytes = min (maximum_string_bytes l) (maximum_string_bytes hard_limits),
     maximum_total_string_bytes = min (maximum_total_string_bytes l) (maximum_total_string_bytes hard_limits)\<rparr>"

record time_of_day =
  tod_hour :: nat
  tod_minute :: nat
  tod_second :: nat

definition seconds_since_midnight :: "time_of_day \<Rightarrow> nat" where
  "seconds_since_midnight t = tod_hour t * 3600 + tod_minute t * 60 + tod_second t"

record disabled_time_range =
  range_start :: time_of_day
  range_end :: time_of_day

record scheduler_event =
  ev_enabled :: bool
  ev_priority :: int
  ev_interval :: int
  ev_daily_resets :: "time_of_day list"
  ev_next_tick :: int
  ev_name :: string
  ev_function :: string
  ev_disabled :: "disabled_time_range list"
  ev_pre_tasks :: "string list"
  ev_post_tasks :: "string list"

text \<open>A document is the list of its events.\<close>

type_synonym scheduler_document = "scheduler_event list"

datatype parse_error = ParseInputTooLarge | ParseInvalidUtf8 | ParseInvalidJson | ParseLimitExceeded
  | ParseInvalidSchema | ParseInvalidValue

fun parse_error_name :: "parse_error option \<Rightarrow> string" where
  "parse_error_name None = ''none''"
| "parse_error_name (Some ParseInputTooLarge) = ''input_too_large''"
| "parse_error_name (Some ParseInvalidUtf8) = ''invalid_utf8''"
| "parse_error_name (Some ParseInvalidJson) = ''invalid_json''"
| "parse_error_name (Some ParseLimitExceeded) = ''limit_exceeded''"
| "parse_error_name (Some ParseInvalidSchema) = ''invalid_schema''"
| "parse_error_name (Some ParseInvalidValue) = ''invalid_value''"

record evaluation_time =
  unix_seconds :: int
  local_seconds :: nat
  utc_seconds :: nat

datatype invocation_role = PreTask | CurrentTask | PostTask

fun invocation_role_name :: "invocation_role \<Rightarrow> string" where
  "invocation_role_name PreTask = ''pre_task''"
| "invocation_role_name CurrentTask = ''current_task''"
| "invocation_role_name PostTask = ''post_task''"

type_synonym planned_invocation = "invocation_role \<times> string"

record scheduled_plan =
  plan_index :: nat
  plan_event :: string
  plan_current :: string
  plan_priority :: int
  plan_invocations :: "planned_invocation list"

record function_inventory =
  inv_names :: "string list"
  inv_initialized :: bool

datatype completion_outcome = CompletionSuccess | CompletionFailure

datatype transform_error = InvalidDocument | InvalidTime | InvalidEventIndex | InvalidDelay | TimestampOverflow

fun transform_error_name :: "transform_error option \<Rightarrow> string" where
  "transform_error_name None = ''none''"
| "transform_error_name (Some InvalidDocument) = ''invalid_document''"
| "transform_error_name (Some InvalidTime) = ''invalid_time''"
| "transform_error_name (Some InvalidEventIndex) = ''invalid_event_index''"
| "transform_error_name (Some InvalidDelay) = ''invalid_delay''"
| "transform_error_name (Some TimestampOverflow) = ''timestamp_overflow''"

record completion_transform =
  ct_document :: scheduler_document
  ct_persist_required :: bool
  ct_next_tick :: "int option"
  ct_error :: "transform_error option"

section \<open>The UTF-8 validator\<close>

fun trailing_bytes :: "string \<Rightarrow> nat \<Rightarrow> nat \<Rightarrow> nat \<Rightarrow> nat option" where
  "trailing_bytes s index 0 code_point = Some code_point"
| "trailing_bytes s index (Suc n) code_point =
     (let byte = byte_of (s ! index) in
      if byte AND 0xC0 \<noteq> 0x80 then None
      else trailing_bytes s (index + 1) n (push_bit 6 code_point OR (byte AND 0x3F)))"

text \<open>The rest of a sequence, whose lead byte is before \<open>index\<close>; the index after it.\<close>

definition trailing_sequence :: "string \<Rightarrow> nat \<Rightarrow> nat \<Rightarrow> nat \<Rightarrow> nat \<Rightarrow> nat option" where
  "trailing_sequence s index trailing code_point minimum =
    (if trailing > length s - index then None
     else case trailing_bytes s index trailing code_point of
        None \<Rightarrow> None
      | Some cp \<Rightarrow> if cp < minimum \<or> cp > 0x10FFFF \<or> (cp \<ge> 0xD800 \<and> cp \<le> 0xDFFF) then None
          else Some (index + trailing))"

definition after_sequence :: "string \<Rightarrow> nat \<Rightarrow> nat option" where
  "after_sequence s index = (let lead = byte_of (s ! index) in
     if lead \<le> 0x7F then Some (index + 1)
     else if lead \<ge> 0xC2 \<and> lead \<le> 0xDF then trailing_sequence s (index + 1) 1 (lead AND 0x1F) 0x80
     else if lead \<ge> 0xE0 \<and> lead \<le> 0xEF then trailing_sequence s (index + 1) 2 (lead AND 0x0F) 0x800
     else if lead \<ge> 0xF0 \<and> lead \<le> 0xF4 then trailing_sequence s (index + 1) 3 (lead AND 0x07) 0x10000
     else None)"

lemma after_sequence_greater: "after_sequence s i = Some j \<Longrightarrow> i < j"
  by (auto simp: after_sequence_def trailing_sequence_def Let_def split: if_splits option.splits)

function document_utf8_loop :: "string \<Rightarrow> nat \<Rightarrow> bool" where
  "document_utf8_loop s index = (if index < length s then
      (case after_sequence s index of None \<Rightarrow> False | Some index' \<Rightarrow> document_utf8_loop s index')
    else True)"
  by pat_completeness auto
termination by (relation "measure (\<lambda>(s, index). length s - index)") (auto dest: after_sequence_greater)

declare document_utf8_loop.simps [simp del]

definition document_is_utf8 :: "string \<Rightarrow> bool" where
  "document_is_utf8 s = document_utf8_loop s 0"

section \<open>JSON\<close>

datatype json = JsonNull | JsonBool bool | JsonInteger int | JsonUnsigned nat | JsonFloat "64 word"
  | JsonString string | JsonArray "json list" | JsonObject "(string \<times> json) list"

datatype sax_event = SaxScalar | SaxStartObject | SaxKey string | SaxEndObject | SaxStartArray | SaxEndArray
  | SaxParseError

text \<open>\<open>ShapeSax\<close>: the handler of the events, with its result.\<close>

record shape_state =
  sh_depth :: nat
  sh_nodes :: nat
  sh_exceeded :: bool
  sh_syntax_error :: bool

definition shape_node :: "parse_limits \<Rightarrow> shape_state \<Rightarrow> bool \<times> shape_state" where
  "shape_node limits st =
    (if sh_depth st > maximum_depth limits then (False, st\<lparr>sh_exceeded := True\<rparr>)
     else let st1 = st\<lparr>sh_nodes := sh_nodes st + 1\<rparr> in
       if sh_nodes st1 > maximum_nodes limits then (False, st1\<lparr>sh_exceeded := True\<rparr>) else (True, st1))"

definition shape_container_start :: "parse_limits \<Rightarrow> shape_state \<Rightarrow> bool \<times> shape_state" where
  "shape_container_start limits st = (let (ok, st1) = shape_node limits st in
     if \<not> ok then (False, st1)
     else let st2 = st1\<lparr>sh_depth := sh_depth st1 + 1\<rparr> in
       if sh_depth st2 > maximum_depth limits then (False, st2\<lparr>sh_exceeded := True\<rparr>) else (True, st2))"

definition shape_container_end :: "shape_state \<Rightarrow> bool \<times> shape_state" where
  "shape_container_end st = (if sh_depth st = 0 then (False, st) else (True, st\<lparr>sh_depth := sh_depth st - 1\<rparr>))"

fun shape_event :: "parse_limits \<Rightarrow> sax_event \<Rightarrow> shape_state \<Rightarrow> bool \<times> shape_state" where
  "shape_event limits SaxScalar st = shape_node limits st"
| "shape_event limits (SaxKey k) st = shape_node limits st"
| "shape_event limits SaxStartObject st = shape_container_start limits st"
| "shape_event limits SaxStartArray st = shape_container_start limits st"
| "shape_event limits SaxEndObject st = shape_container_end st"
| "shape_event limits SaxEndArray st = shape_container_end st"
| "shape_event limits SaxParseError st = (False, st\<lparr>sh_syntax_error := True\<rparr>)"

text \<open>\<open>sax_parse\<close> stops at the first event whose handler returns \<open>false\<close>.\<close>

fun sax_parse :: "parse_limits \<Rightarrow> sax_event list \<Rightarrow> shape_state \<Rightarrow> bool \<times> shape_state" where
  "sax_parse limits [] st = (True, st)"
| "sax_parse limits (e # es) st = (let (ok, st') = shape_event limits e st in
     if ok then sax_parse limits es st' else (False, st'))"

definition shape_start :: shape_state where
  "shape_start = \<lparr>sh_depth = 0, sh_nodes = 0, sh_exceeded = False, sh_syntax_error = False\<rparr>"

text \<open>The callback of \<open>parse\<close>: the keys of the open objects, and whether one has come twice.\<close>

fun key_callback :: "sax_event \<Rightarrow> string set list \<times> bool \<Rightarrow> string set list \<times> bool" where
  "key_callback SaxStartObject (object_keys, duplicate) = ({} # object_keys, duplicate)"
| "key_callback (SaxKey k) ([], duplicate) = ([], duplicate)"
| "key_callback (SaxKey k) (keys # object_keys, duplicate) =
     (insert k keys # object_keys, duplicate \<or> k \<in> keys)"
| "key_callback SaxEndObject ([], duplicate) = ([], duplicate)"
| "key_callback SaxEndObject (keys # object_keys, duplicate) = (object_keys, duplicate)"
| "key_callback e st = st"

definition duplicate_key :: "sax_event list \<Rightarrow> bool" where
  "duplicate_key events = snd (fold key_callback events ([], False))"

section \<open>Reading a document\<close>

text \<open>\<open>json_integer\<close>: a number of the signed 64-bit range.\<close>

definition json_integer :: "json \<Rightarrow> int option" where
  "json_integer raw = (case raw of
       JsonUnsigned n \<Rightarrow> if n > 9223372036854775807 then None else Some (int n)
     | JsonInteger i \<Rightarrow> Some i
     | _ \<Rightarrow> None)"

definition event_keys :: "string list" where
  "event_keys = [''enabled'', ''priority'', ''interval'', ''daily_reset'', ''next_tick'', ''event_name'',
     ''func_name'', ''disabled_time_range'', ''pre_task'', ''post_task'']"

definition exact_event_shape :: "json \<Rightarrow> bool" where
  "exact_event_shape raw = (case raw of
       JsonObject members \<Rightarrow> length members = length event_keys \<and>
         list_all (\<lambda>key. map_of members key \<noteq> None) event_keys
     | _ \<Rightarrow> False)"

definition json_member :: "json \<Rightarrow> string \<Rightarrow> json" where
  "json_member raw key = (case raw of
       JsonObject members \<Rightarrow> (case map_of members key of Some v \<Rightarrow> v | None \<Rightarrow> JsonNull)
     | _ \<Rightarrow> JsonNull)"

text \<open>The string and the total of the bytes of all strings so far.\<close>

definition take_string :: "json \<Rightarrow> parse_limits \<Rightarrow> nat \<Rightarrow> bool \<Rightarrow> (string \<times> nat) option" where
  "take_string raw limits used nonempty = (case raw of
       JsonString s \<Rightarrow>
         if (nonempty \<and> s = []) \<or> length s > maximum_string_bytes limits \<or>
            length s > maximum_total_string_bytes limits - used then None
         else Some (s, used + length s)
     | _ \<Rightarrow> None)"

definition parse_time_of_day :: "json \<Rightarrow> time_of_day option" where
  "parse_time_of_day raw = (case raw of
       JsonArray [a, b, c] \<Rightarrow>
         (case (json_integer a, json_integer b, json_integer c) of
            (Some h, Some m, Some s) \<Rightarrow>
              if h < 0 \<or> h > 23 \<or> m < 0 \<or> m > 59 \<or> s < 0 \<or> s > 59 then None
              else Some \<lparr>tod_hour = nat h, tod_minute = nat m, tod_second = nat s\<rparr>
          | _ \<Rightarrow> None)
     | _ \<Rightarrow> None)"

text \<open>The loop over the items of an array, which stops at the first that fails.\<close>

fun parse_items :: "(json \<Rightarrow> 'a option) \<Rightarrow> json list \<Rightarrow> 'a list option" where
  "parse_items f [] = Some []"
| "parse_items f (item # items) = (case f item of None \<Rightarrow> None
     | Some x \<Rightarrow> map_option ((#) x) (parse_items f items))"

definition parse_time_list :: "json \<Rightarrow> parse_limits \<Rightarrow> time_of_day list option" where
  "parse_time_list raw limits = (case raw of
       JsonArray items \<Rightarrow>
         if length items > maximum_items_per_event limits then None else parse_items parse_time_of_day items
     | _ \<Rightarrow> None)"

definition parse_range :: "json \<Rightarrow> disabled_time_range option" where
  "parse_range raw = (case raw of
       JsonArray [a, b] \<Rightarrow>
         (case parse_time_of_day a of None \<Rightarrow> None
          | Some s \<Rightarrow> (case parse_time_of_day b of None \<Rightarrow> None
             | Some e \<Rightarrow> Some \<lparr>range_start = s, range_end = e\<rparr>))
     | _ \<Rightarrow> None)"

definition parse_disabled_ranges :: "json \<Rightarrow> parse_limits \<Rightarrow> disabled_time_range list option" where
  "parse_disabled_ranges raw limits = (case raw of
       JsonArray items \<Rightarrow>
         if length items > maximum_items_per_event limits then None else parse_items parse_range items
     | _ \<Rightarrow> None)"

fun take_strings :: "json list \<Rightarrow> parse_limits \<Rightarrow> nat \<Rightarrow> (string list \<times> nat) option" where
  "take_strings [] limits used = Some ([], used)"
| "take_strings (item # items) limits used = (case take_string item limits used True of None \<Rightarrow> None
     | Some (s, used') \<Rightarrow> (case take_strings items limits used' of None \<Rightarrow> None
        | Some (ss, used'') \<Rightarrow> Some (s # ss, used'')))"

definition parse_task_list :: "json \<Rightarrow> parse_limits \<Rightarrow> nat \<Rightarrow> (string list \<times> nat) option" where
  "parse_task_list raw limits used = (case raw of
       JsonArray items \<Rightarrow>
         if length items > maximum_items_per_event limits then None else take_strings items limits used
     | _ \<Rightarrow> None)"

definition parse_priority :: "json \<Rightarrow> int option" where
  "parse_priority raw = (case json_integer raw of
       Some p \<Rightarrow> if p < -2147483648 \<or> p > 2147483647 then None else Some p
     | None \<Rightarrow> None)"

definition parse_interval :: "json \<Rightarrow> int option" where
  "parse_interval raw = (case json_integer raw of
       Some i \<Rightarrow> if i < - maximum_interval_seconds \<or> i > maximum_interval_seconds then None else Some i
     | None \<Rightarrow> None)"

definition parse_next_tick :: "json \<Rightarrow> int option" where
  "parse_next_tick raw = (case json_integer raw of
       Some t \<Rightarrow> if t < 0 \<or> t > maximum_unix_seconds then None else Some t
     | None \<Rightarrow> None)"

definition json_boolean :: "json \<Rightarrow> bool option" where
  "json_boolean raw = (case raw of JsonBool b \<Rightarrow> Some b | _ \<Rightarrow> None)"

definition parse_event :: "json \<Rightarrow> parse_limits \<Rightarrow> nat \<Rightarrow> (scheduler_event \<times> nat) option" where
  "parse_event raw limits used = (let member = json_member raw in
     if \<not> exact_event_shape raw then None
     else Option.bind (json_boolean (member ''enabled'')) (\<lambda>enabled.
       Option.bind (parse_priority (member ''priority'')) (\<lambda>priority.
       Option.bind (parse_interval (member ''interval'')) (\<lambda>interval.
       Option.bind (parse_next_tick (member ''next_tick'')) (\<lambda>next_tick.
       Option.bind (take_string (member ''event_name'') limits used True) (\<lambda>(name, total1).
       Option.bind (take_string (member ''func_name'') limits total1 True) (\<lambda>(func, total2).
       Option.bind (parse_time_list (member ''daily_reset'') limits) (\<lambda>resets.
       Option.bind (parse_disabled_ranges (member ''disabled_time_range'') limits) (\<lambda>disabled.
       Option.bind (parse_task_list (member ''pre_task'') limits total2) (\<lambda>(pre, total3).
       Option.bind (parse_task_list (member ''post_task'') limits total3) (\<lambda>(post, total4).
         Some (\<lparr>ev_enabled = enabled, ev_priority = priority, ev_interval = interval, ev_daily_resets = resets,
           ev_next_tick = next_tick, ev_name = name, ev_function = func, ev_disabled = disabled,
           ev_pre_tasks = pre, ev_post_tasks = post\<rparr>, total4))))))))))))"

fun parse_events :: "json list \<Rightarrow> parse_limits \<Rightarrow> nat \<Rightarrow> scheduler_document option" where
  "parse_events [] limits used = Some []"
| "parse_events (item # raws) limits used = (case parse_event item limits used of None \<Rightarrow> None
     | Some (event, used') \<Rightarrow> map_option ((#) event) (parse_events raws limits used'))"

text \<open>The parameters: the events of a text and the value it parses to, if any.\<close>

definition parse_event_json ::
  "(string \<Rightarrow> sax_event list) \<Rightarrow> (string \<Rightarrow> json option) \<Rightarrow> string \<Rightarrow> parse_limits \<Rightarrow>
   (parse_error, scheduler_document) result" where
  "parse_event_json sax_events json_value input requested_limits =
    (let limits = effective_limits requested_limits in
     if length input > maximum_json_bytes limits then Inl ParseInputTooLarge
     else if \<not> document_is_utf8 input then Inl ParseInvalidUtf8
     else let (parsed, shape) = sax_parse limits (sax_events input) shape_start in
       if \<not> parsed then Inl (if sh_exceeded shape then ParseLimitExceeded else ParseInvalidJson)
       else if duplicate_key (sax_events input) then Inl ParseInvalidSchema
       else case json_value input of
           Some (JsonArray raws) \<Rightarrow>
             if length raws > maximum_events limits then Inl ParseLimitExceeded
             else (case parse_events raws limits 0 of
                 None \<Rightarrow> Inl ParseInvalidValue
               | Some document \<Rightarrow> Inr document)
         | _ \<Rightarrow> Inl ParseInvalidSchema)"

section \<open>Checks\<close>

definition valid_evaluation_time :: "evaluation_time \<Rightarrow> bool" where
  "valid_evaluation_time now \<longleftrightarrow> unix_seconds now \<ge> 0 \<and> unix_seconds now \<le> maximum_unix_seconds \<and>
     int (local_seconds now) < seconds_per_day \<and> int (utc_seconds now) < seconds_per_day \<and>
     unix_seconds now mod seconds_per_day = int (utc_seconds now)"

text \<open>\<open>count_string\<close>: the new total, if the string fits.\<close>

definition count_string :: "string \<Rightarrow> nat \<Rightarrow> nat option" where
  "count_string s used = (if s = [] \<or> length s > maximum_string_bytes hard_limits \<or>
       length s > maximum_total_string_bytes hard_limits - used then None
     else Some (used + length s))"

fun count_strings :: "string list \<Rightarrow> nat \<Rightarrow> nat option" where
  "count_strings [] used = Some used"
| "count_strings (s # ss) used = Option.bind (count_string s used) (count_strings ss)"

definition valid_time_of_day :: "time_of_day \<Rightarrow> bool" where
  "valid_time_of_day t \<longleftrightarrow> \<not> (tod_hour t > 23 \<or> tod_minute t > 59 \<or> tod_second t > 59)"

definition valid_event_fields :: "scheduler_event \<Rightarrow> bool" where
  "valid_event_fields event \<longleftrightarrow> \<not> (ev_name event = [] \<or> ev_function event = [] \<or>
     length (ev_name event) > maximum_string_bytes hard_limits \<or>
     length (ev_function event) > maximum_string_bytes hard_limits \<or>
     ev_interval event < - maximum_interval_seconds \<or> ev_interval event > maximum_interval_seconds \<or>
     ev_next_tick event < 0 \<or> ev_next_tick event > maximum_unix_seconds \<or>
     length (ev_daily_resets event) > maximum_items_per_event hard_limits \<or>
     length (ev_disabled event) > maximum_items_per_event hard_limits \<or>
     length (ev_pre_tasks event) > maximum_items_per_event hard_limits \<or>
     length (ev_post_tasks event) > maximum_items_per_event hard_limits)"

definition valid_event :: "scheduler_event \<Rightarrow> nat \<Rightarrow> nat option" where
  "valid_event event used =
    (if \<not> valid_event_fields event then None
     else Option.bind (count_string (ev_name event) used) (\<lambda>total1.
       Option.bind (count_string (ev_function event) total1) (\<lambda>total2.
       Option.bind (count_strings (ev_pre_tasks event) total2) (\<lambda>total3.
       Option.bind (count_strings (ev_post_tasks event) total3) (\<lambda>total4.
         if list_all valid_time_of_day (ev_daily_resets event) \<and>
            list_all (\<lambda>r. valid_time_of_day (range_start r) \<and> valid_time_of_day (range_end r)) (ev_disabled event)
         then Some total4 else None)))))"

fun valid_events :: "scheduler_event list \<Rightarrow> nat \<Rightarrow> bool" where
  "valid_events [] used = True"
| "valid_events (event # events) used = (case valid_event event used of None \<Rightarrow> False
     | Some used' \<Rightarrow> valid_events events used')"

definition valid_document :: "scheduler_document \<Rightarrow> bool" where
  "valid_document document \<longleftrightarrow> length document \<le> maximum_events hard_limits \<and> valid_events document 0"

definition valid_inventory :: "function_inventory \<Rightarrow> bool" where
  "valid_inventory inventory \<longleftrightarrow>
    (if length (inv_names inventory) > maximum_events hard_limits then False
     else if \<not> inv_initialized inventory \<and> inv_names inventory \<noteq> [] then False
     else if inv_initialized inventory \<and> inv_names inventory = [] then False
     else count_strings (inv_names inventory) 0 \<noteq> None)"

section \<open>Inventory, plan and completion\<close>

definition snapshot_function_inventory :: "scheduler_document \<Rightarrow> function_inventory option" where
  "snapshot_function_inventory document = (if \<not> valid_document document then None
     else Some \<lparr>inv_names = map ev_function document, inv_initialized = (document \<noteq> [])\<rparr>)"

definition refresh_function_inventory :: "function_inventory \<Rightarrow> scheduler_document \<Rightarrow> function_inventory option" where
  "refresh_function_inventory inventory document =
    (if \<not> valid_inventory inventory \<or> \<not> valid_document document then None
     else if inv_initialized inventory \<or> document = [] then Some inventory
     else snapshot_function_inventory document)"

definition disabled_now :: "scheduler_event \<Rightarrow> nat \<Rightarrow> bool" where
  "disabled_now event local = list_ex (\<lambda>r. seconds_since_midnight (range_start r) \<le> local \<and>
     local \<le> seconds_since_midnight (range_end r)) (ev_disabled event)"

definition is_due :: "evaluation_time \<Rightarrow> scheduler_event \<Rightarrow> bool" where
  "is_due now event \<longleftrightarrow> ev_enabled event \<and> ev_next_tick event \<le> unix_seconds now \<and>
     \<not> disabled_now event (local_seconds now)"

definition event_plan :: "function_inventory \<Rightarrow> scheduler_document \<Rightarrow> nat \<Rightarrow> scheduled_plan" where
  "event_plan inventory document index = (let event = document ! index;
       known = (\<lambda>task. task \<in> set (inv_names inventory)) in
     \<lparr>plan_index = index, plan_event = ev_name event, plan_current = ev_function event,
      plan_priority = ev_priority event,
      plan_invocations = map (Pair PreTask) (filter known (ev_pre_tasks event)) @
        [(CurrentTask, ev_function event)] @ map (Pair PostTask) (filter known (ev_post_tasks event))\<rparr>)"

text \<open>\<open>std::stable_sort\<close> is \<open>sort_key\<close>.\<close>

definition plan_due_events ::
  "scheduler_document \<Rightarrow> function_inventory \<Rightarrow> evaluation_time \<Rightarrow> scheduled_plan list option" where
  "plan_due_events document inventory now =
    (if \<not> valid_evaluation_time now \<or> \<not> valid_document document \<or> \<not> valid_inventory inventory \<or>
        (\<not> inv_initialized inventory \<and> document \<noteq> []) then None
     else let due_indices = filter (\<lambda>index. is_due now (document ! index)) [0..<length document] in
       Some (map (event_plan inventory document) (sort_key (\<lambda>index. ev_priority (document ! index)) due_indices)))"

definition checked_add :: "int \<Rightarrow> int \<Rightarrow> int option" where
  "checked_add left right = (if right < 0 \<or> left > maximum_unix_seconds - right then None else Some (left + right))"

text \<open>The tick of one daily reset, and the loop that keeps the nearest.\<close>

definition reset_tick :: "evaluation_time \<Rightarrow> time_of_day \<Rightarrow> int option" where
  "reset_tick now reset = Option.bind
     (checked_add (unix_seconds now - int (utc_seconds now)) (int (seconds_since_midnight reset)))
     (\<lambda>tick. if utc_seconds now > seconds_since_midnight reset then checked_add tick seconds_per_day else Some tick)"

fun nearest_reset :: "evaluation_time \<Rightarrow> time_of_day list \<Rightarrow> int option \<Rightarrow> int option" where
  "nearest_reset now [] nearest = nearest"
| "nearest_reset now (reset # resets) nearest = (case reset_tick now reset of
       None \<Rightarrow> nearest_reset now resets nearest
     | Some tick \<Rightarrow> nearest_reset now resets
         (case nearest of None \<Rightarrow> Some tick | Some n \<Rightarrow> if tick < n then Some tick else nearest))"

text \<open>The next tick after a success without a requested delay: the interval or the nearest reset.\<close>

definition interval_tick :: "scheduler_event \<Rightarrow> evaluation_time \<Rightarrow> int option" where
  "interval_tick event now =
    (let interval = (if ev_interval event > 0 then ev_interval event else seconds_per_day);
         by_interval = checked_add (unix_seconds now) interval;
         reset = nearest_reset now (ev_daily_resets event) None
     in if reset \<noteq> None \<and> (by_interval = None \<or> the by_interval \<ge> the reset) then reset else by_interval)"

definition completion_tick :: "scheduler_event \<Rightarrow> evaluation_time \<Rightarrow> int option \<Rightarrow> int option" where
  "completion_tick event now requested_delay =
    (if requested_delay \<noteq> None \<and> the requested_delay > 0
     then checked_add (unix_seconds now) (the requested_delay)
     else interval_tick event now)"

definition transform_failed :: "scheduler_document \<Rightarrow> transform_error option \<Rightarrow> completion_transform" where
  "transform_failed document error = \<lparr>ct_document = document, ct_persist_required = False, ct_next_tick = None,
     ct_error = error\<rparr>"

definition apply_completion ::
  "scheduler_document \<Rightarrow> nat \<Rightarrow> completion_outcome \<Rightarrow> evaluation_time \<Rightarrow> int option \<Rightarrow> completion_transform" where
  "apply_completion document event_index outcome now requested_delay =
    (if \<not> valid_document document then transform_failed [] (Some InvalidDocument)
     else if \<not> valid_evaluation_time now then transform_failed document (Some InvalidTime)
     else if event_index \<ge> length document then transform_failed document (Some InvalidEventIndex)
     else if requested_delay \<noteq> None \<and>
        (the requested_delay < - maximum_interval_seconds \<or> the requested_delay > maximum_interval_seconds) then
       transform_failed document (Some InvalidDelay)
     else if outcome = CompletionFailure then transform_failed document None
     else case completion_tick (document ! event_index) now requested_delay of
         None \<Rightarrow> transform_failed document (Some TimestampOverflow)
       | Some tick \<Rightarrow> \<lparr>ct_document = document[event_index := (document ! event_index)\<lparr>ev_next_tick := tick\<rparr>],
           ct_persist_required = True, ct_next_tick = Some tick, ct_error = None\<rparr>)"

section \<open>Writing a document\<close>

definition encode_time :: "time_of_day \<Rightarrow> json" where
  "encode_time t = JsonArray [JsonUnsigned (tod_hour t), JsonUnsigned (tod_minute t), JsonUnsigned (tod_second t)]"

definition encode_event :: "scheduler_event \<Rightarrow> json" where
  "encode_event event = JsonObject [
     (''enabled'', JsonBool (ev_enabled event)),
     (''priority'', JsonInteger (ev_priority event)),
     (''interval'', JsonInteger (ev_interval event)),
     (''daily_reset'', JsonArray (map encode_time (ev_daily_resets event))),
     (''next_tick'', JsonInteger (ev_next_tick event)),
     (''event_name'', JsonString (ev_name event)),
     (''func_name'', JsonString (ev_function event)),
     (''disabled_time_range'', JsonArray
        (map (\<lambda>r. JsonArray [encode_time (range_start r), encode_time (range_end r)]) (ev_disabled event))),
     (''pre_task'', JsonArray (map JsonString (ev_pre_tasks event))),
     (''post_task'', JsonArray (map JsonString (ev_post_tasks event)))]"

text \<open>The parameter: what \<open>dump(2)\<close> writes.\<close>

definition serialize_event_json :: "(json \<Rightarrow> string option) \<Rightarrow> scheduler_document \<Rightarrow> string option" where
  "serialize_event_json dump document =
    (if \<not> valid_document document then None
     else case dump (JsonArray (map encode_event document)) of
         None \<Rightarrow> None
       | Some encoded \<Rightarrow> if length encoded > maximum_json_bytes hard_limits then None else Some encoded)"

end
