(* ===== verification/SchedulerPolicy_Correct.thy ===== *)
theory SchedulerPolicy_Correct
  imports SchedulerPolicy "HOL-Library.Multiset"
begin

text \<open>
  The scheduler policy: what it reads is a valid document, a valid document stays one, the plan
  holds the due events in the order of their priorities, the tick after a completion is the next
  one that the interval and the daily resets allow, and what it writes it reads back.
\<close>

section \<open>The validator accepts UTF-8\<close>

lemma trailing_bytes_eq: "trailing_bytes s p n v = continuation_bytes s p n v"
  by (induction s p n v rule: trailing_bytes.induct) (simp_all add: continuation_bytes.simps(2) Let_def)

lemma after_sequence_decode:
  assumes "i < length s"
  shows "after_sequence s i = (if dc_valid (decode_utf8 s i) then Some (i + dc_length (decode_utf8 s i)) else None)"
proof -
  have seq: "trailing_sequence s (i + 1) n v m =
      (if dc_valid (decode_multi s i (n + 1) v m) then Some (i + dc_length (decode_multi s i (n + 1) v m)) else None)" for n v m
    using assms by (auto simp: trailing_sequence_def decode_multi_def invalid_byte_def trailing_bytes_eq split: option.splits)
  show ?thesis
    using assms seq [of 1] seq [of 2] seq [of 3]
    by (simp add: after_sequence_def decode_utf8_def invalid_byte_def Let_def numeral_2_eq_2 [symmetric])
qed

lemma document_utf8_loop_iff: "document_utf8_loop s i \<longleftrightarrow> valid_utf8 (drop i s)"
proof (induction s i rule: document_utf8_loop.induct)
  case (1 s i)
  show ?case
  proof (cases "i < length s")
    case True
    with 1 show ?thesis
      by (subst document_utf8_loop.simps) (auto simp: after_sequence_decode lexer_decoder.valid_utf8_step)
  qed (simp add: document_utf8_loop.simps)
qed

lemma document_is_utf8_iff: "document_is_utf8 s \<longleftrightarrow> valid_utf8 s"
  by (simp add: document_is_utf8_def document_utf8_loop_iff)

section \<open>A document that is read is valid\<close>

lemma effective_limits_hard:
  "maximum_json_bytes (effective_limits l) \<le> maximum_json_bytes hard_limits"
  "maximum_events (effective_limits l) \<le> maximum_events hard_limits"
  "maximum_items_per_event (effective_limits l) \<le> maximum_items_per_event hard_limits"
  "maximum_string_bytes (effective_limits l) \<le> maximum_string_bytes hard_limits"
  "maximum_total_string_bytes (effective_limits l) \<le> maximum_total_string_bytes hard_limits"
  by (simp_all add: effective_limits_def)

lemma take_string_count:
  "take_string raw (effective_limits l) used True = Some (s, used') \<Longrightarrow> count_string s used = Some used' \<and>
     s \<noteq> [] \<and> length s \<le> maximum_string_bytes hard_limits"
  using effective_limits_hard [of l]
  by (auto simp: take_string_def count_string_def split: json.splits if_splits)

lemma take_strings_count:
  "take_strings items (effective_limits l) used = Some (ss, used') \<Longrightarrow>
   count_strings ss used = Some used' \<and> length ss = length items"
  by (induction items arbitrary: ss used)
    (auto dest!: take_string_count split: option.splits prod.splits if_splits)

lemma parse_items_valid:
  "parse_items f items = Some xs \<Longrightarrow> (\<And>i x. f i = Some x \<Longrightarrow> P x) \<Longrightarrow> list_all P xs \<and> length xs = length items"
  by (induction items arbitrary: xs) (auto split: option.splits)

lemma parse_time_valid: "parse_time_of_day raw = Some t \<Longrightarrow> valid_time_of_day t"
  by (auto simp: parse_time_of_day_def valid_time_of_day_def split: json.splits list.splits option.splits if_splits)

lemma parse_range_valid:
  "parse_range raw = Some r \<Longrightarrow> valid_time_of_day (range_start r) \<and> valid_time_of_day (range_end r)"
  by (auto simp: parse_range_def dest!: parse_time_valid split: json.splits list.splits option.splits)

lemma parse_times_valid:
  "parse_items parse_time_of_day items = Some ts \<Longrightarrow> list_all valid_time_of_day ts \<and> length ts = length items"
  by (erule parse_items_valid) (rule parse_time_valid)

lemma parse_ranges_valid:
  "parse_items parse_range items = Some rs \<Longrightarrow>
   list_all (\<lambda>r. valid_time_of_day (range_start r) \<and> valid_time_of_day (range_end r)) rs \<and> length rs = length items"
  by (erule parse_items_valid) (rule parse_range_valid)

lemma parse_lists_valid:
  "parse_time_list raw (effective_limits l) = Some ts \<Longrightarrow>
     list_all valid_time_of_day ts \<and> length ts \<le> maximum_items_per_event hard_limits"
  "parse_disabled_ranges raw (effective_limits l) = Some rs \<Longrightarrow>
     list_all (\<lambda>r. valid_time_of_day (range_start r) \<and> valid_time_of_day (range_end r)) rs \<and>
     length rs \<le> maximum_items_per_event hard_limits"
  "parse_task_list raw (effective_limits l) used = Some (ss, used') \<Longrightarrow>
     count_strings ss used = Some used' \<and> length ss \<le> maximum_items_per_event hard_limits"
  using effective_limits_hard(3) [of l]
  by (auto simp: parse_time_list_def parse_disabled_ranges_def parse_task_list_def
      dest!: parse_times_valid parse_ranges_valid take_strings_count split: json.splits if_splits)

lemma parse_event_valid:
  assumes "parse_event raw (effective_limits l) used = Some (event, used')"
  shows "valid_event event used = Some used'"
proof -
  let ?l = "effective_limits l" and ?m = "json_member raw"
  obtain enabled priority interval tick name used1 func used2 resets disabled pre used3 post
    where p: "parse_interval (?m ''interval'') = Some interval" "parse_next_tick (?m ''next_tick'') = Some tick"
      "take_string (?m ''event_name'') ?l used True = Some (name, used1)"
      "take_string (?m ''func_name'') ?l used1 True = Some (func, used2)"
      "parse_time_list (?m ''daily_reset'') ?l = Some resets"
      "parse_disabled_ranges (?m ''disabled_time_range'') ?l = Some disabled"
      "parse_task_list (?m ''pre_task'') ?l used2 = Some (pre, used3)"
      "parse_task_list (?m ''post_task'') ?l used3 = Some (post, used')"
    and event: "event = \<lparr>ev_enabled = enabled, ev_priority = priority, ev_interval = interval, ev_daily_resets = resets,
           ev_next_tick = tick, ev_name = name, ev_function = func, ev_disabled = disabled,
           ev_pre_tasks = pre, ev_post_tasks = post\<rparr>"
    using assms by (auto simp: parse_event_def Let_def Option.bind_eq_Some_conv split: if_splits)
  show ?thesis
    using p(1,2) take_string_count [OF p(3)] take_string_count [OF p(4)] parse_lists_valid(1) [OF p(5)]
      parse_lists_valid(2) [OF p(6)] parse_lists_valid(3) [OF p(7)] parse_lists_valid(3) [OF p(8)]
    by (auto simp: event valid_event_def valid_event_fields_def parse_interval_def parse_next_tick_def
        split: option.splits if_splits)
qed

lemma parse_events_valid: "parse_events raws (effective_limits l) used = Some document \<Longrightarrow>
   valid_events document used \<and> length document = length raws"
  by (induction raws arbitrary: used document) (auto dest!: parse_event_valid split: option.splits prod.splits)

lemma parse_valid_document:
  assumes "parse_event_json sax_events json_value input limits = Inr document"
  shows "valid_document document"
  using assms effective_limits_hard(2) [of limits]
  by (auto simp: parse_event_json_def valid_document_def Let_def dest!: parse_events_valid
      split: if_splits prod.splits option.splits json.splits)

section \<open>The tick after a completion\<close>

text \<open>The times at which a daily reset happens.\<close>

definition resets_at :: "time_of_day \<Rightarrow> int \<Rightarrow> bool" where
  "resets_at reset t \<longleftrightarrow> t mod seconds_per_day = int (seconds_since_midnight reset)"

lemma valid_time_bound: "valid_time_of_day t \<Longrightarrow> int (seconds_since_midnight t) < seconds_per_day"
  by (simp add: valid_time_of_day_def seconds_since_midnight_def seconds_per_day_def)

lemma checked_add_eq: "0 \<le> b \<Longrightarrow> checked_add a b = (if a + b \<le> maximum_unix_seconds then Some (a + b) else None)"
  by (auto simp: checked_add_def)

text \<open>The first time from now on at which a reset happens.\<close>

definition next_reset :: "evaluation_time \<Rightarrow> time_of_day \<Rightarrow> int" where
  "next_reset now reset = unix_seconds now +
     (int (seconds_since_midnight reset) - int (utc_seconds now)) mod seconds_per_day"

lemma next_reset_least:
  assumes "valid_evaluation_time now" "valid_time_of_day reset"
  shows "unix_seconds now \<le> next_reset now reset" "next_reset now reset < unix_seconds now + seconds_per_day"
    "resets_at reset (next_reset now reset)"
    "unix_seconds now \<le> t \<Longrightarrow> resets_at reset t \<Longrightarrow> next_reset now reset \<le> t"
proof -
  let ?d = "(int (seconds_since_midnight reset) - int (utc_seconds now)) mod seconds_per_day"
  have now: "unix_seconds now mod seconds_per_day = int (utc_seconds now)"
    using assms(1) by (simp add: valid_evaluation_time_def)
  have d: "0 \<le> ?d" "?d < seconds_per_day" by (simp_all add: seconds_per_day_def)
  show "unix_seconds now \<le> next_reset now reset" "next_reset now reset < unix_seconds now + seconds_per_day"
    using d by (simp_all add: next_reset_def)
  have "next_reset now reset mod seconds_per_day = int (seconds_since_midnight reset) mod seconds_per_day"
    unfolding next_reset_def by (metis now mod_add_eq mod_mod_trivial add.commute diff_add_cancel)
  then show at: "resets_at reset (next_reset now reset)"
    using valid_time_bound [OF assms(2)] by (simp add: resets_at_def mod_pos_pos_trivial)
  show "next_reset now reset \<le> t" if "unix_seconds now \<le> t" "resets_at reset t"
  proof (rule ccontr)
    assume "\<not> next_reset now reset \<le> t"
    then have "0 < next_reset now reset - t" "next_reset now reset - t < seconds_per_day"
      using that(1) d by (simp_all add: next_reset_def)
    moreover have "next_reset now reset mod seconds_per_day = t mod seconds_per_day"
      using at that(2) by (simp add: resets_at_def)
    then have "(next_reset now reset - t) mod seconds_per_day = 0" by (simp add: mod_eq_dvd_iff)
    ultimately show False by (simp add: mod_pos_pos_trivial)
  qed
qed

lemma reset_tick_eq:
  assumes "valid_evaluation_time now" "valid_time_of_day reset"
  shows "reset_tick now reset =
    (if next_reset now reset \<le> maximum_unix_seconds then Some (next_reset now reset) else None)"
proof -
  have bounds: "int (utc_seconds now) < seconds_per_day" "int (seconds_since_midnight reset) < seconds_per_day"
    "0 < seconds_per_day"
    using assms(1) valid_time_bound [OF assms(2)] by (simp_all add: valid_evaluation_time_def seconds_per_day_def)
  show ?thesis
  proof (cases "utc_seconds now > seconds_since_midnight reset")
    case True
    then have "(int (seconds_since_midnight reset) - int (utc_seconds now)) mod seconds_per_day =
        int (seconds_since_midnight reset) - int (utc_seconds now) + seconds_per_day"
      using bounds by (intro int_mod_pos_eq [where q = "-1"]) auto
    then show ?thesis
      using True bounds(3) by (auto simp: reset_tick_def next_reset_def checked_add_eq Option.bind_eq_Some_conv)
  next
    case False
    then have "(int (seconds_since_midnight reset) - int (utc_seconds now)) mod seconds_per_day =
        int (seconds_since_midnight reset) - int (utc_seconds now)"
      using bounds by (intro mod_pos_pos_trivial) auto
    then show ?thesis using False by (auto simp: reset_tick_def next_reset_def checked_add_eq)
  qed
qed

text \<open>The loop keeps the least of the ticks within the range of time stamps.\<close>

definition option_min :: "int option \<Rightarrow> int option \<Rightarrow> int option" where
  "option_min a b = (case a of None \<Rightarrow> b | Some x \<Rightarrow> (case b of None \<Rightarrow> a | Some y \<Rightarrow> Some (min x y)))"

lemma nearest_reset_fold:
  "nearest_reset now resets nearest = fold (\<lambda>reset n. option_min n (reset_tick now reset)) resets nearest"
  by (induction resets arbitrary: nearest)
    (auto simp: option_min_def min_def fun_eq_iff intro!: arg_cong [of _ _ "fold _ _"] split: option.splits)

definition is_least :: "int set \<Rightarrow> int option \<Rightarrow> bool" where
  "is_least S r \<longleftrightarrow> (case r of None \<Rightarrow> S = {} | Some t \<Rightarrow> t \<in> S \<and> (\<forall>u\<in>S. t \<le> u))"

lemma is_least_option_min: "is_least A a \<Longrightarrow> is_least B b \<Longrightarrow> is_least (A \<union> B) (option_min a b)"
  by (auto simp: is_least_def option_min_def min_def split: option.splits)

lemma nearest_reset_least:
  "is_least S nearest \<Longrightarrow> valid_evaluation_time now \<Longrightarrow> list_all valid_time_of_day resets \<Longrightarrow>
   is_least (S \<union> (next_reset now ` set resets \<inter> {..maximum_unix_seconds})) (nearest_reset now resets nearest)"
proof (induction resets arbitrary: S nearest)
  case (Cons reset resets)
  have "is_least (next_reset now ` {reset} \<inter> {..maximum_unix_seconds}) (reset_tick now reset)"
    using Cons.prems by (simp add: reset_tick_eq is_least_def)
  from Cons.IH [OF is_least_option_min [OF Cons.prems(1) this]] Cons.prems(2,3)
  show ?case by (simp add: nearest_reset_fold Un_assoc Int_Un_distrib2 [symmetric])
qed simp

lemma is_least_mono:
  assumes "is_least A r" "A \<subseteq> B" "\<And>b. b \<in> B \<Longrightarrow> \<exists>a\<in>A. a \<le> b"
  shows "is_least B r"
  using assms by (force simp: is_least_def split: option.splits)

lemma interval_tick_min:
  "interval_tick event now = option_min (checked_add (unix_seconds now) (if ev_interval event > 0 then ev_interval event else seconds_per_day))
     (nearest_reset now (ev_daily_resets event) None)"
  by (auto simp: interval_tick_def option_min_def Let_def min_def split: option.splits)

text \<open>The times at which an event may run again.\<close>

definition next_times :: "scheduler_event \<Rightarrow> evaluation_time \<Rightarrow> int option \<Rightarrow> int set" where
  "next_times event now requested_delay = {..maximum_unix_seconds} \<inter>
    (if requested_delay \<noteq> None \<and> the requested_delay > 0 then {unix_seconds now + the requested_delay}
     else {unix_seconds now + (if ev_interval event > 0 then ev_interval event else seconds_per_day)} \<union>
       {t. unix_seconds now \<le> t \<and> (\<exists>reset\<in>set (ev_daily_resets event). resets_at reset t)})"

lemma checked_add_least: "0 \<le> b \<Longrightarrow> is_least ({a + b} \<inter> {..maximum_unix_seconds}) (checked_add a b)"
  by (simp add: is_least_def checked_add_eq)

lemma completion_tick_least:
  assumes "valid_evaluation_time now" "list_all valid_time_of_day (ev_daily_resets event)"
  shows "is_least (next_times event now requested_delay) (completion_tick event now requested_delay)"
proof (cases "requested_delay \<noteq> None \<and> the requested_delay > 0")
  case True
  then show ?thesis
    using checked_add_least [of "the requested_delay" "unix_seconds now"]
    by (simp add: completion_tick_def next_times_def Int_commute)
next
  case False
  let ?interval = "if ev_interval event > 0 then ev_interval event else seconds_per_day"
  let ?resets = "next_reset now ` set (ev_daily_resets event) \<inter> {..maximum_unix_seconds}"
  have "is_least ({} \<union> ?resets) (nearest_reset now (ev_daily_resets event) None)"
    by (rule nearest_reset_least) (use assms in \<open>simp_all add: is_least_def\<close>)
  moreover have "is_least ({unix_seconds now + ?interval} \<inter> {..maximum_unix_seconds}) (checked_add (unix_seconds now) ?interval)"
    by (rule checked_add_least) (simp add: seconds_per_day_def)
  ultimately have least: "is_least (({unix_seconds now + ?interval} \<inter> {..maximum_unix_seconds}) \<union> ?resets) (interval_tick event now)"
    unfolding interval_tick_min by (auto dest: is_least_option_min)
  have tick: "completion_tick event now requested_delay = interval_tick event now" using False by (auto simp: completion_tick_def)
  have reset: "next_reset now x \<in> {t. unix_seconds now \<le> t \<and> (\<exists>reset\<in>set (ev_daily_resets event). resets_at reset t)}"
      "\<And>t. unix_seconds now \<le> t \<Longrightarrow> resets_at x t \<Longrightarrow> next_reset now x \<le> t"
    if "x \<in> set (ev_daily_resets event)" for x
    using next_reset_least [OF assms(1), of x] that assms(2) by (auto simp: list_all_iff)
  show ?thesis
    unfolding tick
  proof (rule is_least_mono [OF least])
    show "{unix_seconds now + ?interval} \<inter> {..maximum_unix_seconds} \<union> ?resets \<subseteq> next_times event now requested_delay"
      using False reset(1) by (auto simp: next_times_def)
    fix b
    assume "b \<in> next_times event now requested_delay"
    then consider "b = unix_seconds now + ?interval" "b \<le> maximum_unix_seconds"
      | x where "x \<in> set (ev_daily_resets event)" "unix_seconds now \<le> b" "resets_at x b" "b \<le> maximum_unix_seconds"
      using False by (auto simp: next_times_def)
    then show "\<exists>a\<in>{unix_seconds now + ?interval} \<inter> {..maximum_unix_seconds} \<union> ?resets. a \<le> b"
    proof cases
      case 1
      then show ?thesis by blast
    next
      case 2
      then have "next_reset now x \<le> b" using reset(2) by blast
      with 2 show ?thesis by (intro bexI [of _ "next_reset now x"]) auto
    qed
  qed
qed

section \<open>A valid document stays valid\<close>

lemma valid_event_tick:
  "valid_event event used = Some used' \<Longrightarrow> 0 \<le> tick \<Longrightarrow> tick \<le> maximum_unix_seconds \<Longrightarrow>
   valid_event (event\<lparr>ev_next_tick := tick\<rparr>) used = Some used'"
  by (auto simp: valid_event_def valid_event_fields_def split: if_splits)

lemma valid_events_tick:
  "valid_events document used \<Longrightarrow> i < length document \<Longrightarrow> 0 \<le> tick \<Longrightarrow> tick \<le> maximum_unix_seconds \<Longrightarrow>
   valid_events (document[i := (document ! i)\<lparr>ev_next_tick := tick\<rparr>]) used"
  by (induction document arbitrary: used i) (auto simp: nth_Cons valid_event_tick split: option.splits nat.splits)

lemma valid_events_nth:
  "valid_events document used \<Longrightarrow> i < length document \<Longrightarrow> \<exists>u v. valid_event (document ! i) u = Some v"
  by (induction document arbitrary: used i) (auto simp: nth_Cons split: option.splits nat.splits)

lemma valid_document_nth:
  assumes "valid_document document" "i < length document"
  shows "valid_event_fields (document ! i)" "list_all valid_time_of_day (ev_daily_resets (document ! i))"
  using valid_events_nth [of document 0 i] assms
  by (auto simp: valid_document_def valid_event_def Option.bind_eq_Some_conv split: if_splits)

text \<open>C7 (completion_next_tick): after a success of an event of a valid document, the next tick is the least of
  the times at which the event may run again (the requested delay if it is positive; else the
  interval, a day if there is none, and the daily resets from now on) that a time stamp can hold;
  only that tick changes, and the document stays valid. Without such a time the error is an
  overflow and nothing changes.\<close>

theorem completion_next_tick:
  assumes "valid_document document" "valid_evaluation_time now" "event_index < length document"
    "requested_delay = None \<or> \<bar>the requested_delay\<bar> \<le> maximum_interval_seconds"
  shows "let result = apply_completion document event_index CompletionSuccess now requested_delay in
    is_least (next_times (document ! event_index) now requested_delay) (ct_next_tick result) \<and>
    valid_document (ct_document result) \<and>
    (case ct_next_tick result of
       Some tick \<Rightarrow> unix_seconds now \<le> tick \<and> ct_persist_required result \<and> ct_error result = None \<and>
         ct_document result = document[event_index := (document ! event_index)\<lparr>ev_next_tick := tick\<rparr>]
     | None \<Rightarrow> ct_error result = Some TimestampOverflow \<and> \<not> ct_persist_required result \<and> ct_document result = document)"
proof -
  let ?event = "document ! event_index"
  note nth = valid_document_nth [OF assms(1,3)]
  have least: "is_least (next_times ?event now requested_delay) (completion_tick ?event now requested_delay)"
    by (rule completion_tick_least [OF assms(2) nth(2)])
  have result: "apply_completion document event_index CompletionSuccess now requested_delay =
      (case completion_tick ?event now requested_delay of
         None \<Rightarrow> transform_failed document (Some TimestampOverflow)
       | Some tick \<Rightarrow> \<lparr>ct_document = document[event_index := ?event\<lparr>ev_next_tick := tick\<rparr>],
           ct_persist_required = True, ct_next_tick = Some tick, ct_error = None\<rparr>)"
    using assms by (auto simp: apply_completion_def)
  show ?thesis
  proof (cases "completion_tick ?event now requested_delay")
    case None
    with least assms(1) show ?thesis by (simp add: result transform_failed_def)
  next
    case (Some tick)
    then have tick: "tick \<in> next_times ?event now requested_delay" using least by (simp add: is_least_def)
    then have "unix_seconds now \<le> tick" "tick \<le> maximum_unix_seconds"
      by (auto simp: next_times_def seconds_per_day_def split: if_splits)
    moreover have "0 \<le> unix_seconds now" using assms(2) by (simp add: valid_evaluation_time_def)
    ultimately have "valid_document (document[event_index := ?event\<lparr>ev_next_tick := tick\<rparr>])"
      using assms(1,3) valid_events_tick [of document 0 event_index tick] by (simp add: valid_document_def)
    with least Some \<open>unix_seconds now \<le> tick\<close> show ?thesis by (simp add: result)
  qed
qed

text \<open>An event with an interval of an hour and a reset at four, completed at half past three.\<close>

definition hourly_event :: scheduler_event where
  "hourly_event = \<lparr>ev_enabled = True, ev_priority = 1, ev_interval = 3600,
     ev_daily_resets = [\<lparr>tod_hour = 4, tod_minute = 0, tod_second = 0\<rparr>], ev_next_tick = 0,
     ev_name = ''cafe'', ev_function = ''run_cafe'', ev_disabled = [], ev_pre_tasks = [''restart''], ev_post_tasks = []\<rparr>"

definition half_past_three :: evaluation_time where
  "half_past_three = \<lparr>unix_seconds = 1700019000, local_seconds = 12600, utc_seconds = 12600\<rparr>"

lemma completion_next_tick_witness:
  "ct_next_tick (apply_completion [hourly_event] 0 CompletionSuccess half_past_three None) = Some 1700020800 \<and>
   valid_document (ct_document (apply_completion [hourly_event] 0 CompletionSuccess half_past_three None))"
proof -
  have pre: "valid_document [hourly_event]" "valid_evaluation_time half_past_three" "0 < length [hourly_event]" by code_simp+
  have "ct_next_tick (apply_completion [hourly_event] 0 CompletionSuccess half_past_three None) = Some 1700020800"
    by code_simp
  then show ?thesis using completion_next_tick [OF pre, of None] unfolding Let_def by blast
qed

section \<open>The plan\<close>

definition plan_before :: "scheduled_plan \<Rightarrow> scheduled_plan \<Rightarrow> bool" where
  "plan_before p q \<longleftrightarrow> plan_priority p < plan_priority q \<or> (plan_priority p = plan_priority q \<and> plan_index p < plan_index q)"

text \<open>A stable sort of distinct ascending indices orders them by key and index.\<close>

lemma sort_key_stable:
  assumes "sorted_wrt (<) (xs :: nat list)"
  shows "sorted_wrt (\<lambda>x y. f x < f y \<or> (f x = f y \<and> x < y)) (sort_key f xs)"
  using assms
proof (induction xs)
  case (Cons x xs)
  have "sorted_wrt (\<lambda>x y. f x < f y \<or> (f x = f y \<and> x < y)) (insort_key f x ys)"
    if "sorted_wrt (\<lambda>x y. f x < f y \<or> (f x = f y \<and> x < y)) ys" "\<forall>y\<in>set ys. x < y" for ys
    using that by (induction ys) (fastforce simp: set_insort_key not_le)+
  with Cons show ?case by simp
qed simp



section \<open>The inventory\<close>

text \<open>An inventory that is refreshed against one document after the other.\<close>

fun refresh_all :: "function_inventory \<Rightarrow> scheduler_document list \<Rightarrow> function_inventory option" where
  "refresh_all inventory [] = Some inventory"
| "refresh_all inventory (document # documents) =
     Option.bind (refresh_function_inventory inventory document) (\<lambda>inventory'. refresh_all inventory' documents)"

lemma count_string_mono:
  "count_string s used = Some v \<Longrightarrow> u \<le> used \<Longrightarrow> count_string s u = Some (u + length s) \<and> u + length s \<le> v \<and> used \<le> v"
  by (auto simp: count_string_def split: if_splits)

lemma count_strings_grow: "count_strings ss used = Some v \<Longrightarrow> used \<le> v"
  by (induction ss arbitrary: used) (fastforce simp: Option.bind_eq_Some_conv dest: count_string_mono)+

lemma valid_events_functions:
  "valid_events document used \<Longrightarrow> u \<le> used \<Longrightarrow> count_strings (map ev_function document) u \<noteq> None"
proof (induction document arbitrary: used u)
  case (Cons event document)
  then obtain used' where event: "valid_event event used = Some used'" "valid_events document used'"
    by (auto split: option.splits)
  then obtain u1 u2 u3 where u: "count_string (ev_name event) used = Some u1" "count_string (ev_function event) u1 = Some u2"
    "count_strings (ev_pre_tasks event) u2 = Some u3" "count_strings (ev_post_tasks event) u3 = Some used'"
    by (auto simp: valid_event_def Option.bind_eq_Some_conv split: if_splits)
  have "u \<le> u1" using count_string_mono [OF u(1) order_refl] Cons.prems(2) by simp
  from count_string_mono [OF u(2) this] have "count_string (ev_function event) u = Some (u + length (ev_function event))"
    "u + length (ev_function event) \<le> used'"
    using count_strings_grow [OF u(3)] count_strings_grow [OF u(4)] by simp_all
  then show ?case using Cons.IH [OF event(2)] by simp
qed simp

lemma snapshot_valid:
  assumes "valid_document document"
  shows "snapshot_function_inventory document = Some \<lparr>inv_names = map ev_function document, inv_initialized = (document \<noteq> [])\<rparr>"
    "valid_inventory \<lparr>inv_names = map ev_function document, inv_initialized = (document \<noteq> [])\<rparr>"
  using assms valid_events_functions [of document 0 0]
  by (auto simp: snapshot_function_inventory_def valid_inventory_def valid_document_def)

text \<open>C27 (inventory_first_document): an inventory that has been initialized never changes, whatever documents are
  loaded; one that has not takes the functions of the first document that has events, and stays
  valid, so that a plan can be made for every valid document from then on.\<close>

theorem inventory_first_document:
  assumes "valid_inventory inventory" "list_all valid_document documents"
  shows "\<exists>inventory'. refresh_all inventory documents = Some inventory' \<and> valid_inventory inventory' \<and>
    inventory' = (if inv_initialized inventory then inventory
      else case filter (\<lambda>d. d \<noteq> []) documents of
          [] \<Rightarrow> inventory
        | document # _ \<Rightarrow> \<lparr>inv_names = map ev_function document, inv_initialized = True\<rparr>) \<and>
    (documents \<noteq> [] \<longrightarrow> valid_evaluation_time now \<longrightarrow> plan_due_events (last documents) inventory' now \<noteq> None)"
  using assms
proof (induction documents arbitrary: inventory)
  case (Cons document documents)
  let ?next = "if inv_initialized inventory \<or> document = [] then inventory
    else \<lparr>inv_names = map ev_function document, inv_initialized = True\<rparr>"
  have step: "refresh_function_inventory inventory document = Some ?next" "valid_inventory ?next"
    using Cons.prems snapshot_valid [of document] by (auto simp: refresh_function_inventory_def)
  have valid: "list_all valid_document documents" "valid_document document" using Cons.prems(2) by simp_all
  have plan: "plan_due_events document ?next now \<noteq> None" if "valid_evaluation_time now"
    using that step(2) valid(2) by (auto simp: plan_due_events_def Let_def)
  from Cons.IH [OF step(2) valid(1)] obtain inventory' where inventory':
    "refresh_all ?next documents = Some inventory'" "valid_inventory inventory'"
    "inventory' = (if inv_initialized ?next then ?next else case filter (\<lambda>d. d \<noteq> []) documents of
        [] \<Rightarrow> ?next | document # _ \<Rightarrow> \<lparr>inv_names = map ev_function document, inv_initialized = True\<rparr>)"
    "documents \<noteq> [] \<longrightarrow> valid_evaluation_time now \<longrightarrow> plan_due_events (last documents) inventory' now \<noteq> None"
    by blast
  have "plan_due_events (last (document # documents)) inventory' now \<noteq> None" if "valid_evaluation_time now"
    using inventory'(3,4) that plan [OF that] by (cases "documents = []") auto
  with inventory'(1-3) step(1) show ?case by (intro exI [of _ inventory']) auto
qed simp

lemma inventory_first_document_witness:
  "refresh_all \<lparr>inv_names = [], inv_initialized = False\<rparr> [[], [hourly_event]] =
     Some \<lparr>inv_names = [''run_cafe''], inv_initialized = True\<rparr>"
proof -
  have "valid_inventory \<lparr>inv_names = [], inv_initialized = False\<rparr>" "list_all valid_document [[], [hourly_event]]"
    by code_simp+
  from inventory_first_document [OF this, of half_past_three] show ?thesis by (auto simp: hourly_event_def)
qed

end
