(* ===== verification/SchedulerPolicy_Json.thy ===== *)
theory SchedulerPolicy_Json
  imports SchedulerPolicy_Correct "HOL-Library.Char_ord" "HOL-Library.List_Lexorder"
begin

text \<open>
  The JSON form of a scheduler document: what is written is read back, as far as the limits of
  the reader allow.  Of the JSON library this uses that a value it has written comes back as the
  same value, in which a number that is not negative is unsigned and the members of an object are
  in the order of their keys (an object is a \<open>std::map\<close>), and that parsing a text reports the
  events of its value.
\<close>

section \<open>The events and the size of a value\<close>

primrec sax_of :: "json \<Rightarrow> sax_event list" where
  "sax_of JsonNull = [SaxScalar]"
| "sax_of (JsonBool b) = [SaxScalar]"
| "sax_of (JsonInteger i) = [SaxScalar]"
| "sax_of (JsonUnsigned n) = [SaxScalar]"
| "sax_of (JsonFloat f) = [SaxScalar]"
| "sax_of (JsonString s) = [SaxScalar]"
| "sax_of (JsonArray js) = SaxStartArray # concat (map sax_of js) @ [SaxEndArray]"
| "sax_of (JsonObject ms) = SaxStartObject # concat (map (\<lambda>m. SaxKey (fst m) # snd m) (map (map_prod id sax_of) ms)) @ [SaxEndObject]"

primrec json_nodes :: "json \<Rightarrow> nat" where
  "json_nodes JsonNull = 1"
| "json_nodes (JsonBool b) = 1"
| "json_nodes (JsonInteger i) = 1"
| "json_nodes (JsonUnsigned n) = 1"
| "json_nodes (JsonFloat f) = 1"
| "json_nodes (JsonString s) = 1"
| "json_nodes (JsonArray js) = 1 + sum_list (map json_nodes js)"
| "json_nodes (JsonObject ms) = 1 + sum_list (map (\<lambda>m. 1 + snd m) (map (map_prod id json_nodes) ms))"

text \<open>The depth is within a bound, and the keys of every object are distinct.\<close>

primrec json_within :: "json \<Rightarrow> nat \<Rightarrow> bool" where
  "json_within JsonNull d = True"
| "json_within (JsonBool b) d = True"
| "json_within (JsonInteger i) d = True"
| "json_within (JsonUnsigned n) d = True"
| "json_within (JsonFloat f) d = True"
| "json_within (JsonString s) d = True"
| "json_within (JsonArray js) d = (d > 0 \<and> list_all (\<lambda>p. p (d - 1)) (map json_within js))"
| "json_within (JsonObject ms) d = (d > 0 \<and> distinct (map fst ms) \<and>
     list_all (\<lambda>m. snd m (d - 1)) (map (map_prod id json_within) ms))"

text \<open>What a value comes back as.\<close>

primrec reread :: "json \<Rightarrow> json" where
  "reread JsonNull = JsonNull"
| "reread (JsonBool b) = JsonBool b"
| "reread (JsonInteger i) = (if i \<ge> 0 then JsonUnsigned (nat i) else JsonInteger i)"
| "reread (JsonUnsigned n) = JsonUnsigned n"
| "reread (JsonFloat f) = JsonFloat f"
| "reread (JsonString s) = JsonString s"
| "reread (JsonArray js) = JsonArray (map reread js)"
| "reread (JsonObject ms) = JsonObject (sort_key fst (map (map_prod id reread) ms))"

section \<open>The handler of the events\<close>

lemma sax_parse_append:
  "sax_parse limits (xs @ ys) st = (let (ok, st') = sax_parse limits xs st in
     if ok then sax_parse limits ys st' else (False, st'))"
  by (induction xs arbitrary: st) (auto simp: case_prod_beta Let_def)

text \<open>A value within the depth limit passes if its nodes do, and is reported as too large otherwise.\<close>

definition sax_passes :: "parse_limits \<Rightarrow> sax_event list \<Rightarrow> nat \<Rightarrow> shape_state \<Rightarrow> bool" where
  "sax_passes limits es n st \<longleftrightarrow>
    (if sh_nodes st + n \<le> maximum_nodes limits then sax_parse limits es st = (True, st\<lparr>sh_nodes := sh_nodes st + n\<rparr>)
     else \<not> fst (sax_parse limits es st) \<and> sh_exceeded (snd (sax_parse limits es st)))"

lemma sax_passes_append:
  assumes "sax_passes limits xs m st" "sax_passes limits ys n (st\<lparr>sh_nodes := sh_nodes st + m\<rparr>)"
  shows "sax_passes limits (xs @ ys) (m + n) st"
  using assms by (auto simp: sax_passes_def sax_parse_append Let_def add.assoc split: if_splits prod.splits)

lemma sax_passes_concat:
  assumes "\<And>x st. x \<in> set xs \<Longrightarrow> sh_depth st = d \<Longrightarrow> sax_passes limits (f x) (g x) st" "sh_depth st = d"
    "sh_nodes st \<le> maximum_nodes limits"
  shows "sax_passes limits (concat (map f xs)) (sum_list (map g xs)) st"
  using assms
proof (induction xs arbitrary: st)
  case (Cons x xs)
  show ?case
  proof (cases "sh_nodes st + g x \<le> maximum_nodes limits")
    case True
    have "sax_passes limits (concat (map f xs)) (sum_list (map g xs)) (st\<lparr>sh_nodes := sh_nodes st + g x\<rparr>)"
      using Cons.prems True by (intro Cons.IH) simp_all
    then show ?thesis using Cons.prems(1) [of x st] Cons.prems(2) sax_passes_append by simp
  next
    case False
    then have "\<not> fst (sax_parse limits (f x) st) \<and> sh_exceeded (snd (sax_parse limits (f x) st))"
      using Cons.prems(1) [of x st] Cons.prems(2) by (simp add: sax_passes_def)
    then show ?thesis
      using False by (auto simp: sax_passes_def sax_parse_append Let_def case_prod_beta)
  qed
qed (simp add: sax_passes_def)

lemma sax_passes_scalar: "sh_depth st \<le> maximum_depth limits \<Longrightarrow> e \<in> {SaxScalar, SaxKey k} \<Longrightarrow> sax_passes limits [e] 1 st"
  by (auto simp: sax_passes_def shape_node_def Let_def)

lemma sax_passes_value: "sh_depth st \<le> maximum_depth limits \<Longrightarrow> sax_passes limits [SaxScalar] (Suc 0) st"
  using sax_passes_scalar [of st limits SaxScalar] by simp

lemma sax_passes_container:
  assumes "e \<in> {SaxStartArray, SaxStartObject}" "e' \<in> {SaxEndArray, SaxEndObject}" "sh_depth st < maximum_depth limits"
    "\<And>st'. sh_depth st' = sh_depth st + 1 \<Longrightarrow> sh_nodes st' \<le> maximum_nodes limits \<Longrightarrow> sax_passes limits es n st'"
  shows "sax_passes limits (e # es @ [e']) (1 + n) st"
proof (cases "sh_nodes st + 1 \<le> maximum_nodes limits")
  case True
  let ?st = "st\<lparr>sh_nodes := sh_nodes st + 1, sh_depth := sh_depth st + 1\<rparr>"
  have start: "shape_event limits e st = (True, ?st)"
    using assms(1,3) True by (auto simp: shape_container_start_def shape_node_def Let_def)
  have "shape_event limits e' (?st\<lparr>sh_nodes := sh_nodes ?st + n\<rparr>) = (True, st\<lparr>sh_nodes := sh_nodes st + (1 + n)\<rparr>)"
    using assms(2) by (cases st) (auto simp: shape_container_end_def)
  moreover have "sax_passes limits es n ?st" using assms(4) True by simp
  ultimately show ?thesis
    by (auto simp: sax_passes_def start sax_parse_append Let_def split: if_splits prod.splits)
next
  case False
  then show ?thesis
    using assms(1,3) by (auto simp: sax_passes_def shape_container_start_def shape_node_def Let_def)
qed

lemma sax_passes_json:
  "json_within j d \<Longrightarrow> sh_depth st + d \<le> maximum_depth limits \<Longrightarrow> sax_passes limits (sax_of j) (json_nodes j) st"
proof (induction j arbitrary: d st)
  case (JsonArray js)
  have items: "sax_passes limits (concat (map sax_of js)) (sum_list (map json_nodes js)) st'"
    if "sh_depth st' = sh_depth st + 1" "sh_nodes st' \<le> maximum_nodes limits" for st'
    by (rule sax_passes_concat [OF _ that]) (use JsonArray in \<open>auto simp: list_all_iff intro!: JsonArray.IH [where d = "d - 1"]\<close>)
  have "sax_passes limits (SaxStartArray # concat (map sax_of js) @ [SaxEndArray]) (1 + sum_list (map json_nodes js)) st"
    by (rule sax_passes_container) (use JsonArray.prems items in auto)
  then show ?case by simp
next
  case (JsonObject ms)
  let ?f = "\<lambda>m. SaxKey (fst m) # sax_of (snd m)" and ?g = "\<lambda>m. 1 + json_nodes (snd m)"
  have member: "sax_passes limits (?f m) (?g m) st'" if "m \<in> set ms" "sh_depth st' = sh_depth st + 1" for m st'
  proof -
    have "sax_passes limits [SaxKey (fst m)] 1 st'"
      by (rule sax_passes_scalar [where k = "fst m"]) (use JsonObject.prems that(2) in auto)
    moreover have "sax_passes limits (sax_of (snd m)) (json_nodes (snd m)) (st'\<lparr>sh_nodes := sh_nodes st' + 1\<rparr>)"
      using JsonObject.prems that by (intro JsonObject.IH [where d = "d - 1", of m]) (auto simp: list_all_iff snds.simps)
    ultimately show ?thesis using sax_passes_append [of limits "[SaxKey (fst m)]" 1 st'] by simp
  qed
  have members: "sax_passes limits (concat (map ?f ms)) (sum_list (map ?g ms)) st'"
    if "sh_depth st' = sh_depth st + 1" "sh_nodes st' \<le> maximum_nodes limits" for st'
    by (rule sax_passes_concat [OF _ that]) (use member in auto)
  have "sax_passes limits (SaxStartObject # concat (map ?f ms) @ [SaxEndObject]) (1 + sum_list (map ?g ms)) st"
    by (rule sax_passes_container) (use JsonObject.prems members in auto)
  then show ?case by (simp add: o_def)
qed (auto intro: sax_passes_value)

section \<open>No key comes twice\<close>

lemma fold_concat: "fold f (concat xss) = fold (fold f) xss"
  by (induction xss) simp_all

lemma key_callback_json:
  "json_within j d \<Longrightarrow> fold key_callback (sax_of j) st = st"
proof (induction j arbitrary: d st)
  case (JsonArray js)
  have "fold (fold key_callback) (map sax_of js) st = st"
    using JsonArray
  proof (induction js arbitrary: st)
    case (Cons j js)
    have "fold key_callback (sax_of j) st = st"
      by (rule Cons.prems(1) [where d = "d - 1"]) (use Cons.prems(2) in simp_all)
    moreover have "fold (fold key_callback) (map sax_of js) st = st"
      by (rule Cons.IH [OF Cons.prems(1)]) (use Cons.prems(2) in simp_all)
    ultimately show ?case by simp
  qed simp
  moreover have "key_callback e st = st" if "e \<in> {SaxStartArray, SaxEndArray}" for e
    using that by (cases st) auto
  ultimately show ?case by (simp add: fold_concat)
next
  case (JsonObject ms)
  obtain oks dup where st: "st = (oks, dup)" by (cases st)
  have "fold (fold key_callback) (map (\<lambda>m. SaxKey (fst m) # sax_of (snd m)) ms) (keys # oks, dup) =
      ((keys \<union> set (map fst ms)) # oks, dup)" if "keys \<inter> set (map fst ms) = {}" for keys
    using JsonObject that
  proof (induction ms arbitrary: keys)
    case (Cons m ms)
    have m: "fold key_callback (sax_of (snd m)) st' = st'" for st'
      using Cons.prems(2) by (intro Cons.prems(1) [where d = "d - 1", of m]) (auto simp: snds.simps)
    have "fold (fold key_callback) (map (\<lambda>m. SaxKey (fst m) # sax_of (snd m)) ms) (insert (fst m) keys # oks, dup) =
        ((insert (fst m) keys \<union> set (map fst ms)) # oks, dup)"
      by (rule Cons.IH [OF Cons.prems(1)]) (use Cons.prems(2,3) in auto)
    then show ?case using Cons.prems(3) m by (auto simp: insert_commute)
  qed simp
  from this [of "{}"] show ?case by (simp add: st fold_concat o_def)
qed simp_all

lemma no_duplicate_key: "json_within j d \<Longrightarrow> \<not> duplicate_key (sax_of j)"
  by (simp add: duplicate_key_def key_callback_json)

section \<open>The value of a document\<close>

lemma json_nodes_reread: "json_nodes (reread j) = json_nodes j"
proof (induction j)
  case (JsonObject ms)
  have "sum_list (map f (sort_key fst xs)) = sum_list (map f xs)" for f :: "string \<times> json \<Rightarrow> nat" and xs
    by (metis mset_map mset_sort sum_mset_sum_list)
  then show ?case
    using JsonObject by (auto simp: o_def snds.simps intro!: arg_cong [of _ _ sum_list] map_cong)
qed (auto simp: o_def intro!: arg_cong [of _ _ sum_list] map_cong)

lemma reread_event: "reread (encode_event event) = JsonObject [
     (''daily_reset'', JsonArray (map (reread \<circ> encode_time) (ev_daily_resets event))),
     (''disabled_time_range'', JsonArray
        (map (\<lambda>r. JsonArray [reread (encode_time (range_start r)), reread (encode_time (range_end r))]) (ev_disabled event))),
     (''enabled'', JsonBool (ev_enabled event)),
     (''event_name'', JsonString (ev_name event)),
     (''func_name'', JsonString (ev_function event)),
     (''interval'', reread (JsonInteger (ev_interval event))),
     (''next_tick'', reread (JsonInteger (ev_next_tick event))),
     (''post_task'', JsonArray (map JsonString (ev_post_tasks event))),
     (''pre_task'', JsonArray (map JsonString (ev_pre_tasks event))),
     (''priority'', reread (JsonInteger (ev_priority event)))]"
  by (simp add: encode_event_def o_def less_eq_list_code less_char_def)

lemma reread_document_within: "json_within (reread (JsonArray (map encode_event document))) 5"
  by (simp add: list_all_iff reread_event encode_time_def)

lemma parse_time_reread: "valid_time_of_day t \<Longrightarrow> parse_time_of_day (reread (encode_time t)) = Some t"
  by (simp add: parse_time_of_day_def encode_time_def json_integer_def valid_time_of_day_def)

lemma parse_items_map: "(\<And>x. x \<in> set xs \<Longrightarrow> f (g x) = Some x) \<Longrightarrow> parse_items f (map g xs) = Some xs"
  by (induction xs) auto

lemma take_string_written: "count_string s used = Some used' \<Longrightarrow> take_string (JsonString s) hard_limits used True = Some (s, used')"
  by (auto simp: count_string_def take_string_def split: if_splits)

lemma take_strings_written:
  "count_strings ss used = Some used' \<Longrightarrow> take_strings (map JsonString ss) hard_limits used = Some (ss, used')"
  by (induction ss arbitrary: used) (auto simp: Option.bind_eq_Some_conv take_string_written)

lemma json_member_written:
  "json_member (JsonObject ((k, v) # ms)) key = (if key = k then v else json_member (JsonObject ms) key)"
  by (simp add: json_member_def)

text \<open>An event, its priority a 32-bit integer, is read as it was written.\<close>

lemma parse_event_written:
  assumes "valid_event event used = Some used'" "\<bar>2 * ev_priority event + 1\<bar> < 2 ^ 32"
  shows "parse_event (reread (encode_event event)) hard_limits used = Some (event, used')"
proof -
  obtain u1 u2 u3 where u: "count_string (ev_name event) used = Some u1" "count_string (ev_function event) u1 = Some u2"
    "count_strings (ev_pre_tasks event) u2 = Some u3" "count_strings (ev_post_tasks event) u3 = Some used'"
    and fields: "valid_event_fields event" "list_all valid_time_of_day (ev_daily_resets event)"
    "list_all (\<lambda>r. valid_time_of_day (range_start r) \<and> valid_time_of_day (range_end r)) (ev_disabled event)"
    using assms(1) by (auto simp: valid_event_def Option.bind_eq_Some_conv split: if_splits)
  let ?m = "json_member (reread (encode_event event))"
  have shape: "exact_event_shape (reread (encode_event event))"
    by (simp add: exact_event_shape_def reread_event event_keys_def)
  have member: "?m ''enabled'' = JsonBool (ev_enabled event)" "?m ''priority'' = reread (JsonInteger (ev_priority event))"
    "?m ''interval'' = reread (JsonInteger (ev_interval event))" "?m ''next_tick'' = reread (JsonInteger (ev_next_tick event))"
    "?m ''event_name'' = JsonString (ev_name event)" "?m ''func_name'' = JsonString (ev_function event)"
    "?m ''daily_reset'' = JsonArray (map (reread \<circ> encode_time) (ev_daily_resets event))"
    "?m ''disabled_time_range'' = JsonArray (map (\<lambda>r. JsonArray [reread (encode_time (range_start r)),
       reread (encode_time (range_end r))]) (ev_disabled event))"
    "?m ''pre_task'' = JsonArray (map JsonString (ev_pre_tasks event))"
    "?m ''post_task'' = JsonArray (map JsonString (ev_post_tasks event))"
    by (simp_all add: reread_event json_member_def)
  have resets: "parse_time_list (?m ''daily_reset'') hard_limits = Some (ev_daily_resets event)"
    using fields(1,2) unfolding member
    by (auto simp: parse_time_list_def valid_event_fields_def list_all_iff parse_time_reread intro!: parse_items_map)
  have ranges: "parse_disabled_ranges (?m ''disabled_time_range'') hard_limits = Some (ev_disabled event)"
    using fields(1,3) unfolding member
    by (auto simp: parse_disabled_ranges_def valid_event_fields_def list_all_iff parse_time_reread parse_range_def
        intro!: parse_items_map)
  have tasks: "parse_task_list (?m ''pre_task'') hard_limits u2 = Some (ev_pre_tasks event, u3)"
    "parse_task_list (?m ''post_task'') hard_limits u3 = Some (ev_post_tasks event, used')"
    using fields(1) take_strings_written [OF u(3)] take_strings_written [OF u(4)] unfolding member
    by (auto simp: parse_task_list_def valid_event_fields_def)
  have numbers: "parse_priority (?m ''priority'') = Some (ev_priority event)"
    "parse_interval (?m ''interval'') = Some (ev_interval event)"
    "parse_next_tick (?m ''next_tick'') = Some (ev_next_tick event)"
    using fields(1) assms(2) unfolding member
    by (auto simp: parse_priority_def parse_interval_def parse_next_tick_def json_integer_def valid_event_fields_def
        maximum_interval_seconds_def maximum_unix_seconds_def)
  show ?thesis
    using shape resets ranges tasks numbers
    by (simp add: parse_event_def Let_def member json_boolean_def take_string_written [OF u(1)] take_string_written [OF u(2)])
qed

lemma parse_events_written:
  "valid_events document used \<Longrightarrow> list_all (\<lambda>event. \<bar>2 * ev_priority event + 1\<bar> < 2 ^ 32) document \<Longrightarrow>
   parse_events (map (\<lambda>event. reread (encode_event event)) document) hard_limits used = Some document"
  by (induction document arbitrary: used) (auto simp: parse_event_written split: option.splits)

section \<open>Writing and reading back\<close>

text \<open>What is used of the JSON library.\<close>

definition json_library ::
  "(json \<Rightarrow> string option) \<Rightarrow> (string \<Rightarrow> sax_event list) \<Rightarrow> (string \<Rightarrow> json option) \<Rightarrow> bool" where
  "json_library dump sax_events json_value \<longleftrightarrow> (\<forall>j text. dump j = Some text \<longrightarrow>
     valid_utf8 text \<and> sax_events text = sax_of (reread j) \<and> json_value text = Some (reread j))"

definition int32_priority :: "scheduler_event \<Rightarrow> bool" where
  "int32_priority event \<longleftrightarrow> - (2 ^ 31) \<le> ev_priority event \<and> ev_priority event < 2 ^ 31"


text \<open>The text of a document of one event, and a library that knows this text.\<close>

definition hourly_json :: json where "hourly_json = JsonArray (map encode_event [hourly_event])"

definition hourly_text :: string where
  "hourly_text = concat (map (\<lambda>line. line @ [CHR 0x0A]) [
     ''['', ''  {'', ''    \"daily_reset\": ['', ''      ['', ''        4,'', ''        0,'', ''        0'', ''      ]'', ''    ],'',
     ''    \"disabled_time_range\": [],'', ''    \"enabled\": true,'', ''    \"event_name\": \"cafe\",'',
     ''    \"func_name\": \"run_cafe\",'', ''    \"interval\": 3600,'', ''    \"next_tick\": 0,'', ''    \"post_task\": [],'',
     ''    \"pre_task\": ['', ''      \"restart\"'', ''    ],'', ''    \"priority\": 1'', ''  }'']) @ '']''"

definition hourly_dump :: "json \<Rightarrow> string option" where
  "hourly_dump j = (if j = hourly_json then Some hourly_text else None)"

definition hourly_events :: "string \<Rightarrow> sax_event list" where
  "hourly_events s = (if s = hourly_text then sax_of (reread hourly_json) else [SaxParseError])"

definition hourly_value :: "string \<Rightarrow> json option" where
  "hourly_value s = (if s = hourly_text then Some (reread hourly_json) else None)"



lemma valid_utf8_all_ascii: "list_all (\<lambda>c. byte_of c < 0x80) s \<Longrightarrow> valid_utf8 s"
proof (induction s)
  case (Cons c s)
  then show ?case using valid_utf8_append [of "[c]" s] valid_utf8_ascii by simp
qed simp


end
