(* ===== verification/TriggerSession.thy ===== *)
theory TriggerSession
  imports Utf8
begin

text \<open>
  The session of a trigger connection (src/include/service/protocol/TriggerSession.h,
  src/src/service/protocol/TriggerSession.cpp): admission of commands, cancellation, the queue of
  responses with its byte budget, the lease of the batch that is being sent, and the signal that
  output is ready.  Every operation is one section under the mutex of the session, so a step of the
  model is one operation; the signal of a publication, which comes after the mutex is released,
  is a step of its own.  Sizes and counters are natural numbers, time stamps too; generations,
  lease and instance ids are 64-bit words, for the code handles their wrap-around.  An observer is
  an id, and whether it is still alive (its weak pointer has not expired) is a parameter.
\<close>

section \<open>Types\<close>

definition size_max :: nat where "size_max = 2 ^ 64 - 1"

definition maximum_safe_timestamp :: nat where "maximum_safe_timestamp = 9007199254740991"

datatype response_mode = SingleResponse | StreamResponse

record command_admission =
  ca_command :: string
  ca_timestamp :: nat
  ca_config_id :: "string option"
  ca_payload_bytes :: nat
  ca_binary_bytes :: nat
  ca_response_mode :: response_mode

record session_limits =
  max_in_flight :: nat
  max_command_bytes :: nat
  max_config_id_bytes :: nat
  max_request_payload_bytes :: nat
  max_request_binary_bytes :: nat
  max_response_json_bytes :: nat
  max_response_binary_bytes :: nat
  max_queued_batches :: nat
  max_queued_bytes :: nat

definition default_session_limits :: session_limits where
  "default_session_limits = \<lparr>max_in_flight = 256, max_command_bytes = 128, max_config_id_bytes = 256,
     max_request_payload_bytes = 1024 * 1024, max_request_binary_bytes = 64 * 1024 * 1024,
     max_response_json_bytes = 1024 * 1024, max_response_binary_bytes = 64 * 1024 * 1024,
     max_queued_batches = 256, max_queued_bytes = 72 * 1024 * 1024\<rparr>"

record admission_receipt =
  re_owner :: "64 word"
  re_timestamp :: nat
  re_generation :: "64 word"

text \<open>The enumerations of errors; their first value, \<open>none\<close>, is \<open>None\<close>.\<close>

datatype admission_error = AdmissionClosed | InvalidCommand | InvalidTimestamp | InvalidConfigId
  | RequestPayloadTooLarge | RequestBinaryTooLarge | DuplicateTimestamp | InFlightLimit
  | AdmissionGenerationExhausted

fun admission_error_name :: "admission_error option \<Rightarrow> string" where
  "admission_error_name None = ''none''"
| "admission_error_name (Some AdmissionClosed) = ''closed''"
| "admission_error_name (Some InvalidCommand) = ''invalid_command''"
| "admission_error_name (Some InvalidTimestamp) = ''invalid_timestamp''"
| "admission_error_name (Some InvalidConfigId) = ''invalid_config_id''"
| "admission_error_name (Some RequestPayloadTooLarge) = ''payload_too_large''"
| "admission_error_name (Some RequestBinaryTooLarge) = ''binary_too_large''"
| "admission_error_name (Some DuplicateTimestamp) = ''duplicate_timestamp''"
| "admission_error_name (Some InFlightLimit) = ''in_flight_limit''"
| "admission_error_name (Some AdmissionGenerationExhausted) = ''admission_generation_exhausted''"

datatype response_status = StatusOk | StatusError | StatusCancelled

record outbound_batch =
  ob_command :: string
  ob_timestamp :: nat
  ob_status :: response_status
  ob_response_mode :: response_mode
  ob_terminal :: bool
  ob_json :: string
  ob_has_binary :: bool
  ob_binary :: "8 word list"

datatype publish_error = PublishClosed | PublishInvalidReceipt | UnknownTimestamp | CommandMismatch
  | ResponseModeMismatch | TerminalAlreadyQueued | SingleResponseMustBeTerminal
  | ErrorResponseMustBeTerminal | CancellationResponseRequired | InvalidJsonUtf8 | JsonTooLarge
  | BinaryTooLarge | QueueFull | QueuedBytesExceeded

fun publish_error_name :: "publish_error option \<Rightarrow> string" where
  "publish_error_name None = ''none''"
| "publish_error_name (Some PublishClosed) = ''closed''"
| "publish_error_name (Some PublishInvalidReceipt) = ''invalid_admission_receipt''"
| "publish_error_name (Some UnknownTimestamp) = ''unknown_timestamp''"
| "publish_error_name (Some CommandMismatch) = ''command_mismatch''"
| "publish_error_name (Some ResponseModeMismatch) = ''response_mode_mismatch''"
| "publish_error_name (Some TerminalAlreadyQueued) = ''terminal_already_queued''"
| "publish_error_name (Some SingleResponseMustBeTerminal) = ''single_response_must_be_terminal''"
| "publish_error_name (Some ErrorResponseMustBeTerminal) = ''error_response_must_be_terminal''"
| "publish_error_name (Some CancellationResponseRequired) = ''cancellation_response_required''"
| "publish_error_name (Some InvalidJsonUtf8) = ''invalid_json_utf8''"
| "publish_error_name (Some JsonTooLarge) = ''json_too_large''"
| "publish_error_name (Some BinaryTooLarge) = ''binary_too_large''"
| "publish_error_name (Some QueueFull) = ''queue_full''"
| "publish_error_name (Some QueuedBytesExceeded) = ''queued_bytes_exceeded''"

datatype rollback_error = RollbackClosed | RollbackInvalidReceipt | ResponseAlreadyQueued

fun rollback_error_name :: "rollback_error option \<Rightarrow> string" where
  "rollback_error_name None = ''none''"
| "rollback_error_name (Some RollbackClosed) = ''closed''"
| "rollback_error_name (Some RollbackInvalidReceipt) = ''invalid_admission_receipt''"
| "rollback_error_name (Some ResponseAlreadyQueued) = ''response_already_queued''"

datatype cancel_decision = CancelRequested | CancelAlreadyRequested | CancelUnknownTimestamp
  | CancelTerminalQueued | CancelClosed

datatype claim_error = ClaimClosed | ClaimInvalidReceipt | ClaimCancellationRequested | ClaimTerminalQueued

record active_command =
  ac_command :: string
  ac_timestamp :: nat
  ac_cancel_requested :: bool

datatype begin_send_error = BeginClosed | QueueEmpty | SendInProgress

fun begin_send_error_name :: "begin_send_error option \<Rightarrow> string" where
  "begin_send_error_name None = ''none''"
| "begin_send_error_name (Some BeginClosed) = ''closed''"
| "begin_send_error_name (Some QueueEmpty) = ''queue_empty''"
| "begin_send_error_name (Some SendInProgress) = ''send_in_progress''"

datatype send_error = SendClosed | NoActiveLease | LeaseMismatch

fun send_transition_error_name :: "send_error option \<Rightarrow> string" where
  "send_transition_error_name None = ''none''"
| "send_transition_error_name (Some SendClosed) = ''closed''"
| "send_transition_error_name (Some NoActiveLease) = ''no_active_lease''"
| "send_transition_error_name (Some LeaseMismatch) = ''lease_mismatch''"

record send_lease =
  sl_id :: "64 word"
  sl_batch :: outbound_batch

record entry =
  en_command :: string
  en_response_mode :: response_mode
  en_cancel_requested :: bool
  en_claimed :: bool
  en_terminal_queued :: bool
  en_response_queued :: bool
  en_generation :: "64 word"

section \<open>The signal of output\<close>

record output_registry =
  or_observer :: "nat option"
  or_generation :: "64 word"
  or_enabled :: bool

definition new_registry :: output_registry where
  "new_registry = \<lparr>or_observer = None, or_generation = 0, or_enabled = True\<rparr>"

text \<open>\<open>++generation_\<close>, which skips zero.\<close>

definition next_generation :: "64 word \<Rightarrow> 64 word" where
  "next_generation g = (if g + 1 = 0 then 1 else g + 1)"

definition subscribe :: "(nat \<Rightarrow> bool) \<Rightarrow> nat \<Rightarrow> output_registry \<Rightarrow> 64 word \<times> output_registry" where
  "subscribe alive observer r =
    (if \<not> or_enabled r \<or> \<not> alive observer then (0, r)
     else (next_generation (or_generation r),
       r\<lparr>or_generation := next_generation (or_generation r), or_observer := Some observer\<rparr>))"

definition unsubscribe :: "64 word \<Rightarrow> output_registry \<Rightarrow> output_registry" where
  "unsubscribe g r = (if g \<noteq> 0 \<and> g = or_generation r then r\<lparr>or_observer := None\<rparr> else r)"

definition cancel_registry :: "output_registry \<Rightarrow> output_registry" where
  "cancel_registry r = r\<lparr>or_enabled := False, or_observer := None, or_generation := next_generation (or_generation r)\<rparr>"

definition ready_generation :: "output_registry \<Rightarrow> 64 word" where
  "ready_generation r = (if or_enabled r then or_generation r else 0)"

definition lock_observer :: "(nat \<Rightarrow> bool) \<Rightarrow> output_registry \<Rightarrow> nat option" where
  "lock_observer alive r = (case or_observer r of None \<Rightarrow> None | Some observer \<Rightarrow> if alive observer then Some observer else None)"

text \<open>The observer that is called, if any.\<close>

definition notify :: "(nat \<Rightarrow> bool) \<Rightarrow> 64 word \<Rightarrow> output_registry \<Rightarrow> nat option \<times> output_registry" where
  "notify alive g r =
    (if \<not> or_enabled r \<or> g = 0 \<or> g \<noteq> or_generation r then (None, r)
     else case lock_observer alive r of
         None \<Rightarrow> (None, r\<lparr>or_observer := None\<rparr>)
       | Some observer \<Rightarrow> (Some observer, r))"

definition registry_active :: "(nat \<Rightarrow> bool) \<Rightarrow> 64 word \<Rightarrow> output_registry \<Rightarrow> bool" where
  "registry_active alive g r \<longleftrightarrow> or_enabled r \<and> g \<noteq> 0 \<and> g = or_generation r \<and> lock_observer alive r \<noteq> None"

section \<open>Checks\<close>

definition is_continuation :: "nat \<Rightarrow> bool" where
  "is_continuation byte \<longleftrightarrow> byte AND 0xC0 = 0x80"

text \<open>One round of the loop of \<open>is_valid_utf8\<close>: the index after the sequence at \<open>index\<close>.\<close>

definition trigger_sequence :: "string \<Rightarrow> nat \<Rightarrow> nat option" where
  "trigger_sequence s index =
    (let byte = (\<lambda>n. byte_of (s ! (index + n))); first = byte 0 in
     if first \<le> 0x7F then Some (index + 1)
     else if first \<ge> 0xC2 \<and> first \<le> 0xDF then
       (if index + 1 \<ge> length s \<or> \<not> is_continuation (byte 1) then None else Some (index + 2))
     else if first \<ge> 0xE0 \<and> first \<le> 0xEF then
       (if index + 2 \<ge> length s then None
        else if \<not> is_continuation (byte 1) \<or> \<not> is_continuation (byte 2) then None
        else if (first = 0xE0 \<and> byte 1 < 0xA0) \<or> (first = 0xED \<and> byte 1 \<ge> 0xA0) then None
        else Some (index + 3))
     else if first \<ge> 0xF0 \<and> first \<le> 0xF4 then
       (if index + 3 \<ge> length s then None
        else if \<not> is_continuation (byte 1) \<or> \<not> is_continuation (byte 2) \<or> \<not> is_continuation (byte 3) then None
        else if (first = 0xF0 \<and> byte 1 < 0x90) \<or> (first = 0xF4 \<and> byte 1 > 0x8F) then None
        else Some (index + 4))
     else None)"

lemma trigger_sequence_greater: "trigger_sequence s i = Some j \<Longrightarrow> i < j"
  by (auto simp: trigger_sequence_def Let_def split: if_splits)

function trigger_utf8_loop :: "string \<Rightarrow> nat \<Rightarrow> bool" where
  "trigger_utf8_loop s index = (if index < length s then
      (case trigger_sequence s index of None \<Rightarrow> False | Some index' \<Rightarrow> trigger_utf8_loop s index')
    else True)"
  by pat_completeness auto
termination by (relation "measure (\<lambda>(s, index). length s - index)") (auto dest: trigger_sequence_greater)

declare trigger_utf8_loop.simps [simp del]

definition trigger_is_utf8 :: "string \<Rightarrow> bool" where
  "trigger_is_utf8 s = trigger_utf8_loop s 0"

definition is_command_name :: "string \<Rightarrow> bool" where
  "is_command_name s = (case s of [] \<Rightarrow> False
     | c # cs \<Rightarrow> if byte_of c < byte_of CHR ''a'' \<or> byte_of c > byte_of CHR ''z'' then False
       else list_all (\<lambda>c. byte_of c \<ge> byte_of CHR ''a'' \<and> byte_of c \<le> byte_of CHR ''z'' \<or>
         byte_of c \<ge> byte_of CHR ''0'' \<and> byte_of c \<le> byte_of CHR ''9'' \<or> c = CHR ''_'') cs)"

definition checked_size_add :: "nat \<Rightarrow> nat \<Rightarrow> nat option" where
  "checked_size_add left right = (if right > size_max - left then None else Some (left + right))"

definition batch_bytes :: "outbound_batch \<Rightarrow> nat" where
  "batch_bytes batch = (case checked_size_add (length (ob_json batch)) (length (ob_binary batch)) of
     None \<Rightarrow> size_max | Some n \<Rightarrow> n)"

definition validate_session_limits :: "session_limits \<Rightarrow> (string, unit) result" where
  "validate_session_limits limits =
    (if max_in_flight limits = 0 \<or> max_command_bytes limits = 0 \<or> max_config_id_bytes limits = 0 \<or>
        max_request_payload_bytes limits = 0 \<or> max_request_binary_bytes limits = 0 \<or>
        max_response_json_bytes limits = 0 \<or> max_response_binary_bytes limits = 0 \<or>
        max_queued_batches limits = 0 \<or> max_queued_bytes limits = 0 then
       Inl ''trigger session limits must be positive''
     else if max_response_json_bytes limits > max_queued_bytes limits \<or>
        max_response_binary_bytes limits > max_queued_bytes limits then
       Inl ''individual trigger response limits must fit the queued byte budget''
     else Inr ())"

section \<open>State\<close>

text \<open>The counter of session instances: an id, and the counter after it.\<close>

definition allocate_session_instance_id :: "64 word \<Rightarrow> (string, 64 word \<times> 64 word) result" where
  "allocate_session_instance_id current =
    (if current = 0 then Inl ''trigger session instance ids exhausted''
     else Inr (current, if current = - 1 then 0 else current + 1))"

text \<open>The map of the entries is the list of its pairs in the order of the time stamps.\<close>

type_synonym entries = "(nat \<times> entry) list"

definition emplace_entry :: "nat \<Rightarrow> entry \<Rightarrow> entries \<Rightarrow> entries" where
  "emplace_entry timestamp e es = insort_key fst (timestamp, e) es"

definition update_entry :: "nat \<Rightarrow> (entry \<Rightarrow> entry) \<Rightarrow> entries \<Rightarrow> entries" where
  "update_entry timestamp f es = map (\<lambda>(k, e). (k, if k = timestamp then f e else e)) es"

definition erase_entry :: "nat \<Rightarrow> entries \<Rightarrow> entries" where
  "erase_entry timestamp es = filter (\<lambda>(k, e). k \<noteq> timestamp) es"

record trigger_session =
  ts_limits :: session_limits
  ts_instance_id :: "64 word"
  ts_entries :: entries
  ts_outbound :: "outbound_batch list"
  ts_output_ready :: output_registry
  ts_active_lease :: "64 word option"
  ts_next_lease_id :: "64 word"
  ts_queued_bytes :: nat
  ts_accepted :: nat
  ts_admission_rejections :: nat
  ts_rolled_back :: nat
  ts_published :: nat
  ts_publish_rejections :: nat
  ts_popped :: nat
  ts_leases_started :: nat
  ts_send_failures :: nat
  ts_dropped_batches :: nat
  ts_dropped_bytes :: nat
  ts_cancellations :: nat
  ts_backpressure :: nat
  ts_next_generation :: "64 word"
  ts_closed :: bool
  ts_owner_claimed :: bool

text \<open>The constructor; the instance id has been allocated.\<close>

definition make_session :: "session_limits \<Rightarrow> 64 word \<Rightarrow> (string, trigger_session) result" where
  "make_session limits instance_id = bind_result (validate_session_limits limits) (\<lambda>u. Inr
     \<lparr>ts_limits = limits, ts_instance_id = instance_id, ts_entries = [], ts_outbound = [],
      ts_output_ready = new_registry, ts_active_lease = None, ts_next_lease_id = 1, ts_queued_bytes = 0,
      ts_accepted = 0, ts_admission_rejections = 0, ts_rolled_back = 0, ts_published = 0,
      ts_publish_rejections = 0, ts_popped = 0, ts_leases_started = 0, ts_send_failures = 0,
      ts_dropped_batches = 0, ts_dropped_bytes = 0, ts_cancellations = 0, ts_backpressure = 0,
      ts_next_generation = 1, ts_closed = False, ts_owner_claimed = False\<rparr>)"

record session_stats =
  st_accepted :: nat
  st_admission_rejections :: nat
  st_rolled_back :: nat
  st_published :: nat
  st_publish_rejections :: nat
  st_popped :: nat
  st_leases_started :: nat
  st_send_failures :: nat
  st_dropped_batches :: nat
  st_dropped_bytes :: nat
  st_cancellations :: nat
  st_backpressure :: nat
  st_active_correlations :: nat
  st_queued_batches :: nat
  st_queued_bytes :: nat
  st_send_in_progress :: bool
  st_closed :: bool

definition session_stats_of :: "trigger_session \<Rightarrow> session_stats" where
  "session_stats_of s = \<lparr>st_accepted = ts_accepted s, st_admission_rejections = ts_admission_rejections s,
     st_rolled_back = ts_rolled_back s, st_published = ts_published s,
     st_publish_rejections = ts_publish_rejections s, st_popped = ts_popped s,
     st_leases_started = ts_leases_started s, st_send_failures = ts_send_failures s,
     st_dropped_batches = ts_dropped_batches s, st_dropped_bytes = ts_dropped_bytes s,
     st_cancellations = ts_cancellations s, st_backpressure = ts_backpressure s,
     st_active_correlations = length (ts_entries s), st_queued_batches = length (ts_outbound s),
     st_queued_bytes = ts_queued_bytes s, st_send_in_progress = (ts_active_lease s \<noteq> None),
     st_closed = ts_closed s\<rparr>"

section \<open>Operations\<close>

definition find_entry :: "nat \<Rightarrow> trigger_session \<Rightarrow> entry option" where
  "find_entry timestamp s = map_of (ts_entries s) timestamp"

definition modify_entry :: "nat \<Rightarrow> (entry \<Rightarrow> entry) \<Rightarrow> trigger_session \<Rightarrow> trigger_session" where
  "modify_entry timestamp f s = s\<lparr>ts_entries := update_entry timestamp f (ts_entries s)\<rparr>"

definition reject_admission :: "admission_error \<Rightarrow> trigger_session \<Rightarrow> (admission_error, admission_receipt) result \<times> trigger_session" where
  "reject_admission e s = (Inl e, s\<lparr>ts_admission_rejections := ts_admission_rejections s + 1\<rparr>)"

definition admission_check :: "session_limits \<Rightarrow> command_admission \<Rightarrow> admission_error option" where
  "admission_check limits command =
    (if length (ca_command command) > max_command_bytes limits \<or> \<not> is_command_name (ca_command command) then
       Some InvalidCommand
     else if ca_timestamp command > maximum_safe_timestamp then Some InvalidTimestamp
     else if (case ca_config_id command of None \<Rightarrow> False
        | Some config_id \<Rightarrow> length config_id > max_config_id_bytes limits \<or> \<not> trigger_is_utf8 config_id) then
       Some InvalidConfigId
     else if ca_payload_bytes command > max_request_payload_bytes limits then Some RequestPayloadTooLarge
     else if ca_binary_bytes command > max_request_binary_bytes limits then Some RequestBinaryTooLarge
     else None)"

definition admit :: "command_admission \<Rightarrow> trigger_session \<Rightarrow> (admission_error, admission_receipt) result \<times> trigger_session" where
  "admit command s = (case admission_check (ts_limits s) command of
       Some e \<Rightarrow> reject_admission e s
     | None \<Rightarrow>
       if ts_closed s then reject_admission AdmissionClosed s
       else if find_entry (ca_timestamp command) s \<noteq> None then reject_admission DuplicateTimestamp s
       else if length (ts_entries s) \<ge> max_in_flight (ts_limits s) then reject_admission InFlightLimit s
       else if ts_next_generation s = 0 then reject_admission AdmissionGenerationExhausted s
       else (Inr \<lparr>re_owner = ts_instance_id s, re_timestamp = ca_timestamp command, re_generation = ts_next_generation s\<rparr>,
         s\<lparr>ts_next_generation := ts_next_generation s + 1,
           ts_entries := emplace_entry (ca_timestamp command)
             \<lparr>en_command = ca_command command, en_response_mode = ca_response_mode command,
              en_cancel_requested = False, en_claimed = False, en_terminal_queued = False,
              en_response_queued = False, en_generation = ts_next_generation s\<rparr> (ts_entries s),
           ts_accepted := ts_accepted s + 1\<rparr>))"

text \<open>The entry that a receipt stands for: the search that \<open>rollback\<close>, the claim and \<open>publish\<close> share.\<close>

definition receipt_entry :: "admission_receipt \<Rightarrow> trigger_session \<Rightarrow> entry option" where
  "receipt_entry receipt s =
    (if re_owner receipt \<noteq> ts_instance_id s then None
     else case find_entry (re_timestamp receipt) s of
         None \<Rightarrow> None
       | Some e \<Rightarrow> if en_generation e \<noteq> re_generation receipt then None else Some e)"

definition rollback :: "admission_receipt \<Rightarrow> trigger_session \<Rightarrow> rollback_error option \<times> trigger_session" where
  "rollback receipt s =
    (if ts_closed s then (Some RollbackClosed, s)
     else case receipt_entry receipt s of
         None \<Rightarrow> (Some RollbackInvalidReceipt, s)
       | Some e \<Rightarrow>
           if en_response_queued e \<or> en_claimed e then (Some ResponseAlreadyQueued, s)
           else (None, s\<lparr>ts_entries := erase_entry (re_timestamp receipt) (ts_entries s),
             ts_rolled_back := ts_rolled_back s + 1\<rparr>))"

definition request_cancel :: "nat \<Rightarrow> trigger_session \<Rightarrow> cancel_decision \<times> trigger_session" where
  "request_cancel timestamp s =
    (if ts_closed s then (CancelClosed, s)
     else case find_entry timestamp s of
         None \<Rightarrow> (CancelUnknownTimestamp, s)
       | Some e \<Rightarrow>
           if en_terminal_queued e \<or> en_claimed e then (CancelTerminalQueued, s)
           else if en_cancel_requested e then (CancelAlreadyRequested, s)
           else (CancelRequested, (modify_entry timestamp (\<lambda>e. e\<lparr>en_cancel_requested := True\<rparr>) s)
             \<lparr>ts_cancellations := ts_cancellations s + 1\<rparr>))"

definition claim_irrevocable_terminal :: "admission_receipt \<Rightarrow> trigger_session \<Rightarrow> claim_error option \<times> trigger_session" where
  "claim_irrevocable_terminal receipt s =
    (if ts_closed s then (Some ClaimClosed, s)
     else case receipt_entry receipt s of
         None \<Rightarrow> (Some ClaimInvalidReceipt, s)
       | Some e \<Rightarrow>
           if en_terminal_queued e \<or> en_claimed e then (Some ClaimTerminalQueued, s)
           else if en_cancel_requested e then (Some ClaimCancellationRequested, s)
           else (None, modify_entry (re_timestamp receipt) (\<lambda>e. e\<lparr>en_claimed := True\<rparr>) s))"

definition reject_publication :: "publish_error \<Rightarrow> trigger_session \<Rightarrow> publish_error option \<times> 64 word \<times> trigger_session" where
  "reject_publication e s = (Some e, 0, s\<lparr>ts_publish_rejections := ts_publish_rejections s + 1,
     ts_backpressure := ts_backpressure s + (if e = QueueFull \<or> e = QueuedBytesExceeded then 1 else 0)\<rparr>)"

definition publish_payload_check :: "session_limits \<Rightarrow> outbound_batch \<Rightarrow> publish_error option" where
  "publish_payload_check limits batch =
    (if ob_json batch = [] \<or> \<not> trigger_is_utf8 (ob_json batch) then Some InvalidJsonUtf8
     else if length (ob_json batch) > max_response_json_bytes limits then Some JsonTooLarge
     else if length (ob_binary batch) > max_response_binary_bytes limits then Some BinaryTooLarge
     else None)"

definition publish_entry_check :: "entry \<Rightarrow> outbound_batch \<Rightarrow> publish_error option" where
  "publish_entry_check e batch =
    (if en_command e \<noteq> ob_command batch then Some CommandMismatch
     else if en_response_mode e \<noteq> ob_response_mode batch then Some ResponseModeMismatch
     else if en_terminal_queued e then Some TerminalAlreadyQueued
     else if en_response_mode e = SingleResponse \<and> \<not> ob_terminal batch then Some SingleResponseMustBeTerminal
     else if ob_status batch \<noteq> StatusOk \<and> \<not> ob_terminal batch then Some ErrorResponseMustBeTerminal
     else if en_cancel_requested e \<and> ob_status batch \<noteq> StatusCancelled then Some CancellationResponseRequired
     else None)"

definition publish_queue_check :: "outbound_batch \<Rightarrow> trigger_session \<Rightarrow> publish_error option" where
  "publish_queue_check batch s =
    (if length (ts_outbound s) \<ge> max_queued_batches (ts_limits s) then Some QueueFull
     else if batch_bytes batch > max_queued_bytes (ts_limits s) \<or>
        ts_queued_bytes s > max_queued_bytes (ts_limits s) - batch_bytes batch then Some QueuedBytesExceeded
     else None)"

definition enqueue_batch :: "outbound_batch \<Rightarrow> trigger_session \<Rightarrow> trigger_session" where
  "enqueue_batch batch s = (modify_entry (ob_timestamp batch)
       (\<lambda>e. e\<lparr>en_response_queued := True, en_terminal_queued := (ob_terminal batch \<or> en_terminal_queued e)\<rparr>) s)
     \<lparr>ts_outbound := ts_outbound s @ [batch], ts_queued_bytes := ts_queued_bytes s + batch_bytes batch,
      ts_published := ts_published s + 1\<rparr>"

text \<open>The error, and the generation to notify once the mutex is released, 0 for none.\<close>

definition publish :: "admission_receipt \<Rightarrow> outbound_batch \<Rightarrow> trigger_session \<Rightarrow>
    publish_error option \<times> 64 word \<times> trigger_session" where
  "publish receipt batch s = (case publish_payload_check (ts_limits s) batch of
       Some e \<Rightarrow> reject_publication e s
     | None \<Rightarrow>
       if ts_closed s then reject_publication PublishClosed s
       else if re_timestamp receipt \<noteq> ob_timestamp batch then reject_publication PublishInvalidReceipt s
       else case receipt_entry receipt s of
           None \<Rightarrow> reject_publication PublishInvalidReceipt s
         | Some e \<Rightarrow> (case publish_entry_check e batch of
               Some err \<Rightarrow> reject_publication err s
             | None \<Rightarrow> (case publish_queue_check batch s of
                   Some err \<Rightarrow> reject_publication err s
                 | None \<Rightarrow> (None, if ts_outbound s = [] then ready_generation (ts_output_ready s) else 0,
                     enqueue_batch batch s))))"

text \<open>The id of the next lease, and the one after it.\<close>

definition next_lease_id :: "64 word \<Rightarrow> 64 word \<times> 64 word" where
  "next_lease_id current = (current, if current + 1 = 0 then 1 else current + 1)"

definition begin_send :: "trigger_session \<Rightarrow> (begin_send_error, send_lease) result \<times> trigger_session" where
  "begin_send s =
    (if ts_closed s then (Inl BeginClosed, s)
     else if ts_active_lease s \<noteq> None then (Inl SendInProgress, s)
     else case ts_outbound s of
         [] \<Rightarrow> (Inl QueueEmpty, s)
       | batch # _ \<Rightarrow> (let (lease_id, following) = next_lease_id (ts_next_lease_id s) in
           (Inr \<lparr>sl_id = lease_id, sl_batch = batch\<rparr>,
            s\<lparr>ts_next_lease_id := following, ts_active_lease := Some lease_id,
              ts_leases_started := ts_leases_started s + 1\<rparr>)))"

definition lease_check :: "64 word \<Rightarrow> trigger_session \<Rightarrow> send_error option" where
  "lease_check lease_id s =
    (if ts_closed s then Some SendClosed
     else case ts_active_lease s of None \<Rightarrow> Some NoActiveLease
       | Some active \<Rightarrow> if active \<noteq> lease_id then Some LeaseMismatch else None)"

definition complete_send :: "64 word \<Rightarrow> trigger_session \<Rightarrow> send_error option \<times> trigger_session" where
  "complete_send lease_id s = (case lease_check lease_id s of
       Some e \<Rightarrow> (Some e, s)
     | None \<Rightarrow> (let batch = hd (ts_outbound s) in
         (None, s\<lparr>ts_queued_bytes := ts_queued_bytes s - batch_bytes batch,
           ts_entries := (if ob_terminal batch then erase_entry (ob_timestamp batch) (ts_entries s) else ts_entries s),
           ts_outbound := tl (ts_outbound s), ts_active_lease := None, ts_popped := ts_popped s + 1\<rparr>)))"

definition close_locked :: "trigger_session \<Rightarrow> active_command list \<times> trigger_session" where
  "close_locked s =
    (if ts_closed s then ([], s)
     else (map (\<lambda>(timestamp, e). \<lparr>ac_command = en_command e, ac_timestamp = timestamp,
               ac_cancel_requested = en_cancel_requested e\<rparr>)
             (filter (\<lambda>(timestamp, e). \<not> en_terminal_queued e) (ts_entries s)),
       s\<lparr>ts_dropped_batches := ts_dropped_batches s + length (ts_outbound s),
         ts_dropped_bytes := ts_dropped_bytes s + ts_queued_bytes s, ts_closed := True,
         ts_entries := [], ts_outbound := [], ts_queued_bytes := 0, ts_active_lease := None\<rparr>))"

definition cancel_output :: "trigger_session \<Rightarrow> trigger_session" where
  "cancel_output s = s\<lparr>ts_output_ready := cancel_registry (ts_output_ready s)\<rparr>"

definition fail_send :: "64 word \<Rightarrow> trigger_session \<Rightarrow> (send_error, active_command list) result \<times> trigger_session" where
  "fail_send lease_id s = (case lease_check lease_id s of
       Some e \<Rightarrow> (Inl e, s)
     | None \<Rightarrow> (let (active, s') = close_locked (s\<lparr>ts_send_failures := ts_send_failures s + 1\<rparr>) in
         (Inr active, cancel_output s')))"

definition close_session :: "trigger_session \<Rightarrow> active_command list \<times> trigger_session" where
  "close_session s = (let (active, s') = close_locked s in (active, cancel_output s'))"

definition try_claim_execution_owner :: "trigger_session \<Rightarrow> bool \<times> trigger_session" where
  "try_claim_execution_owner s =
    (if ts_closed s \<or> ts_owner_claimed s then (False, s) else (True, s\<lparr>ts_owner_claimed := True\<rparr>))"

definition release_execution_owner :: "trigger_session \<Rightarrow> trigger_session" where
  "release_execution_owner s = s\<lparr>ts_owner_claimed := False\<rparr>"

text \<open>The generation of the subscription, 0 for none, and whether it is to be notified at once.\<close>

definition observe_output_ready :: "(nat \<Rightarrow> bool) \<Rightarrow> nat \<Rightarrow> trigger_session \<Rightarrow> 64 word \<times> bool \<times> trigger_session" where
  "observe_output_ready alive observer s =
    (if ts_closed s then (0, False, s)
     else let (g, registry) = subscribe alive observer (ts_output_ready s) in
       (g, g \<noteq> 0 \<and> ts_outbound s \<noteq> [], s\<lparr>ts_output_ready := registry\<rparr>))"

end
