(* ===== verification/TriggerSession_Invariant.thy ===== *)
theory TriggerSession_Invariant
  imports TriggerSession
begin

text \<open>
  The trigger session as a state machine: its operations as steps, beside a log of what they
  have promised and done, and the invariant of the session and its log.
\<close>

section \<open>The validator accepts UTF-8\<close>

lemma is_continuation_iff: "is_continuation (byte_of c) \<longleftrightarrow> byte_of c div 64 = 2"
  using continuation_iff [of "byte_of c"] by (simp add: is_continuation_def)

lemma three_bytes_range:
  fixes x y z :: nat
  assumes "x < 16" "y < 64" "z < 64"
  shows "(x * 64 + y) * 64 + z < 0x800 \<longleftrightarrow> x = 0 \<and> y < 32"
    "(x * 64 + y) * 64 + z \<ge> 0xd800 \<longleftrightarrow> x > 13 \<or> x = 13 \<and> y \<ge> 32"
    "(x * 64 + y) * 64 + z \<le> 0xdfff \<longleftrightarrow> x < 14"
    "\<not> (x * 64 + y) * 64 + z > 0x10ffff"
proof -
  have sum: "(x * 64 + y) * 64 + z = x * 4096 + y * 64 + z" by simp
  show "(x * 64 + y) * 64 + z < 0x800 \<longleftrightarrow> x = 0 \<and> y < 32"
    unfolding sum using assms by (cases x) (simp_all, linarith)
  consider "x < 13" | "x = 13" | "x > 13" by linarith
  then show "(x * 64 + y) * 64 + z \<ge> 0xd800 \<longleftrightarrow> x > 13 \<or> x = 13 \<and> y \<ge> 32"
    unfolding sum using assms by cases (simp_all, linarith+)
  consider "x < 14" | "x \<ge> 14" by linarith
  then show "(x * 64 + y) * 64 + z \<le> 0xdfff \<longleftrightarrow> x < 14"
    unfolding sum using assms by cases simp_all
  show "\<not> (x * 64 + y) * 64 + z > 0x10ffff" unfolding sum using assms by linarith
qed

lemma four_bytes_range:
  fixes x y z w :: nat
  assumes "x < 5" "y < 64" "z < 64" "w < 64"
  shows "((x * 64 + y) * 64 + z) * 64 + w < 0x10000 \<longleftrightarrow> x = 0 \<and> y < 16"
    "((x * 64 + y) * 64 + z) * 64 + w > 0x10ffff \<longleftrightarrow> x = 4 \<and> y > 15"
proof -
  have sum: "((x * 64 + y) * 64 + z) * 64 + w = x * 262144 + y * 4096 + z * 64 + w" by simp
  show "((x * 64 + y) * 64 + z) * 64 + w < 0x10000 \<longleftrightarrow> x = 0 \<and> y < 16"
    unfolding sum using assms by (cases x) (simp_all, linarith)
  consider "x < 4" | "x = 4" using assms by linarith
  then show "((x * 64 + y) * 64 + z) * 64 + w > 0x10ffff \<longleftrightarrow> x = 4 \<and> y > 15"
    unfolding sum using assms by cases (simp_all, linarith+)
qed

text \<open>A sequence of three and of four bytes, split into the bits that its bytes carry.\<close>

lemma continuation_split: "y < 64 \<Longrightarrow> (128 + y) div 64 = 2" "y < 64 \<Longrightarrow> (128 + y) mod 64 = y" for y :: nat
  using digits64 [of y 2] by simp_all

lemma is_continuation_128: "y < 64 \<Longrightarrow> is_continuation (128 + y)"
  using continuation_iff [of "128 + y"] by (simp add: is_continuation_def continuation_split)

lemma sequence_three:
  assumes "i + 2 < length s" "byte_of (s ! i) = 0xe0 + x" "x < 16"
    "byte_of (s ! Suc i) = 0x80 + y" "y < 64" "byte_of (s ! Suc (Suc i)) = 0x80 + z" "z < 64"
  shows "trigger_sequence s i = (if (x = 0 \<and> y < 32) \<or> (x = 13 \<and> y \<ge> 32) then None else Some (i + 3))"
    "decode_utf8 s i = (if (x = 0 \<and> y < 32) \<or> (x = 13 \<and> y \<ge> 32) then invalid_byte
       else \<lparr>dc_value = (x * 64 + y) * 64 + z, dc_length = 3, dc_valid = True\<rparr>)"
proof -
  have "continuation_bytes s (Suc i) 2 x = Some ((x * 64 + y) * 64 + z)"
  proof -
    have "(2 :: nat) = Suc (Suc 0)" by simp
    then show ?thesis
      using assms by (simp only: continuation_bytes_step continuation_bytes.simps(1)) (simp add: continuation_split)
  qed
  moreover have "(x * 64 + y) * 64 + z < 0x800 \<or> (x * 64 + y) * 64 + z > 0x10ffff \<or>
      ((x * 64 + y) * 64 + z \<ge> 0xd800 \<and> (x * 64 + y) * 64 + z \<le> 0xdfff) \<longleftrightarrow>
      (x = 0 \<and> y < 32) \<or> (x = 13 \<and> y \<ge> 32)"
    using three_bytes_range [OF assms(3,5,7)] by auto
  moreover have "(0xe0 + x) AND 0x0f = x" using assms(3) mod_mult_self1 [of x 14 16] by (simp add: and_low_bits add.commute)
  ultimately show "decode_utf8 s i = (if (x = 0 \<and> y < 32) \<or> (x = 13 \<and> y \<ge> 32) then invalid_byte
       else \<lparr>dc_value = (x * 64 + y) * 64 + z, dc_length = 3, dc_valid = True\<rparr>)"
    using assms by (simp add: decode_utf8_def decode_multi_def)
  show "trigger_sequence s i = (if (x = 0 \<and> y < 32) \<or> (x = 13 \<and> y \<ge> 32) then None else Some (i + 3))"
    using assms by (simp add: trigger_sequence_def is_continuation_128 Let_def)
qed

lemma sequence_four:
  assumes "i + 3 < length s" "byte_of (s ! i) = 0xf0 + x" "x < 5" "byte_of (s ! Suc i) = 0x80 + y" "y < 64"
    "byte_of (s ! Suc (Suc i)) = 0x80 + z" "z < 64" "byte_of (s ! Suc (Suc (Suc i))) = 0x80 + w" "w < 64"
  shows "trigger_sequence s i = (if (x = 0 \<and> y < 16) \<or> (x = 4 \<and> y > 15) then None else Some (i + 4))"
    "decode_utf8 s i = (if (x = 0 \<and> y < 16) \<or> (x = 4 \<and> y > 15) then invalid_byte
       else \<lparr>dc_value = ((x * 64 + y) * 64 + z) * 64 + w, dc_length = 4, dc_valid = True\<rparr>)"
proof -
  let ?v = "((x * 64 + y) * 64 + z) * 64 + w"
  have "continuation_bytes s (Suc i) 3 x = Some ?v"
  proof -
    have "(3 :: nat) = Suc (Suc (Suc 0))" by simp
    then show ?thesis
      using assms by (simp only: continuation_bytes_step continuation_bytes.simps(1)) (simp add: continuation_split)
  qed
  moreover have "(0xf0 + x) AND 0x07 = x" using assms(3) mod_mult_self1 [of x 30 8] by (simp add: and_low_bits add.commute)
  moreover have "\<not> (?v \<ge> 0xd800 \<and> ?v \<le> 0xdfff)" if "\<not> ?v < 0x10000" using that by simp
  ultimately have "decode_utf8 s i = (if ?v < 0x10000 \<or> ?v > 0x10ffff then invalid_byte
       else \<lparr>dc_value = ?v, dc_length = 4, dc_valid = True\<rparr>)"
    using assms by (simp add: decode_utf8_def decode_multi_def)
  then show "decode_utf8 s i = (if (x = 0 \<and> y < 16) \<or> (x = 4 \<and> y > 15) then invalid_byte
       else \<lparr>dc_value = ?v, dc_length = 4, dc_valid = True\<rparr>)"
    unfolding four_bytes_range [OF assms(3,5,7,9)] .
  show "trigger_sequence s i = (if (x = 0 \<and> y < 16) \<or> (x = 4 \<and> y > 15) then None else Some (i + 4))"
    using assms by (simp add: trigger_sequence_def is_continuation_128 numeral_3_eq_3 Let_def)
qed

lemma continuation_byte: "is_continuation (byte_of c) \<Longrightarrow> \<exists>y<64. byte_of c = 0x80 + y"
  using continuation_byte_split [of "byte_of c"] by (intro exI [of _ "byte_of c mod 64"]) (simp add: is_continuation_iff)

lemma trigger_sequence_decode:
  assumes "i < length s"
  shows "trigger_sequence s i = (if dc_valid (decode_utf8 s i) then Some (i + dc_length (decode_utf8 s i)) else None)"
proof -
  let ?b = "byte_of (s ! i)"
  consider "?b \<le> 0x7f" | "0xc2 \<le> ?b" "?b \<le> 0xdf" | "0xe0 \<le> ?b" "?b \<le> 0xef" | "0xf0 \<le> ?b" "?b \<le> 0xf4"
    | "\<not> ?b \<le> 0x7f" "\<not> (0xc2 \<le> ?b \<and> ?b \<le> 0xdf)" "\<not> (0xe0 \<le> ?b \<and> ?b \<le> 0xef)" "\<not> (0xf0 \<le> ?b \<and> ?b \<le> 0xf4)"
    by blast
  then show ?thesis
  proof cases
    case 1
    with assms show ?thesis by (simp add: trigger_sequence_def decode_utf8_def)
  next
    case 2
    then have "2 \<le> ?b mod 32" using lead_byte_split(1) [of ?b] by linarith
    moreover have "?b mod 32 < 32" "byte_of (s ! Suc i) mod 64 < 64" by simp_all
    ultimately have "\<not> ?b mod 32 * 64 + byte_of (s ! Suc i) mod 64 < 128"
      "\<not> ?b mod 32 * 64 + byte_of (s ! Suc i) mod 64 > 0x10ffff" "\<not> ?b mod 32 * 64 + byte_of (s ! Suc i) mod 64 \<ge> 0xd800"
      by linarith+
    with 2 assms show ?thesis
      by (simp add: trigger_sequence_def decode_utf8_def decode_multi_def and_low_bits is_continuation_iff
          continuation_bytes_step invalid_byte_def Let_def)
  next
    case 3
    then obtain x where x: "?b = 0xe0 + x" "x < 16" using le_Suc_ex [OF 3(1)] 3(2) by auto
    show ?thesis
    proof (cases "i + 2 < length s \<and> is_continuation (byte_of (s ! Suc i)) \<and> is_continuation (byte_of (s ! Suc (Suc i)))")
      case True
      then obtain y z where "byte_of (s ! Suc i) = 0x80 + y" "y < 64" "byte_of (s ! Suc (Suc i)) = 0x80 + z" "z < 64"
        using continuation_byte [of "s ! Suc i"] continuation_byte [of "s ! Suc (Suc i)"] by blast
      then show ?thesis using sequence_three [of i s x y z] True x by (simp add: invalid_byte_def)
    next
      case False
      then have "i + 3 > length s \<or> continuation_bytes s (Suc i) 2 (?b AND 0x0f) = None"
        by (auto simp: numeral_2_eq_2 continuation_bytes_step is_continuation_iff)
      then have "\<not> dc_valid (decode_utf8 s i)"
        using 3 assms by (auto simp: decode_utf8_def decode_multi_def invalid_byte_def)
      then show ?thesis using 3 False by (simp add: trigger_sequence_def Let_def)
    qed
  next
    case 4
    then obtain x where x: "?b = 0xf0 + x" "x < 5" using le_Suc_ex [OF 4(1)] 4(2) by auto
    show ?thesis
    proof (cases "i + 3 < length s \<and> is_continuation (byte_of (s ! Suc i)) \<and> is_continuation (byte_of (s ! Suc (Suc i))) \<and>
        is_continuation (byte_of (s ! Suc (Suc (Suc i))))")
      case True
      then obtain y z w where "byte_of (s ! Suc i) = 0x80 + y" "y < 64" "byte_of (s ! Suc (Suc i)) = 0x80 + z" "z < 64"
        "byte_of (s ! Suc (Suc (Suc i))) = 0x80 + w" "w < 64"
        using continuation_byte [of "s ! Suc i"] continuation_byte [of "s ! Suc (Suc i)"]
          continuation_byte [of "s ! Suc (Suc (Suc i))"] by blast
      then show ?thesis using sequence_four [of i s x y z w] True x by (simp add: invalid_byte_def)
    next
      case False
      then have "i + 4 > length s \<or> continuation_bytes s (Suc i) 3 (?b AND 0x07) = None"
        by (auto simp: numeral_3_eq_3 continuation_bytes_step is_continuation_iff)
      then have "\<not> dc_valid (decode_utf8 s i)"
        using 4 assms by (auto simp: decode_utf8_def decode_multi_def invalid_byte_def)
      then show ?thesis using 4 False by (simp add: trigger_sequence_def numeral_2_eq_2 numeral_3_eq_3 Let_def)
    qed
  next
    case 5
    then have "trigger_sequence s i = None" by (simp add: trigger_sequence_def Let_def)
    moreover have "decode_utf8 s i = invalid_byte"
      using 5 assms by (simp add: decode_utf8_def Let_def) blast
    ultimately show ?thesis by (simp add: invalid_byte_def)
  qed
qed

lemma trigger_utf8_loop_iff: "trigger_utf8_loop s i \<longleftrightarrow> valid_utf8 (drop i s)"
proof (induction s i rule: trigger_utf8_loop.induct)
  case (1 s i)
  show ?case
  proof (cases "i < length s")
    case True
    with 1 show ?thesis
      by (subst trigger_utf8_loop.simps) (auto simp: trigger_sequence_decode lexer_decoder.valid_utf8_step)
  qed (simp add: trigger_utf8_loop.simps)
qed

lemma trigger_is_utf8_iff: "trigger_is_utf8 s \<longleftrightarrow> valid_utf8 s"
  by (simp add: trigger_is_utf8_def trigger_utf8_loop_iff)

section \<open>Steps and their log\<close>

datatype trigger_action = DoAdmit command_admission | DoRollback admission_receipt | DoCancel nat
  | DoClaim admission_receipt | DoPublish admission_receipt outbound_batch | DoBeginSend
  | DoCompleteSend "64 word" | DoFailSend "64 word" | DoClose | DoClaimOwner | DoReleaseOwner
  | DoObserve nat | DoUnsubscribe "64 word" | DoNotify "64 word"

text \<open>The session and, by generation, what was admitted, rolled back, cancelled, claimed, published and
  handed over; the batches sent; the signals that are still to be given, and whether the present
  observer has been called since the queue was last empty or since it subscribed.\<close>

record trigger_world =
  tw_session :: trigger_session
  tw_admitted :: "(64 word \<times> command_admission) list"
  tw_rolled_back :: "64 word list"
  tw_cancelled :: "64 word list"
  tw_claimed :: "64 word list"
  tw_published :: "(64 word \<times> outbound_batch) list"
  tw_sent :: "outbound_batch list"
  tw_handed_over :: "(64 word \<times> active_command) list"
  tw_pending :: "64 word list"
  tw_woken :: bool

definition start_world :: "trigger_session \<Rightarrow> trigger_world" where
  "start_world s = \<lparr>tw_session = s, tw_admitted = [], tw_rolled_back = [], tw_cancelled = [], tw_claimed = [],
     tw_published = [], tw_sent = [], tw_handed_over = [], tw_pending = [], tw_woken = False\<rparr>"

definition generation_at :: "nat \<Rightarrow> trigger_session \<Rightarrow> 64 word" where
  "generation_at timestamp s = (case find_entry timestamp s of None \<Rightarrow> 0 | Some e \<Rightarrow> en_generation e)"

definition unanswered :: "trigger_session \<Rightarrow> 64 word list" where
  "unanswered s = map (\<lambda>(timestamp, e). en_generation e) (filter (\<lambda>(timestamp, e). \<not> en_terminal_queued e) (ts_entries s))"

definition signal :: "64 word \<Rightarrow> 64 word list" where
  "signal g = (if g = 0 then [] else [g])"

fun perform :: "(nat \<Rightarrow> bool) \<Rightarrow> trigger_action \<Rightarrow> trigger_world \<Rightarrow> trigger_world option" where
  "perform alive (DoAdmit command) w = Some (let (result, s) = admit command (tw_session w) in
     case result of Inl e \<Rightarrow> w\<lparr>tw_session := s\<rparr>
     | Inr receipt \<Rightarrow> w\<lparr>tw_session := s, tw_admitted := tw_admitted w @ [(re_generation receipt, command)]\<rparr>)"
| "perform alive (DoRollback receipt) w = Some (let (error, s) = rollback receipt (tw_session w) in
     if error \<noteq> None then w\<lparr>tw_session := s\<rparr>
     else w\<lparr>tw_session := s, tw_rolled_back := tw_rolled_back w @ [re_generation receipt]\<rparr>)"
| "perform alive (DoCancel timestamp) w = Some (let (decision, s) = request_cancel timestamp (tw_session w) in
     if decision \<noteq> CancelRequested then w\<lparr>tw_session := s\<rparr>
     else w\<lparr>tw_session := s, tw_cancelled := tw_cancelled w @ [generation_at timestamp s]\<rparr>)"
| "perform alive (DoClaim receipt) w = Some (let (error, s) = claim_irrevocable_terminal receipt (tw_session w) in
     if error \<noteq> None then w\<lparr>tw_session := s\<rparr>
     else w\<lparr>tw_session := s, tw_claimed := tw_claimed w @ [re_generation receipt]\<rparr>)"
| "perform alive (DoPublish receipt batch) w = Some (let (error, ready, s) = publish receipt batch (tw_session w) in
     if error \<noteq> None then w\<lparr>tw_session := s\<rparr>
     else w\<lparr>tw_session := s, tw_published := tw_published w @ [(re_generation receipt, batch)],
       tw_pending := tw_pending w @ signal ready,
       tw_woken := (tw_woken w \<and> ts_outbound (tw_session w) \<noteq> [])\<rparr>)"
| "perform alive DoBeginSend w = Some (w\<lparr>tw_session := snd (begin_send (tw_session w))\<rparr>)"
| "perform alive (DoCompleteSend lease_id) w = Some (let (error, s) = complete_send lease_id (tw_session w) in
     if error \<noteq> None then w\<lparr>tw_session := s\<rparr>
     else w\<lparr>tw_session := s, tw_sent := tw_sent w @ [hd (ts_outbound (tw_session w))]\<rparr>)"
| "perform alive (DoFailSend lease_id) w = Some (let (result, s) = fail_send lease_id (tw_session w) in
     case result of Inl e \<Rightarrow> w\<lparr>tw_session := s\<rparr>
     | Inr active \<Rightarrow> w\<lparr>tw_session := s,
         tw_handed_over := tw_handed_over w @ zip (unanswered (tw_session w)) active\<rparr>)"
| "perform alive DoClose w = Some (let (active, s) = close_session (tw_session w) in
     w\<lparr>tw_session := s, tw_handed_over := tw_handed_over w @ zip (unanswered (tw_session w)) active\<rparr>)"
| "perform alive DoClaimOwner w = Some (w\<lparr>tw_session := snd (try_claim_execution_owner (tw_session w))\<rparr>)"
| "perform alive DoReleaseOwner w = Some (w\<lparr>tw_session := release_execution_owner (tw_session w)\<rparr>)"
| "perform alive (DoObserve observer) w = Some (let (g, ready, s) = observe_output_ready alive observer (tw_session w) in
     w\<lparr>tw_session := s, tw_pending := tw_pending w @ (if ready then signal g else []), tw_woken := (tw_woken w \<and> g = 0)\<rparr>)"
| "perform alive (DoUnsubscribe g) w = Some (w\<lparr>tw_session := (tw_session w)
     \<lparr>ts_output_ready := unsubscribe g (ts_output_ready (tw_session w))\<rparr>\<rparr>)"
| "perform alive (DoNotify g) w =
    (if g \<notin> set (tw_pending w) then None
     else let (observer, registry) = notify alive g (ts_output_ready (tw_session w)) in
       Some (w\<lparr>tw_session := (tw_session w)\<lparr>ts_output_ready := registry\<rparr>, tw_pending := remove1 g (tw_pending w),
         tw_woken := (tw_woken w \<or> observer \<noteq> None)\<rparr>))"

inductive trigger_step :: "trigger_world \<Rightarrow> trigger_world \<Rightarrow> bool" where
  act: "perform alive a w = Some w' \<Longrightarrow> trigger_step w w'"

inductive_cases trigger_stepE: "trigger_step w w'"

definition trigger_start :: "trigger_world \<Rightarrow> bool" where
  "trigger_start w \<longleftrightarrow> (\<exists>limits instance_id s. make_session limits instance_id = Inr s \<and> w = start_world s)"

section \<open>The map of the entries\<close>

lemma map_of_emplace [simp]:
  "timestamp \<notin> fst ` set es \<Longrightarrow> map_of (emplace_entry timestamp e es) = (map_of es)(timestamp \<mapsto> e)"
  unfolding emplace_entry_def by (induction es) (auto simp: fun_eq_iff)

lemma map_of_update [simp]:
  "map_of (update_entry timestamp f es) k = (if k = timestamp then map_option f (map_of es k) else map_of es k)"
  unfolding update_entry_def by (induction es) auto

lemma map_of_erase [simp]: "map_of (erase_entry timestamp es) k = (if k = timestamp then None else map_of es k)"
  unfolding erase_entry_def by (induction es) auto

lemma keys_emplace [simp]: "fst ` set (emplace_entry timestamp e es) = insert timestamp (fst ` set es)"
  by (auto simp: emplace_entry_def set_insort_key)

lemma keys_update [simp]: "map fst (update_entry timestamp f es) = map fst es"
  by (auto simp: update_entry_def)

lemma length_entries [simp]:
  "length (emplace_entry timestamp e es) = length es + 1" "length (update_entry timestamp f es) = length es"
  "length (erase_entry timestamp es) \<le> length es"
  by (simp_all add: emplace_entry_def update_entry_def erase_entry_def)

lemma sorted_emplace:
  "sorted_wrt (<) (map fst es) \<Longrightarrow> timestamp \<notin> fst ` set es \<Longrightarrow> sorted_wrt (<) (map fst (emplace_entry timestamp e es))"
  unfolding emplace_entry_def by (induction es) (auto simp: set_insort_key)

lemma sorted_erase: "sorted_wrt (<) (map fst es) \<Longrightarrow> sorted_wrt (<) (map fst (erase_entry timestamp es))"
  by (auto simp: erase_entry_def sorted_wrt_map intro: sorted_wrt_filter)

lemma find_entry_None: "find_entry timestamp s = None \<longleftrightarrow> timestamp \<notin> fst ` set (ts_entries s)"
  by (simp add: find_entry_def map_of_eq_None_iff)

end
