(* ===== verification/TriggerSession_Correct.thy ===== *)
theory TriggerSession_Correct
  imports TriggerSession_Invariant
begin

text \<open>
  The correctness of the trigger session: its bounds, the protocol of the responses to a command,
  cancellation and claims, the order of sending, what closing hands over, and the signals.
\<close>

section \<open>The invariant\<close>

text \<open>The bounds of the session.\<close>

definition session_ok :: "trigger_session \<Rightarrow> bool" where
  "session_ok s \<longleftrightarrow> sorted_wrt (<) (map fst (ts_entries s)) \<and>
     length (ts_entries s) \<le> max_in_flight (ts_limits s) \<and>
     length (ts_outbound s) \<le> max_queued_batches (ts_limits s) \<and>
     ts_queued_bytes s = sum_list (map batch_bytes (ts_outbound s)) \<and>
     ts_queued_bytes s \<le> max_queued_bytes (ts_limits s) \<and>
     (ts_active_lease s \<noteq> None \<longrightarrow> ts_outbound s \<noteq> []) \<and>
     (ts_closed s \<longrightarrow> ts_entries s = [] \<and> ts_outbound s = [] \<and> ts_active_lease s = None)"

text \<open>The batches published under a generation.\<close>

definition responses :: "64 word \<Rightarrow> (64 word \<times> outbound_batch) list \<Rightarrow> outbound_batch list" where
  "responses g ps = map snd (filter (\<lambda>p. fst p = g) ps)"

lemma responses_append [simp]:
  "responses g [] = []" "responses g (ps @ [(g', b)]) = responses g ps @ (if g' = g then [b] else [])"
  by (simp_all add: responses_def)

lemma responses_empty: "g \<notin> fst ` set ps \<longleftrightarrow> responses g ps = []"
  by (auto simp: responses_def filter_empty_conv)

text \<open>A batch that answers a command.\<close>

definition answers :: "command_admission \<Rightarrow> outbound_batch \<Rightarrow> bool" where
  "answers c b \<longleftrightarrow> ob_command b = ca_command c \<and> ob_timestamp b = ca_timestamp c \<and>
     ob_response_mode b = ca_response_mode c \<and> ob_json b \<noteq> [] \<and> valid_utf8 (ob_json b) \<and>
     (ob_terminal b \<or> ob_status b = StatusOk \<and> ca_response_mode c = StreamResponse)"

definition live_entry :: "trigger_world \<Rightarrow> nat \<Rightarrow> entry option" where
  "live_entry w timestamp = map_of (ts_entries (tw_session w)) timestamp"

definition generations_ok :: "trigger_world \<Rightarrow> bool" where
  "generations_ok w \<longleftrightarrow> sorted_wrt (<) (map fst (tw_admitted w)) \<and>
     (\<forall>g\<in>fst ` set (tw_admitted w). 0 < g \<and>
        (ts_next_generation (tw_session w) = 0 \<or> g < ts_next_generation (tw_session w))) \<and>
     set (tw_rolled_back w) \<union> set (tw_cancelled w) \<union> set (tw_claimed w) \<union> fst ` set (tw_published w) \<union>
       fst ` set (tw_handed_over w) \<subseteq> fst ` set (tw_admitted w) \<and>
     (\<not> ts_closed (tw_session w) \<longrightarrow> tw_handed_over w = [])"

text \<open>An entry belongs to an admitted command, and its flags say what happened to it.\<close>

definition entry_ok :: "trigger_world \<Rightarrow> nat \<Rightarrow> entry \<Rightarrow> bool" where
  "entry_ok w timestamp e \<longleftrightarrow>
     (\<exists>c. (en_generation e, c) \<in> set (tw_admitted w) \<and> ca_timestamp c = timestamp \<and>
        ca_command c = en_command e \<and> ca_response_mode c = en_response_mode e) \<and>
     en_generation e \<notin> set (tw_rolled_back w) \<and>
     (en_cancel_requested e \<longleftrightarrow> en_generation e \<in> set (tw_cancelled w)) \<and>
     (en_claimed e \<longleftrightarrow> en_generation e \<in> set (tw_claimed w)) \<and>
     (en_response_queued e \<longleftrightarrow> responses (en_generation e) (tw_published w) \<noteq> []) \<and>
     (en_terminal_queued e \<longleftrightarrow> list_ex ob_terminal (responses (en_generation e) (tw_published w)))"

definition entries_ok :: "trigger_world \<Rightarrow> bool" where
  "entries_ok w \<longleftrightarrow> (\<forall>timestamp e. live_entry w timestamp = Some e \<longrightarrow> entry_ok w timestamp e)"

text \<open>What was published is what was sent and then what is queued, and a queued batch has its entry.\<close>

definition queue_ok :: "trigger_world \<Rightarrow> bool" where
  "queue_ok w \<longleftrightarrow> (\<exists>dropped. map snd (tw_published w) = tw_sent w @ ts_outbound (tw_session w) @ dropped \<and>
       (\<not> ts_closed (tw_session w) \<longrightarrow> dropped = [])) \<and>
     (\<not> ts_closed (tw_session w) \<longrightarrow> (\<forall>p\<in>set (drop (length (tw_sent w)) (tw_published w)).
        \<exists>e. live_entry w (ob_timestamp (snd p)) = Some e \<and> en_generation e = fst p))"

text \<open>The protocol of the responses to one command, and its fate.\<close>

definition answer_ok :: "trigger_world \<Rightarrow> 64 word \<Rightarrow> command_admission \<Rightarrow> bool" where
  "answer_ok w g c \<longleftrightarrow> (let bs = responses g (tw_published w) in
     list_all (answers c) bs \<and> list_all (\<lambda>b. \<not> ob_terminal b) (butlast bs) \<and>
     (g \<in> set (tw_cancelled w) \<longrightarrow> g \<notin> set (tw_claimed w) \<and>
        list_all (\<lambda>b. ob_terminal b \<longrightarrow> ob_status b = StatusCancelled) bs) \<and>
     (g \<in> set (tw_rolled_back w) \<longrightarrow> bs = [] \<and> g \<notin> set (tw_claimed w)))"

definition is_live :: "trigger_world \<Rightarrow> 64 word \<Rightarrow> command_admission \<Rightarrow> bool" where
  "is_live w g c \<longleftrightarrow> (\<exists>e. live_entry w (ca_timestamp c) = Some e \<and> en_generation e = g)"

definition fate_ok :: "trigger_world \<Rightarrow> 64 word \<Rightarrow> command_admission \<Rightarrow> bool" where
  "fate_ok w g c \<longleftrightarrow>
     (is_live w g c \<or> g \<in> set (tw_rolled_back w) \<or> list_ex ob_terminal (responses g (tw_published w)) \<or>
        g \<in> fst ` set (tw_handed_over w)) \<and>
     (g \<in> fst ` set (tw_handed_over w) \<longrightarrow> g \<notin> set (tw_rolled_back w) \<and>
        \<not> list_ex ob_terminal (responses g (tw_published w)))"

definition commands_ok :: "trigger_world \<Rightarrow> bool" where
  "commands_ok w \<longleftrightarrow> (\<forall>(g, c)\<in>set (tw_admitted w). answer_ok w g c \<and> fate_ok w g c)"

definition world_inv :: "trigger_world \<Rightarrow> bool" where
  "world_inv w \<longleftrightarrow> session_ok (tw_session w) \<and> generations_ok w \<and> entries_ok w \<and> queue_ok w \<and> commands_ok w"

lemmas world_parts = generations_ok_def entries_ok_def entry_ok_def queue_ok_def commands_ok_def answer_ok_def
  fate_ok_def is_live_def live_entry_def

text \<open>Steps that change neither the entries nor the queue nor the log.\<close>

definition world_core :: "trigger_world \<Rightarrow> _" where
  "world_core w = (ts_entries (tw_session w), ts_outbound (tw_session w), ts_closed (tw_session w),
     ts_next_generation (tw_session w), tw_admitted w, tw_rolled_back w, tw_cancelled w, tw_claimed w,
     tw_published w, tw_sent w, tw_handed_over w)"

lemma world_inv_core:
  assumes "world_inv w" "world_core w' = world_core w" "session_ok (tw_session w')"
  shows "world_inv w'"
  using assms unfolding world_inv_def world_core_def world_parts by simp

lemma distinct_generations: "generations_ok w \<Longrightarrow> distinct (map fst (tw_admitted w))"
  by (auto simp: generations_ok_def strict_sorted_iff)

lemma admitted_unique: "generations_ok w \<Longrightarrow> (g, c) \<in> set (tw_admitted w) \<Longrightarrow> (g, d) \<in> set (tw_admitted w) \<Longrightarrow> c = d"
  using distinct_generations eq_key_imp_eq_value by fast

lemma entry_unique:
  assumes "generations_ok w" "entries_ok w" "live_entry w t = Some e" "live_entry w u = Some f" "en_generation e = en_generation f"
  shows "t = u"
proof -
  obtain c d where "(en_generation e, c) \<in> set (tw_admitted w)" "ca_timestamp c = t"
    "(en_generation f, d) \<in> set (tw_admitted w)" "ca_timestamp d = u"
    using assms(2-4) unfolding entries_ok_def entry_ok_def by metis
  then show ?thesis using admitted_unique [OF assms(1)] assms(5) by metis
qed

lemma world_inv_start: "trigger_start w \<Longrightarrow> world_inv w"
  by (auto simp: trigger_start_def start_world_def make_session_def world_inv_def world_parts session_ok_def
      split: if_splits)

section \<open>Its preservation\<close>

lemma world_invD:
  assumes "world_inv w"
  shows "session_ok (tw_session w)" "generations_ok w" "entries_ok w" "queue_ok w" "commands_ok w"
  using assms by (simp_all add: world_inv_def)

lemma word_next_greater: "g + 1 \<noteq> 0 \<Longrightarrow> g < g + 1" for g :: "64 word"
  using unatSuc [of g] by (simp add: word_less_nat_alt add.commute)

lemma fresh_generation:
  assumes "generations_ok w" "ts_next_generation (tw_session w) \<noteq> 0"
  shows "ts_next_generation (tw_session w) \<notin> fst ` set (tw_admitted w)"
    "ts_next_generation (tw_session w) \<notin> set (tw_rolled_back w)"
    "ts_next_generation (tw_session w) \<notin> set (tw_cancelled w)"
    "ts_next_generation (tw_session w) \<notin> set (tw_claimed w)"
    "ts_next_generation (tw_session w) \<notin> fst ` set (tw_handed_over w)"
    "responses (ts_next_generation (tw_session w)) (tw_published w) = []"
  using assms unfolding generations_ok_def responses_empty [symmetric] by blast+

lemma admit_cases:
  assumes "admit command s = (result, s')"
  obtains e where "result = Inl e" "s' = s\<lparr>ts_admission_rejections := ts_admission_rejections s + 1\<rparr>"
  | "\<not> ts_closed s" "find_entry (ca_timestamp command) s = None" "length (ts_entries s) < max_in_flight (ts_limits s)"
    "ts_next_generation s \<noteq> 0" "admission_check (ts_limits s) command = None"
    "result = Inr \<lparr>re_owner = ts_instance_id s, re_timestamp = ca_timestamp command, re_generation = ts_next_generation s\<rparr>"
    "s' = s\<lparr>ts_next_generation := ts_next_generation s + 1,
       ts_entries := emplace_entry (ca_timestamp command)
             \<lparr>en_command = ca_command command, en_response_mode = ca_response_mode command,
              en_cancel_requested = False, en_claimed = False, en_terminal_queued = False,
              en_response_queued = False, en_generation = ts_next_generation s\<rparr> (ts_entries s),
           ts_accepted := ts_accepted s + 1\<rparr>"
  using assms by (auto simp: admit_def reject_admission_def split: option.splits if_splits)

lemma admit_inv:
  assumes inv: "world_inv w" and step: "perform alive (DoAdmit command) w = Some w'"
  shows "world_inv w'"
proof -
  obtain result s' where r: "admit command (tw_session w) = (result, s')" by fastforce
  let ?s = "tw_session w" and ?t = "ca_timestamp command" and ?g = "ts_next_generation (tw_session w)"
  from r show ?thesis
  proof (cases rule: admit_cases)
    case (1 e)
    with r step have "w' = w\<lparr>tw_session := s'\<rparr>" by simp
    with 1 world_invD(1) [OF inv] show ?thesis
      by (intro world_inv_core [OF inv]) (simp_all add: world_core_def session_ok_def)
  next
    case 2
    note gens = world_invD(2) [OF inv]
    note fresh = fresh_generation [OF gens 2(4)]
    have w': "w' = w\<lparr>tw_session := s', tw_admitted := tw_admitted w @ [(?g, command)]\<rparr>" using step r 2(6) by simp
    have t: "?t \<notin> fst ` set (ts_entries ?s)" using 2(2) by (simp add: find_entry_None)
    then have tnone: "live_entry w ?t = None" by (simp add: live_entry_def map_of_eq_None_iff)
    have live: "live_entry w' u = (if u = ?t then Some \<lparr>en_command = ca_command command,
          en_response_mode = ca_response_mode command, en_cancel_requested = False, en_claimed = False,
          en_terminal_queued = False, en_response_queued = False, en_generation = ?g\<rparr> else live_entry w u)" for u
      using t by (simp add: w' 2(7) live_entry_def)
    have "session_ok s'"
      using world_invD(1) [OF inv] 2 t by (auto simp: session_ok_def sorted_emplace)
    moreover have "generations_ok w'"
      using gens 2(1,4) word_next_greater [of ?g]
      by (auto simp: generations_ok_def w' 2(7) sorted_wrt_append word_neq_0_conv [symmetric] dest: order.strict_trans)
    moreover have "entries_ok w'"
      using world_invD(3) [OF inv] fresh unfolding entries_ok_def live
      by (auto simp: entry_ok_def w')
    moreover have "queue_ok w'"
      using world_invD(4) [OF inv] tnone unfolding queue_ok_def live
      by (auto simp: w' 2(7))
    moreover have "commands_ok w'"
      unfolding commands_ok_def
    proof (intro ballI, clarify)
      fix g d assume d: "(g, d) \<in> set (tw_admitted w')"
      then consider "(g, d) \<in> set (tw_admitted w)" "answer_ok w g d" "fate_ok w g d" | "g = ?g" "d = command"
        using world_invD(5) [OF inv] by (auto simp: commands_ok_def w')
      then show "answer_ok w' g d \<and> fate_ok w' g d"
      proof cases
        case 1
        then have "is_live w g d \<Longrightarrow> is_live w' g d" using tnone by (auto simp: is_live_def live)
        with 1 show ?thesis by (auto simp: answer_ok_def fate_ok_def w')
      next
        case 2
        then have "is_live w' g d" by (simp add: is_live_def live)
        with 2 fresh show ?thesis by (simp add: answer_ok_def fate_ok_def w')
      qed
    qed
    ultimately show ?thesis by (simp add: world_inv_def w')
  qed
qed

lemma receipt_entry_Some:
  "receipt_entry receipt s = Some e \<longleftrightarrow> re_owner receipt = ts_instance_id s \<and>
     find_entry (re_timestamp receipt) s = Some e \<and> en_generation e = re_generation receipt"
  by (auto simp: receipt_entry_def split: option.splits)

lemma rollback_inv:
  assumes inv: "world_inv w" and step: "perform alive (DoRollback receipt) w = Some w'"
  shows "world_inv w'"
proof (cases "fst (rollback receipt (tw_session w))")
  case (Some e)
  then have "snd (rollback receipt (tw_session w)) = tw_session w"
    by (auto simp: rollback_def split: if_splits option.splits)
  with Some step have "w' = w" by (auto simp: case_prod_beta)
  with inv show ?thesis by simp
next
  case None
  let ?s = "tw_session w" and ?g = "re_generation receipt" and ?t = "re_timestamp receipt"
  from None obtain e where e: "\<not> ts_closed ?s" "receipt_entry receipt ?s = Some e" "\<not> en_response_queued e" "\<not> en_claimed e"
    by (auto simp: rollback_def split: if_splits option.splits)
  then have w': "w' = w\<lparr>tw_session := ?s\<lparr>ts_entries := erase_entry ?t (ts_entries ?s), ts_rolled_back := ts_rolled_back ?s + 1\<rparr>,
      tw_rolled_back := tw_rolled_back w @ [?g]\<rparr>"
    using step by (simp add: rollback_def)
  have le: "live_entry w ?t = Some e" "en_generation e = ?g"
    using e(2) by (simp_all add: receipt_entry_Some live_entry_def find_entry_def)
  have ok: "entry_ok w ?t e" using world_invD(3) [OF inv] le(1) by (simp add: entries_ok_def)
  have live: "live_entry w' u = (if u = ?t then None else live_entry w u)" for u
    by (simp add: w' live_entry_def)
  have other: "en_generation f \<noteq> ?g" if "live_entry w u = Some f" "u \<noteq> ?t" for u f
    using entry_unique [OF world_invD(2,3) [OF inv] that(1) le(1)] that(2) le(2) by auto
  have none: "responses ?g (tw_published w) = []" "?g \<notin> set (tw_claimed w)" using ok e(3,4) le(2) by (simp_all add: entry_ok_def)
  obtain c where c: "(?g, c) \<in> set (tw_admitted w)" "ca_timestamp c = ?t" using ok le(2) by (auto simp: entry_ok_def)
  have "session_ok (tw_session w')"
    using world_invD(1) [OF inv] e(1) order_trans [OF length_entries(3) [of ?t "ts_entries ?s"]]
    by (simp add: w' session_ok_def sorted_erase)
  moreover have "generations_ok w'"
    using world_invD(2) [OF inv] imageI [OF c(1), of fst] by (simp add: generations_ok_def w')
  moreover have "entries_ok w'"
    using world_invD(3) [OF inv] other unfolding entries_ok_def live by (auto simp: entry_ok_def w')
  moreover have "ob_timestamp (snd p) \<noteq> ?t" if p: "p \<in> set (drop (length (tw_sent w)) (tw_published w))" for p
  proof
    assume t: "ob_timestamp (snd p) = ?t"
    then have "fst p = ?g" using world_invD(4) [OF inv] p e(1) le by (auto simp: queue_ok_def)
    then show False using none(1) imageI [OF in_set_dropD [OF p], of fst] by (simp add: responses_empty [symmetric])
  qed
  then have "queue_ok w'"
    using world_invD(4) [OF inv] unfolding queue_ok_def live by (auto simp: w')
  moreover have "commands_ok w'"
    unfolding commands_ok_def
  proof (intro ballI, clarify)
    fix g d assume d: "(g, d) \<in> set (tw_admitted w')"
    then have "answer_ok w g d" "fate_ok w g d" using world_invD(5) [OF inv] by (auto simp: commands_ok_def w')
    moreover have "is_live w g d \<Longrightarrow> g \<noteq> ?g \<Longrightarrow> is_live w' g d"
      using le by (auto simp: is_live_def live)
    moreover have "tw_handed_over w = []" using world_invD(2) [OF inv] e(1) by (simp add: generations_ok_def)
    ultimately show "answer_ok w' g d \<and> fate_ok w' g d"
      using none by (auto simp: answer_ok_def fate_ok_def w' Let_def)
  qed
  ultimately show ?thesis by (simp add: world_inv_def)
qed

lemma update_entry_Nil [simp]: "update_entry timestamp f [] = []"
  by (simp add: update_entry_def)

text \<open>A request to cancel and a claim set a flag of one entry.\<close>

lemma flag_inv:
  assumes inv: "world_inv w" and s: "s = modify_entry timestamp f (tw_session w)"
    and e: "live_entry w timestamp = Some e" "en_generation (f e) = en_generation e"
    and w': "tw_session w' = s\<lparr>ts_cancellations := n\<rparr>" "tw_admitted w' = tw_admitted w" "tw_rolled_back w' = tw_rolled_back w"
      "tw_published w' = tw_published w" "tw_sent w' = tw_sent w" "tw_handed_over w' = tw_handed_over w"
    and flags: "set (tw_cancelled w') \<subseteq> insert (en_generation e) (set (tw_cancelled w))"
      "set (tw_claimed w') \<subseteq> insert (en_generation e) (set (tw_claimed w))"
      "\<And>g. g \<noteq> en_generation e \<Longrightarrow> g \<in> set (tw_cancelled w') \<longleftrightarrow> g \<in> set (tw_cancelled w)"
      "\<And>g. g \<noteq> en_generation e \<Longrightarrow> g \<in> set (tw_claimed w') \<longleftrightarrow> g \<in> set (tw_claimed w)"
    and entry: "entry_ok w' timestamp (f e)"
    and answer: "\<And>c. (en_generation e, c) \<in> set (tw_admitted w) \<Longrightarrow> answer_ok w (en_generation e) c \<Longrightarrow> answer_ok w' (en_generation e) c"
  shows "world_inv w'"
proof -
  have live: "live_entry w' u = (if u = timestamp then Some (f e) else live_entry w u)" for u
    using e(1) by (simp add: live_entry_def w' s modify_entry_def)
  have other: "en_generation f' \<noteq> en_generation e" if "live_entry w u = Some f'" "u \<noteq> timestamp" for u f'
    using entry_unique [OF world_invD(2,3) [OF inv] that(1) e(1)] that(2) by auto
  have "(en_generation e) \<in> fst ` set (tw_admitted w)"
    using world_invD(3) [OF inv] e(1) by (force simp: entries_ok_def entry_ok_def)
  then have "generations_ok w'"
    using world_invD(2) [OF inv] flags(1,2) by (auto simp: generations_ok_def w' s modify_entry_def)
  moreover have "session_ok (tw_session w')"
    using world_invD(1) [OF inv] by (auto simp: session_ok_def w' s modify_entry_def)
  moreover have "entries_ok w'"
    using world_invD(3) [OF inv] other entry flags(3,4) unfolding entries_ok_def live
    by (auto simp: entry_ok_def w')
  moreover have "queue_ok w'"
    using world_invD(4) [OF inv] e unfolding queue_ok_def live by (fastforce simp: w' s modify_entry_def)
  moreover have "commands_ok w'"
    unfolding commands_ok_def
  proof (intro ballI, clarify)
    fix g d assume d: "(g, d) \<in> set (tw_admitted w')"
    then have ok: "answer_ok w g d" "fate_ok w g d" using world_invD(5) [OF inv] by (auto simp: commands_ok_def w')
    have "answer_ok w' g d"
      using ok(1) answer [of d] d flags(3,4) [of g] by (cases "g = en_generation e") (auto simp: answer_ok_def w')
    moreover have "is_live w g d \<Longrightarrow> is_live w' g d" using e by (auto simp: is_live_def live)
    ultimately show "answer_ok w' g d \<and> fate_ok w' g d" using ok(2) by (auto simp: fate_ok_def w')
  qed
  ultimately show ?thesis by (simp add: world_inv_def)
qed

lemma live_entry_ok: "world_inv w \<Longrightarrow> live_entry w t = Some e \<Longrightarrow> entry_ok w t e"
  by (simp add: world_inv_def entries_ok_def)

lemma cancel_inv:
  assumes inv: "world_inv w" and step: "perform alive (DoCancel timestamp) w = Some w'"
  shows "world_inv w'"
proof (cases "fst (request_cancel timestamp (tw_session w)) = CancelRequested")
  case False
  then have "snd (request_cancel timestamp (tw_session w)) = tw_session w"
    by (auto simp: request_cancel_def split: if_splits option.splits)
  with False step have "w' = w" by (auto simp: case_prod_beta)
  with inv show ?thesis by simp
next
  case True
  let ?s = "tw_session w" and ?f = "\<lambda>e. e\<lparr>en_cancel_requested := True\<rparr>"
  from True obtain e where e: "live_entry w timestamp = Some e" "\<not> en_terminal_queued e" "\<not> en_claimed e" "\<not> ts_closed ?s"
    "\<not> en_cancel_requested e"
    by (auto simp: request_cancel_def live_entry_def find_entry_def split: if_splits option.splits)
  have w': "w' = w\<lparr>tw_session := (modify_entry timestamp ?f ?s)\<lparr>ts_cancellations := ts_cancellations ?s + 1\<rparr>,
      tw_cancelled := tw_cancelled w @ [en_generation e]\<rparr>"
    using step e by (simp add: request_cancel_def live_entry_def find_entry_def generation_at_def modify_entry_def)
  note ok = live_entry_ok [OF inv e(1)]
  show ?thesis
    by (rule flag_inv [OF inv refl e(1), of ?f w']) (use ok e(2,3) in \<open>auto simp: w' entry_ok_def answer_ok_def list_all_iff list_ex_iff Let_def\<close>)
qed

lemma claim_inv:
  assumes inv: "world_inv w" and step: "perform alive (DoClaim receipt) w = Some w'"
  shows "world_inv w'"
proof (cases "fst (claim_irrevocable_terminal receipt (tw_session w))")
  case (Some err)
  then have "snd (claim_irrevocable_terminal receipt (tw_session w)) = tw_session w"
    by (auto simp: claim_irrevocable_terminal_def split: if_splits option.splits)
  with Some step have "w' = w" by (auto simp: case_prod_beta)
  with inv show ?thesis by simp
next
  case None
  let ?s = "tw_session w" and ?f = "\<lambda>e. e\<lparr>en_claimed := True\<rparr>" and ?t = "re_timestamp receipt"
  from None obtain e where e: "receipt_entry receipt ?s = Some e" "\<not> en_terminal_queued e" "\<not> en_cancel_requested e" "\<not> ts_closed ?s"
    "\<not> en_claimed e"
    by (auto simp: claim_irrevocable_terminal_def split: if_splits option.splits)
  then have le: "live_entry w ?t = Some e" "re_generation receipt = en_generation e"
    by (simp_all add: receipt_entry_Some live_entry_def find_entry_def)
  have w': "w' = w\<lparr>tw_session := modify_entry ?t ?f ?s, tw_claimed := tw_claimed w @ [en_generation e]\<rparr>"
    using step e le(2) by (simp add: claim_irrevocable_terminal_def)
  note ok = live_entry_ok [OF inv le(1)]
  show ?thesis
    by (rule flag_inv [OF inv refl le(1), of ?f w' "ts_cancellations ?s"])
      (use ok e(2,3) in \<open>auto simp: w' entry_ok_def answer_ok_def modify_entry_def Let_def\<close>)
qed

lemma publish_rejected:
  assumes "publish receipt batch s = (Some e, ready, s')"
  shows "s' = s\<lparr>ts_publish_rejections := ts_publish_rejections s + 1,
    ts_backpressure := ts_backpressure s + (if e = QueueFull \<or> e = QueuedBytesExceeded then 1 else 0)\<rparr>"
  using assms by (auto simp: publish_def reject_publication_def split: option.splits if_splits)

lemma publish_accepted:
  assumes "publish receipt batch s = (None, ready, s')"
  obtains e where "\<not> ts_closed s" "publish_payload_check (ts_limits s) batch = None"
    "re_timestamp receipt = ob_timestamp batch" "receipt_entry receipt s = Some e"
    "publish_entry_check e batch = None" "publish_queue_check batch s = None" "s' = enqueue_batch batch s"
    "ready = (if ts_outbound s = [] then ready_generation (ts_output_ready s) else 0)"
  using assms by (auto simp: publish_def reject_publication_def split: option.splits if_splits)

lemma publish_inv:
  assumes inv: "world_inv w" and step: "perform alive (DoPublish receipt b) w = Some w'"
  shows "world_inv w'"
proof -
  let ?s = "tw_session w" and ?g = "re_generation receipt" and ?t = "ob_timestamp b"
  obtain err ready s' where p: "publish receipt b ?s = (err, ready, s')" by (cases "publish receipt b ?s") auto
  show ?thesis
  proof (cases err)
    case (Some e)
    with p step have "w' = w\<lparr>tw_session := s'\<rparr>" by simp
    then show ?thesis
      using world_invD(1) [OF inv] publish_rejected [OF p [unfolded Some]]
      by (intro world_inv_core [OF inv]) (simp_all add: world_core_def session_ok_def)
  next
    case None
    from publish_accepted [OF p [unfolded None]] obtain e where e: "\<not> ts_closed ?s"
      "publish_payload_check (ts_limits ?s) b = None" "re_timestamp receipt = ?t" "receipt_entry receipt ?s = Some e"
      "publish_entry_check e b = None" "publish_queue_check b ?s = None" "s' = enqueue_batch b ?s" by metis
    let ?f = "\<lambda>e. e\<lparr>en_response_queued := True, en_terminal_queued := (ob_terminal b \<or> en_terminal_queued e)\<rparr>"
    have w': "tw_session w' = enqueue_batch b ?s" "tw_admitted w' = tw_admitted w" "tw_rolled_back w' = tw_rolled_back w"
      "tw_cancelled w' = tw_cancelled w" "tw_claimed w' = tw_claimed w" "tw_published w' = tw_published w @ [(?g, b)]"
      "tw_sent w' = tw_sent w" "tw_handed_over w' = tw_handed_over w"
      using step p None e(7) by auto
    have le: "live_entry w ?t = Some e" "en_generation e = ?g"
      using e(3,4) by (simp_all add: receipt_entry_Some live_entry_def find_entry_def)
    note ok = live_entry_ok [OF inv le(1)]
    have live: "live_entry w' u = (if u = ?t then Some (?f e) else live_entry w u)" for u
      using le(1) by (simp add: live_entry_def w' enqueue_batch_def modify_entry_def)
    have other: "en_generation f \<noteq> ?g" if "live_entry w u = Some f" "u \<noteq> ?t" for u f
      using entry_unique [OF world_invD(2,3) [OF inv] that(1) le(1)] that(2) le(2) by auto
    obtain c where c: "(?g, c) \<in> set (tw_admitted w)" "ca_timestamp c = ?t" "ca_command c = en_command e"
      "ca_response_mode c = en_response_mode e"
      using ok le(2) by (auto simp: entry_ok_def)
    have open_list: "\<not> list_ex ob_terminal (responses ?g (tw_published w))"
      using ok le(2) e(5) by (simp add: entry_ok_def publish_entry_check_def split: if_splits)
    have answer: "answers c b"
      using e(2,5) c by (cases "en_response_mode e")
        (auto simp: answers_def publish_payload_check_def publish_entry_check_def trigger_is_utf8_iff split: if_splits)
    have "session_ok (tw_session w')"
      using world_invD(1) [OF inv] e(1,6)
      by (auto simp: session_ok_def w' enqueue_batch_def modify_entry_def publish_queue_check_def split: if_splits)
    moreover have "generations_ok w'"
      using world_invD(2) [OF inv] imageI [OF c(1), of fst]
      by (simp add: generations_ok_def w' enqueue_batch_def modify_entry_def)
    moreover have "entries_ok w'"
      unfolding entries_ok_def live
    proof (intro allI impI)
      fix u f assume f: "(if u = ?t then Some (?f e) else live_entry w u) = Some f"
      show "entry_ok w' u f"
      proof (cases "u = ?t")
        case True
        with f have "f = ?f e" by simp
        with ok le(2) show ?thesis unfolding entry_ok_def w' True by (simp add: disj_commute)
      next
        case False
        with f have "entry_ok w u f" "en_generation f \<noteq> ?g" using live_entry_ok [OF inv] other by simp_all
        then show ?thesis by (simp add: entry_ok_def w')
      qed
    qed
    moreover have "queue_ok w'"
    proof -
      have "map snd (tw_published w) = tw_sent w @ ts_outbound ?s" using world_invD(4) [OF inv] e(1) by (auto simp: queue_ok_def)
      moreover from arg_cong [OF this, of length] have "length (tw_sent w) \<le> length (tw_published w)" by simp
      ultimately show ?thesis
        using world_invD(4) [OF inv] le e(1) unfolding queue_ok_def live
        by (auto simp: w' enqueue_batch_def modify_entry_def)
    qed
    moreover have "commands_ok w'"
      unfolding commands_ok_def
    proof (intro ballI, clarify)
      fix g d assume "(g, d) \<in> set (tw_admitted w')"
      then have d: "(g, d) \<in> set (tw_admitted w)" by (simp add: w')
      then have old: "answer_ok w g d" "fate_ok w g d" using world_invD(5) [OF inv] by (auto simp: commands_ok_def)
      have "is_live w g d \<Longrightarrow> is_live w' g d" using le by (auto simp: is_live_def live)
      moreover have "tw_handed_over w = []" using world_invD(2) [OF inv] e(1) by (simp add: generations_ok_def)
      ultimately have "fate_ok w' g d" using old(2) by (auto simp: fate_ok_def w')
      moreover have "answer_ok w' g d"
      proof (cases "g = ?g")
        case True
        then have "d = c" using admitted_unique [OF world_invD(2) [OF inv]] d c(1) by blast
        moreover have "?g \<notin> set (tw_rolled_back w)" "?g \<in> set (tw_cancelled w) \<Longrightarrow> ob_status b = StatusCancelled"
          using ok le(2) e(5) by (auto simp: entry_ok_def publish_entry_check_def split: if_splits)
        ultimately show ?thesis
          using old(1) True answer open_list by (auto simp: answer_ok_def w' list_all_iff list_ex_iff Let_def)
      next
        case False
        then show ?thesis using old(1) by (auto simp: answer_ok_def w' Let_def)
      qed
      ultimately show "answer_ok w' g d \<and> fate_ok w' g d" by blast
    qed
    ultimately show ?thesis by (simp add: world_inv_def)
  qed
qed

lemma terminal_not_last:
  assumes "ps = xs @ (g, b) # ys" "g \<in> fst ` set ys"
  shows "b \<in> set (butlast (responses g ps))"
proof -
  have "responses g ps = responses g xs @ b # responses g ys" by (simp add: assms(1) responses_def)
  moreover have "responses g ys \<noteq> []" using assms(2) responses_empty by blast
  ultimately show ?thesis by (simp add: butlast_append)
qed

lemma complete_inv:
  assumes inv: "world_inv w" and step: "perform alive (DoCompleteSend lease_id) w = Some w'"
  shows "world_inv w'"
proof (cases "lease_check lease_id (tw_session w)")
  case (Some err)
  with step have "w' = w" by (simp add: complete_send_def)
  with inv show ?thesis by simp
next
  case None
  let ?s = "tw_session w" and ?n = "length (tw_sent w)"
  have o: "\<not> ts_closed ?s" "ts_active_lease ?s \<noteq> None" using None by (auto simp: lease_check_def split: if_splits option.splits)
  then obtain b rest where q: "ts_outbound ?s = b # rest" using world_invD(1) [OF inv] by (auto simp: session_ok_def neq_Nil_conv)
  let ?t = "ob_timestamp b"
  let ?es = "if ob_terminal b then erase_entry ?t (ts_entries ?s) else ts_entries ?s"
  have w': "w' = w\<lparr>tw_session := ?s\<lparr>ts_queued_bytes := ts_queued_bytes ?s - batch_bytes b, ts_entries := ?es,
      ts_outbound := rest, ts_active_lease := None, ts_popped := ts_popped ?s + 1\<rparr>, tw_sent := tw_sent w @ [b]\<rparr>"
    using step None q by (simp add: complete_send_def Let_def)
  have published: "map snd (tw_published w) = tw_sent w @ b # rest" using world_invD(4) [OF inv] o(1) q by (auto simp: queue_ok_def)
  from arg_cong [OF this, of "drop ?n"] obtain g ys where ys: "drop ?n (tw_published w) = (g, b) # ys"
    by (auto simp: drop_map map_eq_Cons_conv)
  then have split: "tw_published w = take ?n (tw_published w) @ (g, b) # ys" by (metis append_take_drop_id)
  have entries: "\<exists>e. live_entry w (ob_timestamp (snd p)) = Some e \<and> en_generation e = fst p" if "p \<in> set ((g, b) # ys)" for p
    using world_invD(4) [OF inv] o(1) that unfolding queue_ok_def ys by blast
  then obtain e where e: "live_entry w ?t = Some e" "en_generation e = g" by fastforce
  have live: "live_entry w' u = (if ob_terminal b \<and> u = ?t then None else live_entry w u)" for u
    by (simp add: live_entry_def w')
  obtain c where c: "(g, c) \<in> set (tw_admitted w)" using live_entry_ok [OF inv e(1)] e(2) by (auto simp: entry_ok_def)
  then have answer: "answer_ok w g c" using world_invD(5) [OF inv] by (auto simp: commands_ok_def)
  have rest: "ob_timestamp (snd p) \<noteq> ?t" if p: "p \<in> set ys" "ob_terminal b" for p
  proof
    assume "ob_timestamp (snd p) = ?t"
    then have "fst p = g" using entries [of p] e p(1) by auto
    then have "b \<in> set (butlast (responses g (tw_published w)))"
      using terminal_not_last [OF split] p(1) by force
    then show False using answer p(2) by (auto simp: answer_ok_def list_all_iff Let_def)
  qed
  have "batch_bytes b \<le> ts_queued_bytes ?s" "ts_queued_bytes ?s - batch_bytes b = sum_list (map batch_bytes rest)"
    using world_invD(1) [OF inv] q by (simp_all add: session_ok_def)
  then have "session_ok (tw_session w')"
    using world_invD(1) [OF inv] q o(1) order_trans [OF length_entries(3) [of ?t "ts_entries ?s"]]
    by (simp add: session_ok_def w' sorted_erase)
  moreover have "generations_ok w'" using world_invD(2) [OF inv] by (simp add: generations_ok_def w')
  moreover have "entries_ok w'" using world_invD(3) [OF inv] unfolding entries_ok_def live by (auto simp: entry_ok_def w')
  moreover have "queue_ok w'"
  proof -
    have "drop (Suc ?n) (tw_published w) = ys" using ys by (metis drop_Suc list.sel(3) tl_drop)
    then show ?thesis using published entries rest unfolding queue_ok_def live by (auto simp: w')
  qed
  moreover have "commands_ok w'"
    unfolding commands_ok_def
  proof (intro ballI, clarify)
    fix h d assume "(h, d) \<in> set (tw_admitted w')"
    then have d: "(h, d) \<in> set (tw_admitted w)" by (simp add: w')
    then have old: "answer_ok w h d" "fate_ok w h d" using world_invD(5) [OF inv] by (auto simp: commands_ok_def)
    have "is_live w' h d \<or> list_ex ob_terminal (responses h (tw_published w))" if "is_live w h d"
    proof (cases "ob_terminal b \<and> ca_timestamp d = ?t")
      case True
      then have "h = g" using that e by (auto simp: is_live_def)
      moreover have "b \<in> set (responses g (tw_published w))" by (subst split) (simp add: responses_def)
      ultimately show ?thesis using True by (auto simp: list_ex_iff)
    next
      case False
      then show ?thesis using that by (auto simp: is_live_def live)
    qed
    then show "answer_ok w' h d \<and> fate_ok w' h d"
      using old by (auto simp: answer_ok_def fate_ok_def w')
  qed
  ultimately show ?thesis by (simp add: world_inv_def)
qed

lemma close_inv:
  assumes inv: "world_inv w" and o: "\<not> ts_closed (tw_session w)"
    and w': "ts_entries (tw_session w') = []" "ts_outbound (tw_session w') = []" "ts_closed (tw_session w')"
      "ts_active_lease (tw_session w') = None" "ts_queued_bytes (tw_session w') = 0"
      "ts_next_generation (tw_session w') = ts_next_generation (tw_session w)" "tw_admitted w' = tw_admitted w"
      "tw_rolled_back w' = tw_rolled_back w" "tw_cancelled w' = tw_cancelled w" "tw_claimed w' = tw_claimed w"
      "tw_published w' = tw_published w" "tw_sent w' = tw_sent w"
      "fst ` set (tw_handed_over w') = set (unanswered (tw_session w))"
  shows "world_inv w'"
proof -
  have "sorted_wrt (<) (map fst (ts_entries (tw_session w)))" using world_invD(1) [OF inv] by (simp add: session_ok_def)
  then have distinct: "distinct (map fst (ts_entries (tw_session w)))" by (simp add: strict_sorted_iff)
  have handed: "g \<in> set (unanswered (tw_session w)) \<longleftrightarrow> (\<exists>t e. live_entry w t = Some e \<and> en_generation e = g \<and> \<not> en_terminal_queued e)" for g
    using distinct by (auto simp: unanswered_def live_entry_def image_iff)
  have fate: "g \<notin> set (tw_rolled_back w) \<and> \<not> list_ex ob_terminal (responses g (tw_published w)) \<and> g \<in> fst ` set (tw_admitted w)"
    if "g \<in> set (unanswered (tw_session w))" for g
    using that live_entry_ok [OF inv] unfolding handed by (force simp: entry_ok_def)
  have "session_ok (tw_session w')" by (simp add: session_ok_def w')
  moreover have "generations_ok w'" using world_invD(2) [OF inv] fate by (auto simp: generations_ok_def w')
  moreover have "entries_ok w'" by (simp add: entries_ok_def live_entry_def w')
  moreover have "queue_ok w'" using world_invD(4) [OF inv] o by (auto simp: queue_ok_def w')
  moreover have "commands_ok w'"
    unfolding commands_ok_def
  proof (intro ballI, clarify)
    fix g c assume "(g, c) \<in> set (tw_admitted w')"
    then have c: "(g, c) \<in> set (tw_admitted w)" by (simp add: w')
    then have old: "answer_ok w g c" "fate_ok w g c" using world_invD(5) [OF inv] by (auto simp: commands_ok_def)
    have "list_ex ob_terminal (responses g (tw_published w)) \<or> g \<in> set (unanswered (tw_session w))" if "is_live w g c"
      using that live_entry_ok [OF inv] unfolding is_live_def handed by (auto simp: entry_ok_def)
    moreover have "tw_handed_over w = []" using world_invD(2) [OF inv] o by (simp add: generations_ok_def)
    ultimately show "answer_ok w' g c \<and> fate_ok w' g c"
      using old fate by (auto simp: answer_ok_def fate_ok_def w' Let_def)
  qed
  ultimately show ?thesis by (simp add: world_inv_def)
qed

lemma close_locked_open:
  assumes "\<not> ts_closed s"
  obtains active where "close_locked s = (active,
      s\<lparr>ts_dropped_batches := ts_dropped_batches s + length (ts_outbound s),
         ts_dropped_bytes := ts_dropped_bytes s + ts_queued_bytes s, ts_closed := True,
         ts_entries := [], ts_outbound := [], ts_queued_bytes := 0, ts_active_lease := None\<rparr>)"
    "length active = length (unanswered s)"
  using assms by (simp add: close_locked_def unanswered_def)

lemma handed_over_set: "length active = length gs \<Longrightarrow> fst ` set (zip gs active) = set gs"
  by (metis length_map list.set_map map_fst_zip)

lemma close_session_inv:
  assumes inv: "world_inv w" and step: "perform alive DoClose w = Some w'"
  shows "world_inv w'"
proof (cases "ts_closed (tw_session w)")
  case True
  then have "close_locked (tw_session w) = ([], tw_session w)" by (simp add: close_locked_def)
  with step world_invD(1) [OF inv] show ?thesis
    by (intro world_inv_core [OF inv]) (auto simp: close_session_def cancel_output_def world_core_def session_ok_def)
next
  case False
  obtain active where close: "close_locked (tw_session w) = (active,
      (tw_session w)\<lparr>ts_dropped_batches := ts_dropped_batches (tw_session w) + length (ts_outbound (tw_session w)),
         ts_dropped_bytes := ts_dropped_bytes (tw_session w) + ts_queued_bytes (tw_session w), ts_closed := True,
         ts_entries := [], ts_outbound := [], ts_queued_bytes := 0, ts_active_lease := None\<rparr>)"
    "length active = length (unanswered (tw_session w))"
    by (rule close_locked_open [OF False])
  have "tw_handed_over w = []" using world_invD(2) [OF inv] False by (simp add: generations_ok_def)
  with step have "w' = w\<lparr>tw_session := snd (close_session (tw_session w)),
      tw_handed_over := zip (unanswered (tw_session w)) active\<rparr>" by (simp add: close_session_def close(1))
  then show ?thesis
    by (intro close_inv [OF inv False]) (simp_all add: close_session_def cancel_output_def close(1) handed_over_set [OF close(2)])
qed

lemma fail_send_inv:
  assumes inv: "world_inv w" and step: "perform alive (DoFailSend lease_id) w = Some w'"
  shows "world_inv w'"
proof (cases "lease_check lease_id (tw_session w)")
  case (Some err)
  with step have "w' = w" by (simp add: fail_send_def)
  with inv show ?thesis by simp
next
  case None
  then have o: "\<not> ts_closed (tw_session w)" by (auto simp: lease_check_def split: if_splits)
  let ?s = "(tw_session w)\<lparr>ts_send_failures := ts_send_failures (tw_session w) + 1\<rparr>"
  have "\<not> ts_closed ?s" using o by simp
  from close_locked_open [OF this] obtain active where close: "close_locked ?s = (active,
      ?s\<lparr>ts_dropped_batches := ts_dropped_batches ?s + length (ts_outbound ?s),
         ts_dropped_bytes := ts_dropped_bytes ?s + ts_queued_bytes ?s, ts_closed := True,
         ts_entries := [], ts_outbound := [], ts_queued_bytes := 0, ts_active_lease := None\<rparr>)"
    "length active = length (unanswered ?s)" .
  have "unanswered ?s = unanswered (tw_session w)" by (simp add: unanswered_def)
  with close(2) have same: "length active = length (unanswered (tw_session w))" by simp
  have f: "fail_send lease_id (tw_session w) = (Inr active, cancel_output (?s
      \<lparr>ts_dropped_batches := ts_dropped_batches ?s + length (ts_outbound ?s),
         ts_dropped_bytes := ts_dropped_bytes ?s + ts_queued_bytes ?s, ts_closed := True,
         ts_entries := [], ts_outbound := [], ts_queued_bytes := 0, ts_active_lease := None\<rparr>))"
    by (simp only: fail_send_def None option.case close(1) Let_def prod.case)
  have "tw_handed_over w = []" using world_invD(2) [OF inv] o by (simp add: generations_ok_def)
  with step have "w' = w\<lparr>tw_session := snd (fail_send lease_id (tw_session w)),
      tw_handed_over := zip (unanswered (tw_session w)) active\<rparr>" by (simp add: f)
  then show ?thesis
    by (intro close_inv [OF inv o]) (simp_all add: f cancel_output_def handed_over_set [OF same])
qed

lemma quiet_inv:
  assumes inv: "world_inv w"
    and step: "perform alive a w = Some w'"
    and a: "a \<in> {DoBeginSend, DoClaimOwner, DoReleaseOwner, DoObserve observer, DoUnsubscribe g, DoNotify g}"
  shows "world_inv w'"
proof -
  note ok = world_invD(1) [OF inv]
  have "world_core w' = world_core w \<and> session_ok (tw_session w')"
    using a
  proof (elim insertE emptyE)
    assume "a = DoBeginSend"
    with step have w': "w' = w\<lparr>tw_session := snd (begin_send (tw_session w))\<rparr>" by simp
    show ?thesis using ok unfolding w' by (auto simp: world_core_def session_ok_def begin_send_def Let_def next_lease_id_def split: list.splits)
  next
    assume "a = DoObserve observer"
    with step show ?thesis using ok
      by (cases "observe_output_ready alive observer (tw_session w)")
        (auto simp: world_core_def session_ok_def observe_output_ready_def Let_def split: if_splits prod.splits)
  next
    assume "a = DoNotify g"
    with step show ?thesis using ok
      by (cases "notify alive g (ts_output_ready (tw_session w))") (auto simp: world_core_def session_ok_def split: if_splits)
  next
    assume "a = DoClaimOwner"
    with step have w': "w' = w\<lparr>tw_session := snd (try_claim_execution_owner (tw_session w))\<rparr>" by simp
    show ?thesis using ok unfolding w' by (simp add: world_core_def session_ok_def try_claim_execution_owner_def)
  next
    assume "a = DoReleaseOwner"
    with step have w': "w' = w\<lparr>tw_session := release_execution_owner (tw_session w)\<rparr>" by simp
    show ?thesis using ok unfolding w' by (simp add: world_core_def session_ok_def release_execution_owner_def)
  next
    assume "a = DoUnsubscribe g"
    with step have w': "w' = w\<lparr>tw_session := (tw_session w)\<lparr>ts_output_ready := unsubscribe g (ts_output_ready (tw_session w))\<rparr>\<rparr>"
      by simp
    show ?thesis using ok unfolding w' by (simp add: world_core_def session_ok_def)
  qed
  then show ?thesis using world_inv_core [OF inv] by blast
qed

lemma world_inv_step: "world_inv w \<Longrightarrow> trigger_step w w' \<Longrightarrow> world_inv w'"
proof (elim trigger_stepE)
  fix alive a assume "world_inv w" "perform alive a w = Some w'"
  then show ?thesis
    by (cases a) (blast intro: admit_inv rollback_inv cancel_inv claim_inv publish_inv complete_inv fail_send_inv
        close_session_inv quiet_inv)+
qed

interpretation session_system: invariant_system trigger_start trigger_step world_inv
  by unfold_locales (blast intro: world_inv_start world_inv_step)+

lemma reachable_inv: "trigger_start start \<Longrightarrow> reachable_from trigger_step start w \<Longrightarrow> world_inv w"
  by (rule session_system.inv_reachable)

section \<open>What a client relies on\<close>

text \<open>C30 (trigger_session_bounded): in every reachable state the commands in flight, the queued batches and their
  bytes are within the limits, the byte count is that of the queue, a lease is for a batch of the
  queue, and a closed session holds nothing.\<close>

theorem trigger_session_bounded:
  assumes "trigger_start start" "reachable_from trigger_step start w"
  shows "let s = tw_session w; stats = session_stats_of s in
    st_active_correlations stats \<le> max_in_flight (ts_limits s) \<and>
    st_queued_batches stats \<le> max_queued_batches (ts_limits s) \<and>
    st_queued_bytes stats = sum_list (map batch_bytes (ts_outbound s)) \<and>
    st_queued_bytes stats \<le> max_queued_bytes (ts_limits s) \<and>
    (st_send_in_progress stats \<longrightarrow> ts_outbound s \<noteq> []) \<and>
    (st_closed stats \<longrightarrow> st_active_correlations stats = 0 \<and> st_queued_batches stats = 0 \<and>
       \<not> st_send_in_progress stats)"
  using world_invD(1) [OF reachable_inv [OF assms]] by (simp add: session_ok_def session_stats_of_def Let_def)

text \<open>C10 (trigger_responses): the batches accepted for one admission all answer its command (name, time stamp,
  mode, valid UTF-8); only the last may be terminal, and every other one is a success of a stream;
  once a cancellation is requested, the command cannot be claimed and its terminal batch reports
  the cancellation; and an admission that was rolled back has no response.\<close>

theorem trigger_responses:
  assumes "trigger_start start" "reachable_from trigger_step start w" "(g, c) \<in> set (tw_admitted w)"
  shows "let bs = responses g (tw_published w) in
    list_all (answers c) bs \<and> list_all (\<lambda>b. \<not> ob_terminal b) (butlast bs) \<and>
    (g \<in> set (tw_cancelled w) \<longrightarrow> g \<notin> set (tw_claimed w) \<and>
       list_all (\<lambda>b. ob_terminal b \<longrightarrow> ob_status b = StatusCancelled) bs) \<and>
    (g \<in> set (tw_rolled_back w) \<longrightarrow> bs = [])"
proof -
  have "answer_ok w g c" using world_invD(5) [OF reachable_inv [OF assms(1,2)]] assms(3) by (auto simp: commands_ok_def)
  then show ?thesis by (simp add: answer_ok_def Let_def)
qed

text \<open>An admitted command that has no terminal response yet and is still in the map.\<close>

definition awaits_response :: "trigger_world \<Rightarrow> 64 word \<Rightarrow> command_admission \<Rightarrow> bool" where
  "awaits_response w g c = (case find_entry (ca_timestamp c) (tw_session w) of
     None \<Rightarrow> False | Some e \<Rightarrow> en_generation e = g \<and> \<not> en_terminal_queued e)"

definition exactly_one :: "bool list \<Rightarrow> bool" where
  "exactly_one bs \<longleftrightarrow> length (filter id bs) = 1"



section \<open>Signals\<close>

text \<open>Of the closed flag, the queue, the registry, the signals still to be given and the last flag.\<close>

definition signal_ok :: "bool \<Rightarrow> bool \<Rightarrow> output_registry \<Rightarrow> 64 word list \<Rightarrow> bool \<Rightarrow> bool" where
  "signal_ok is_closed queued r pending woken \<longleftrightarrow> \<not> (is_closed \<and> queued) \<and> (is_closed \<or> or_enabled r) \<and>
     (or_observer r = None \<or> or_generation r \<noteq> 0) \<and>
     (queued \<and> or_observer r \<noteq> None \<longrightarrow> or_generation r \<in> set pending \<or> woken)"

definition signal_inv :: "trigger_world \<Rightarrow> bool" where
  "signal_inv w \<longleftrightarrow> signal_ok (ts_closed (tw_session w)) (ts_outbound (tw_session w) \<noteq> [])
     (ts_output_ready (tw_session w)) (tw_pending w) (tw_woken w)"

definition silent :: "trigger_session \<Rightarrow> trigger_session \<Rightarrow> bool" where
  "silent s s' \<longleftrightarrow> ts_closed s' = ts_closed s \<and> ts_outbound s' = ts_outbound s \<and> ts_output_ready s' = ts_output_ready s"

lemma silent_operations:
  "silent s (snd (admit command s))" "silent s (snd (rollback receipt s))" "silent s (snd (request_cancel timestamp s))"
  "silent s (snd (claim_irrevocable_terminal receipt s))" "silent s (snd (begin_send s))"
  "silent s (snd (try_claim_execution_owner s))" "silent s (release_execution_owner s)"
  by (simp_all add: silent_def admit_def reject_admission_def rollback_def request_cancel_def claim_irrevocable_terminal_def
      begin_send_def try_claim_execution_owner_def release_execution_owner_def modify_entry_def case_prod_beta Let_def
      split: option.split list.split)

lemma signal_inv_silent:
  "signal_inv w \<Longrightarrow> silent (tw_session w) (tw_session w') \<Longrightarrow> tw_pending w' = tw_pending w \<Longrightarrow> tw_woken w' = tw_woken w \<Longrightarrow> signal_inv w'"
  by (simp add: signal_inv_def silent_def)

lemma signal_quiet:
  assumes "signal_inv w" "perform alive a w = Some w'"
    "a \<in> {DoAdmit command, DoRollback receipt, DoCancel timestamp, DoClaim receipt, DoBeginSend, DoClaimOwner, DoReleaseOwner}"
  shows "signal_inv w'"
proof -
  have "w' = the (perform alive a w)" using assms(2) by simp
  then have "silent (tw_session w) (tw_session w') \<and> tw_pending w' = tw_pending w \<and> tw_woken w' = tw_woken w"
    using assms(3) by (elim insertE emptyE) (simp_all add: case_prod_beta Let_def silent_operations split: sum.split)
  then show ?thesis by (blast intro: signal_inv_silent [OF assms(1)])
qed

lemma signal_publish:
  assumes inv: "signal_inv w" and step: "perform alive (DoPublish receipt b) w = Some w'"
  shows "signal_inv w'"
proof -
  obtain err ready s' where p: "publish receipt b (tw_session w) = (err, ready, s')" by (cases "publish receipt b (tw_session w)") auto
  show ?thesis
  proof (cases err)
    case (Some e)
    with p step have "w' = w\<lparr>tw_session := s'\<rparr>" by simp
    then show ?thesis
      using publish_rejected [OF p [unfolded Some]] by (intro signal_inv_silent [OF inv]) (simp_all add: silent_def)
  next
    case None
    from publish_accepted [OF p [unfolded None]] obtain e where e: "\<not> ts_closed (tw_session w)" "s' = enqueue_batch b (tw_session w)"
      "ready = (if ts_outbound (tw_session w) = [] then ready_generation (ts_output_ready (tw_session w)) else 0)" by metis
    have "w' = w\<lparr>tw_session := s', tw_published := tw_published w @ [(re_generation receipt, b)],
       tw_pending := tw_pending w @ signal ready, tw_woken := (tw_woken w \<and> ts_outbound (tw_session w) \<noteq> [])\<rparr>"
      using step p None by simp
    with inv e show ?thesis
      by (auto simp: signal_inv_def signal_ok_def enqueue_batch_def modify_entry_def ready_generation_def signal_def)
  qed
qed

lemma signal_complete:
  assumes inv: "signal_inv w" and step: "perform alive (DoCompleteSend lease_id) w = Some w'"
  shows "signal_inv w'"
proof -
  let ?s' = "snd (complete_send lease_id (tw_session w))"
  have "w' = the (perform alive (DoCompleteSend lease_id) w)" using step by simp
  then have "tw_session w' = ?s'" "tw_pending w' = tw_pending w" "tw_woken w' = tw_woken w"
    by (simp_all add: case_prod_beta Let_def)
  moreover have "ts_closed ?s' = ts_closed (tw_session w)" "ts_output_ready ?s' = ts_output_ready (tw_session w)"
    "ts_outbound ?s' \<noteq> [] \<Longrightarrow> ts_outbound (tw_session w) \<noteq> []"
    by (auto simp: complete_send_def Let_def split: option.splits)
  ultimately show ?thesis using inv by (auto simp: signal_inv_def signal_ok_def)
qed

lemma signal_closed:
  "ts_closed (tw_session w) \<Longrightarrow> ts_outbound (tw_session w) = [] \<Longrightarrow> or_observer (ts_output_ready (tw_session w)) = None \<Longrightarrow> signal_inv w"
  by (simp add: signal_inv_def signal_ok_def)

lemma close_locked_closed:
  "ts_closed s \<Longrightarrow> ts_outbound s = [] \<Longrightarrow> ts_closed (snd (close_locked s)) \<and> ts_outbound (snd (close_locked s)) = []"
  "\<not> ts_closed s \<Longrightarrow> ts_closed (snd (close_locked s)) \<and> ts_outbound (snd (close_locked s)) = []"
  by (simp_all add: close_locked_def)

lemma signal_close:
  assumes inv: "signal_inv w" and step: "perform alive DoClose w = Some w'"
  shows "signal_inv w'"
proof -
  have "ts_closed (tw_session w) \<Longrightarrow> ts_outbound (tw_session w) = []" using inv by (auto simp: signal_inv_def signal_ok_def)
  then have "ts_closed (snd (close_locked (tw_session w))) \<and> ts_outbound (snd (close_locked (tw_session w))) = []"
    using close_locked_closed by blast
  moreover have "w' = the (perform alive DoClose w)" using step by simp
  then have "tw_session w' = cancel_output (snd (close_locked (tw_session w)))"
    by (simp add: close_session_def case_prod_beta Let_def)
  ultimately show ?thesis by (intro signal_closed) (simp_all add: cancel_output_def cancel_registry_def)
qed

lemma signal_fail:
  assumes inv: "signal_inv w" and step: "perform alive (DoFailSend lease_id) w = Some w'"
  shows "signal_inv w'"
proof (cases "lease_check lease_id (tw_session w)")
  case None
  let ?s = "(tw_session w)\<lparr>ts_send_failures := ts_send_failures (tw_session w) + 1\<rparr>"
  have "\<not> ts_closed ?s" using None by (auto simp: lease_check_def split: if_splits)
  then have "ts_closed (snd (close_locked ?s)) \<and> ts_outbound (snd (close_locked ?s)) = []" by (rule close_locked_closed)
  moreover have "w' = the (perform alive (DoFailSend lease_id) w)" using step by simp
  then have "tw_session w' = cancel_output (snd (close_locked ?s))"
    by (simp add: fail_send_def None case_prod_beta Let_def)
  ultimately show ?thesis by (intro signal_closed) (simp_all add: cancel_output_def cancel_registry_def)
next
  case (Some e)
  with step have "w' = w" by (simp add: fail_send_def)
  with inv show ?thesis by simp
qed

lemma next_generation_nonzero [simp]: "next_generation g \<noteq> 0"
  by (simp add: next_generation_def)

lemma signal_observe:
  assumes inv: "signal_inv w" and step: "perform alive (DoObserve observer) w = Some w'"
  shows "signal_inv w'"
proof -
  let ?r = "ts_output_ready (tw_session w)" and ?o = "observe_output_ready alive observer (tw_session w)"
  have w': "w' = the (perform alive (DoObserve observer) w)" using step by simp
  show ?thesis
  proof (cases "ts_closed (tw_session w) \<or> \<not> or_enabled ?r \<or> \<not> alive observer")
    case True
    then have "?o = (0, False, tw_session w)"
      by (auto simp: observe_output_ready_def subscribe_def)
    then have "w' = w" unfolding w' by simp
    with inv show ?thesis by simp
  next
    case False
    let ?g = "next_generation (or_generation ?r)"
    from False have "?o = (?g, ts_outbound (tw_session w) \<noteq> [],
        (tw_session w)\<lparr>ts_output_ready := ?r\<lparr>or_generation := ?g, or_observer := Some observer\<rparr>\<rparr>)"
      by (simp add: observe_output_ready_def subscribe_def)
    then show ?thesis using inv False unfolding w' by (simp add: signal_inv_def signal_ok_def signal_def)
  qed
qed

lemma signal_unsubscribe:
  assumes inv: "signal_inv w" and step: "perform alive (DoUnsubscribe g) w = Some w'"
  shows "signal_inv w'"
proof -
  have w': "w' = the (perform alive (DoUnsubscribe g) w)" using step by simp
  show ?thesis using inv unfolding w' by (simp add: unsubscribe_def signal_inv_def signal_ok_def)
qed

lemma notify_cases:
  "snd (notify alive g r) = r\<lparr>or_observer := None\<rparr> \<or>
   snd (notify alive g r) = r \<and> (or_generation r \<noteq> g \<or> \<not> or_enabled r \<or> or_generation r = 0 \<or> fst (notify alive g r) \<noteq> None)"
  by (auto simp: notify_def split: option.split)

lemma signal_notify:
  assumes inv: "signal_inv w" and step: "perform alive (DoNotify g) w = Some w'"
  shows "signal_inv w'"
proof -
  let ?r = "ts_output_ready (tw_session w)"
  have w': "w' = w\<lparr>tw_session := (tw_session w)\<lparr>ts_output_ready := snd (notify alive g ?r)\<rparr>, tw_pending := remove1 g (tw_pending w),
         tw_woken := (tw_woken w \<or> fst (notify alive g ?r) \<noteq> None)\<rparr>"
    using step by (simp add: case_prod_beta split: if_splits)
  show ?thesis
    using inv notify_cases [of alive g ?r] unfolding w' by (auto simp: signal_inv_def signal_ok_def simp del: not_None_eq)
qed

lemma signal_inv_step: "signal_inv w \<Longrightarrow> trigger_step w w' \<Longrightarrow> signal_inv w'"
proof (elim trigger_stepE)
  fix alive a assume "signal_inv w" "perform alive a w = Some w'"
  then show ?thesis
    by (cases a) (blast intro: signal_quiet signal_publish signal_complete signal_close signal_fail signal_observe
        signal_unsubscribe signal_notify)+
qed

lemma signal_inv_start: "trigger_start w \<Longrightarrow> signal_inv w"
  by (auto simp: trigger_start_def start_world_def make_session_def signal_inv_def signal_ok_def new_registry_def split: if_splits)

interpretation signal_system: invariant_system trigger_start trigger_step signal_inv
  by unfold_locales (blast intro: signal_inv_start signal_inv_step)+

text \<open>C29 (trigger_signal): no signal is lost: while output is queued and an observer is subscribed, the observer
  has been called since the queue was last empty or since it subscribed, or a call for its very
  subscription is still to come.\<close>

theorem trigger_signal:
  assumes "trigger_start start" "reachable_from trigger_step start w"
    "ts_outbound (tw_session w) \<noteq> []" "or_observer (ts_output_ready (tw_session w)) \<noteq> None"
  shows "or_generation (ts_output_ready (tw_session w)) \<in> set (tw_pending w) \<or> tw_woken w"
  using signal_system.inv_reachable [OF assms(1,2)] assms(3,4) by (auto simp: signal_inv_def signal_ok_def)

section \<open>A session\<close>

fun run_trigger :: "trigger_action list \<Rightarrow> trigger_world \<Rightarrow> trigger_world option" where
  "run_trigger [] w = Some w"
| "run_trigger (a # as) w = (case perform (\<lambda>observer. True) a w of None \<Rightarrow> None | Some w' \<Rightarrow> run_trigger as w')"

lemma run_trigger_reachable: "run_trigger as w = Some w' \<Longrightarrow> reachable_from trigger_step v w \<Longrightarrow> reachable_from trigger_step v w'"
proof (induction as arbitrary: w)
  case (Cons a as)
  then obtain u where u: "perform (\<lambda>observer. True) a w = Some u" "run_trigger as u = Some w'" by (auto split: option.splits)
  show ?case by (rule Cons.IH [OF u(2) reachable_from.further [OF Cons.prems(2) trigger_step.act [OF u(1)]]])
qed simp

text \<open>A stream with one partial response, then a cancellation and its terminal response; the first is
  sent, the second is still queued, and a second command has just been admitted.\<close>

definition status_command :: command_admission where
  "status_command = \<lparr>ca_command = ''status'', ca_timestamp = 5, ca_config_id = None, ca_payload_bytes = 0,
     ca_binary_bytes = 0, ca_response_mode = StreamResponse\<rparr>"

definition partial_status :: outbound_batch where
  "partial_status = \<lparr>ob_command = ''status'', ob_timestamp = 5, ob_status = StatusOk, ob_response_mode = StreamResponse,
     ob_terminal = False, ob_json = ''{}'', ob_has_binary = True, ob_binary = [1, 2, 3]\<rparr>"

definition cancelled_status :: outbound_batch where
  "cancelled_status = partial_status\<lparr>ob_status := StatusCancelled, ob_terminal := True, ob_has_binary := False, ob_binary := []\<rparr>"

definition status_receipt :: admission_receipt where
  "status_receipt = \<lparr>re_owner = 7, re_timestamp = 5, re_generation = 1\<rparr>"

definition status_start :: trigger_world where
  "status_start = start_world (case make_session default_session_limits 7 of Inr s \<Rightarrow> s)"

definition status_actions :: "trigger_action list" where
  "status_actions = [DoObserve 1, DoAdmit status_command, DoPublish status_receipt partial_status, DoNotify 1, DoCancel 5,
     DoPublish status_receipt cancelled_status, DoBeginSend, DoCompleteSend 1,
     DoAdmit (status_command\<lparr>ca_timestamp := 6\<rparr>)]"

definition status_world :: trigger_world where
  "status_world = the (run_trigger status_actions status_start)"

lemma status_session: "trigger_start status_start" "reachable_from trigger_step status_start status_world"
proof -
  have "make_session default_session_limits 7 = Inr (case make_session default_session_limits 7 of Inr s \<Rightarrow> s)"
    by (simp add: make_session_def validate_session_limits_def default_session_limits_def)
  then show "trigger_start status_start" unfolding trigger_start_def status_start_def by blast
  have "run_trigger status_actions status_start \<noteq> None" by code_simp
  then have "run_trigger status_actions status_start = Some status_world" by (auto simp: status_world_def)
  then show "reachable_from trigger_step status_start status_world"
    by (rule run_trigger_reachable) (rule reachable_from.here)
qed

lemma trigger_session_bounded_witness:
  "st_queued_batches (session_stats_of (tw_session status_world)) = 1 \<and>
   st_queued_bytes (session_stats_of (tw_session status_world)) \<le> max_queued_bytes (ts_limits (tw_session status_world))"
proof -
  have "st_queued_batches (session_stats_of (tw_session status_world)) = 1" by code_simp
  then show ?thesis using trigger_session_bounded [OF status_session] unfolding Let_def by blast
qed

lemma trigger_responses_witness:
  "list_all (answers status_command) [partial_status, cancelled_status] \<and> 1 \<notin> set (tw_claimed status_world)"
proof -
  have eq: "tw_admitted status_world = [(1, status_command), (2, status_command\<lparr>ca_timestamp := 6\<rparr>)]"
    "responses 1 (tw_published status_world) = [partial_status, cancelled_status]" "tw_cancelled status_world = [1]"
    by code_simp+
  have "(1, status_command) \<in> set (tw_admitted status_world)" by (simp add: eq(1))
  from trigger_responses [OF status_session this] show ?thesis by (simp add: eq(2,3))
qed



lemma trigger_signal_witness: "or_generation (ts_output_ready (tw_session status_world)) = 1 \<and> tw_woken status_world"
proof -
  have "ts_outbound (tw_session status_world) \<noteq> []" "or_observer (ts_output_ready (tw_session status_world)) \<noteq> None"
    "or_generation (ts_output_ready (tw_session status_world)) = 1" "tw_pending status_world = []"
    by code_simp+
  then show ?thesis using trigger_signal [OF status_session] by simp
qed

end
