(* ===== verification/Sha256.thy ===== *)
theory Sha256
  imports Prelude
begin

text \<open>
  The hash of the runtime repository (\<open>Sha256\<close> of
  src/src/runtime/repository/RuntimeRepositoryTreeFormat.h and .cpp): the incremental hasher with
  its buffer of one block, its finish with padding and length, and the hexadecimal digest.
\<close>

type_synonym byte = "8 word"
type_synonym word32 = "32 word"

section \<open>The compression of a block\<close>

definition sha256_constants :: "word32 list" where
  "sha256_constants = concat [
    [0x428a2f98, 0x71374491, 0xb5c0fbcf, 0xe9b5dba5, 0x3956c25b, 0x59f111f1],
    [0x923f82a4, 0xab1c5ed5, 0xd807aa98, 0x12835b01, 0x243185be, 0x550c7dc3],
    [0x72be5d74, 0x80deb1fe, 0x9bdc06a7, 0xc19bf174, 0xe49b69c1, 0xefbe4786],
    [0x0fc19dc6, 0x240ca1cc, 0x2de92c6f, 0x4a7484aa, 0x5cb0a9dc, 0x76f988da],
    [0x983e5152, 0xa831c66d, 0xb00327c8, 0xbf597fc7, 0xc6e00bf3, 0xd5a79147],
    [0x06ca6351, 0x14292967, 0x27b70a85, 0x2e1b2138, 0x4d2c6dfc, 0x53380d13],
    [0x650a7354, 0x766a0abb, 0x81c2c92e, 0x92722c85, 0xa2bfe8a1, 0xa81a664b],
    [0xc24b8b70, 0xc76c51a3, 0xd192e819, 0xd6990624, 0xf40e3585, 0x106aa070],
    [0x19a4c116, 0x1e376c08, 0x2748774c, 0x34b0bcb5, 0x391c0cb3, 0x4ed8aa4a],
    [0x5b9cca4f, 0x682e6ff3, 0x748f82ee, 0x78a5636f, 0x84c87814, 0x8cc70208],
    [0x90befffa, 0xa4506ceb, 0xbef9a3f7, 0xc67178f2]]"

definition initial_state :: "word32 list" where
  "initial_state = [0x6a09e667, 0xbb67ae85, 0x3c6ef372, 0xa54ff53a, 0x510e527f, 0x9b05688c, 0x1f83d9ab, 0x5be0cd19]"

text \<open>The first sixteen words of the schedule are the block, its bytes in big-endian order.\<close>

definition block_word :: "byte list \<Rightarrow> nat \<Rightarrow> word32" where
  "block_word block index = (let offset = index * 4 in
     push_bit 24 (ucast (block ! offset)) OR push_bit 16 (ucast (block ! (offset + 1))) OR
     push_bit 8 (ucast (block ! (offset + 2))) OR ucast (block ! (offset + 3)))"

definition schedule_word :: "word32 list \<Rightarrow> word32" where
  "schedule_word schedule = (let index = length schedule;
       x = schedule ! (index - 15); y = schedule ! (index - 2);
       s0 = word_rotr 7 x XOR word_rotr 18 x XOR drop_bit 3 x;
       s1 = word_rotr 17 y XOR word_rotr 19 y XOR drop_bit 10 y
     in schedule ! (index - 16) + s0 + schedule ! (index - 7) + s1)"

fun extend_schedule :: "nat \<Rightarrow> word32 list \<Rightarrow> word32 list" where
  "extend_schedule 0 schedule = schedule"
| "extend_schedule (Suc n) schedule = extend_schedule n (schedule @ [schedule_word schedule])"

definition schedule_of :: "byte list \<Rightarrow> word32 list" where
  "schedule_of block = extend_schedule 48 (map (block_word block) [0..<16])"

type_synonym registers = "word32 \<times> word32 \<times> word32 \<times> word32 \<times> word32 \<times> word32 \<times> word32 \<times> word32"

fun sha_round :: "word32 \<Rightarrow> word32 \<Rightarrow> registers \<Rightarrow> registers" where
  "sha_round constant scheduled (a, b, c, d, e, f, g, h) =
    (let s1 = word_rotr 6 e XOR word_rotr 11 e XOR word_rotr 25 e;
         t1 = h + s1 + ((e AND f) XOR (NOT e AND g)) + constant + scheduled;
         s0 = word_rotr 2 a XOR word_rotr 13 a XOR word_rotr 22 a;
         t2 = s0 + ((a AND b) XOR (a AND c) XOR (b AND c))
     in (t1 + t2, a, b, c, d + t1, e, f, g))"

definition sha_rounds :: "word32 list \<Rightarrow> registers \<Rightarrow> registers" where
  "sha_rounds schedule r = fold (\<lambda>index. sha_round (sha256_constants ! index) (schedule ! index)) [0..<64] r"

definition transform_state :: "byte list \<Rightarrow> word32 list \<Rightarrow> word32 list" where
  "transform_state block st =
    (let (a, b, c, d, e, f, g, h) = sha_rounds (schedule_of block)
       (st ! 0, st ! 1, st ! 2, st ! 3, st ! 4, st ! 5, st ! 6, st ! 7)
     in [st ! 0 + a, st ! 1 + b, st ! 2 + c, st ! 3 + d, st ! 4 + e, st ! 5 + f, st ! 6 + g, st ! 7 + h])"

section \<open>The hasher\<close>

record sha256 =
  sha_state :: "word32 list"
  sha_block :: "byte list"
  sha_block_size :: nat
  sha_total_bytes :: "64 word"

definition new_sha256 :: sha256 where
  "new_sha256 = \<lparr>sha_state = initial_state, sha_block = replicate 64 0, sha_block_size = 0, sha_total_bytes = 0\<rparr>"

definition put_byte :: "byte \<Rightarrow> sha256 \<Rightarrow> sha256" where
  "put_byte b h = h\<lparr>sha_block := (sha_block h)[sha_block_size h := b], sha_block_size := sha_block_size h + 1\<rparr>"

definition sha_transform :: "sha256 \<Rightarrow> sha256" where
  "sha_transform h = h\<lparr>sha_state := transform_state (sha_block h) (sha_state h)\<rparr>"

definition update_byte :: "byte \<Rightarrow> sha256 \<Rightarrow> sha256" where
  "update_byte b h = (let h1 = put_byte b h; h2 = h1\<lparr>sha_total_bytes := sha_total_bytes h1 + 1\<rparr> in
     if sha_block_size h2 = length (sha_block h2) then (sha_transform h2)\<lparr>sha_block_size := 0\<rparr> else h2)"

definition sha_update :: "byte list \<Rightarrow> sha256 \<Rightarrow> sha256" where
  "sha_update input h = fold update_byte input h"

text \<open>\<open>while (block_size_ < limit)\<close>\<close>

function fill_block :: "nat \<Rightarrow> sha256 \<Rightarrow> sha256" where
  "fill_block limit h = (if sha_block_size h < limit then fill_block limit (put_byte 0 h) else h)"
  by pat_completeness auto
termination by (relation "measure (\<lambda>(limit, h). limit - sha_block_size h)") (auto simp: put_byte_def)

declare fill_block.simps [simp del]

definition length_bytes :: "64 word \<Rightarrow> byte list" where
  "length_bytes bits = map (\<lambda>index. ucast (drop_bit (index * 8) bits)) (rev [0..<8])"

definition word_bytes :: "word32 \<Rightarrow> byte list" where
  "word_bytes w = map (\<lambda>index. ucast (drop_bit ((3 - index) * 8) w)) [0..<4]"

definition sha_finish :: "sha256 \<Rightarrow> byte list" where
  "sha_finish h = (let bits = sha_total_bytes h * 8;
       h1 = put_byte 0x80 h;
       h2 = (if sha_block_size h1 > 56 then (sha_transform (fill_block (length (sha_block h1)) h1))\<lparr>sha_block_size := 0\<rparr> else h1);
       h3 = fill_block 56 h2;
       h4 = sha_transform (h3\<lparr>sha_block := take 56 (sha_block h3) @ length_bytes bits\<rparr>)
     in concat (map word_bytes (sha_state h4)))"

definition hex_digits :: string where "hex_digits = ''0123456789abcdef''"

definition sha256_hex :: "byte list \<Rightarrow> string" where
  "sha256_hex digest = concat (map (\<lambda>b. [hex_digits ! unat (drop_bit 4 b), hex_digits ! unat (b AND 0x0F)]) digest)"

definition sha256_hex_of :: "byte list \<Rightarrow> string" where
  "sha256_hex_of input = sha256_hex (sha_finish (sha_update input new_sha256))"

definition lower_hex :: "string \<Rightarrow> nat \<Rightarrow> bool" where
  "lower_hex s n \<longleftrightarrow> length s = n \<and> list_all (\<lambda>c. (byte_of CHR ''0'' \<le> byte_of c \<and> byte_of c \<le> byte_of CHR ''9'') \<or>
     (byte_of CHR ''a'' \<le> byte_of c \<and> byte_of c \<le> byte_of CHR ''f'')) s"

end
