(* ===== verification/Sha256_Correct.thy ===== *)
theory Sha256_Correct
  imports Sha256
begin

text \<open>
  The hasher computes SHA-256 of all the bytes it was given, however they came: the reference is
  the standard's definition by padding, blocks and compression, and its constants are the roots
  that the standard prescribes.
\<close>

section \<open>The reference\<close>

definition big_endian :: "nat \<Rightarrow> 'a::len word \<Rightarrow> byte list" where
  "big_endian n w = map (\<lambda>i. of_nat (unat w div 256 ^ (n - 1 - i))) [0..<n]"

definition sigma_0 :: "word32 \<Rightarrow> word32" where "sigma_0 x = word_rotr 7 x XOR word_rotr 18 x XOR drop_bit 3 x"
definition sigma_1 :: "word32 \<Rightarrow> word32" where "sigma_1 x = word_rotr 17 x XOR word_rotr 19 x XOR drop_bit 10 x"
definition big_sigma_0 :: "word32 \<Rightarrow> word32" where "big_sigma_0 x = word_rotr 2 x XOR word_rotr 13 x XOR word_rotr 22 x"
definition big_sigma_1 :: "word32 \<Rightarrow> word32" where "big_sigma_1 x = word_rotr 6 x XOR word_rotr 11 x XOR word_rotr 25 x"
definition choice :: "word32 \<Rightarrow> word32 \<Rightarrow> word32 \<Rightarrow> word32" where "choice x y z = (x AND y) XOR (NOT x AND z)"
definition majority :: "word32 \<Rightarrow> word32 \<Rightarrow> word32 \<Rightarrow> word32" where "majority x y z = (x AND y) XOR (x AND z) XOR (y AND z)"

text \<open>The message schedule of a block, as a recursion on the index.\<close>

fun message_schedule :: "byte list \<Rightarrow> nat \<Rightarrow> word32" where
  "message_schedule block t = (if t < 16
     then of_nat (unat (block ! (4 * t))) * 2 ^ 24 + of_nat (unat (block ! (4 * t + 1))) * 2 ^ 16 +
          of_nat (unat (block ! (4 * t + 2))) * 2 ^ 8 + of_nat (unat (block ! (4 * t + 3)))
     else sigma_1 (message_schedule block (t - 2)) + message_schedule block (t - 7) +
          sigma_0 (message_schedule block (t - 15)) + message_schedule block (t - 16))"

declare message_schedule.simps [simp del]

fun compress_round :: "byte list \<Rightarrow> nat \<Rightarrow> word32 list \<Rightarrow> word32 list" where
  "compress_round block t [a, b, c, d, e, f, g, h] =
    (let t1 = h + big_sigma_1 e + choice e f g + sha256_constants ! t + message_schedule block t;
         t2 = big_sigma_0 a + majority a b c
     in [t1 + t2, a, b, c, d + t1, e, f, g])"
| "compress_round block t st = st"

definition compress :: "byte list \<Rightarrow> word32 list \<Rightarrow> word32 list" where
  "compress block st = map2 (+) st (fold (compress_round block) [0..<64] st)"

definition padded :: "byte list \<Rightarrow> byte list" where
  "padded m = m @ [0x80] @ replicate ((119 - length m mod 64) mod 64) 0 @ big_endian 8 (of_nat (8 * length m) :: 64 word)"

fun blocks :: "byte list \<Rightarrow> byte list list" where
  "blocks m = (if m = [] then [] else take 64 m # blocks (drop 64 m))"

declare blocks.simps [simp del]

definition sha256_digest :: "byte list \<Rightarrow> byte list" where
  "sha256_digest m = concat (map (big_endian 4) (fold compress (blocks (padded m)) initial_state))"

text \<open>The constants of the standard: the first 32 bits of the fractional parts of the cube roots of the first
  64 primes, and of the square roots of the first 8.\<close>

definition first_primes :: "nat list" where
  "first_primes = concat [
    [2, 3, 5, 7, 11, 13, 17, 19],
    [23, 29, 31, 37, 41, 43, 47, 53],
    [59, 61, 67, 71, 73, 79, 83, 89],
    [97, 101, 103, 107, 109, 113, 127, 131],
    [137, 139, 149, 151, 157, 163, 167, 173],
    [179, 181, 191, 193, 197, 199, 211, 223],
    [227, 229, 233, 239, 241, 251, 257, 263],
    [269, 271, 277, 281, 283, 293, 307, 311]]"

definition whole_root :: "nat \<Rightarrow> nat \<Rightarrow> nat" where
  "whole_root k p = length (filter (\<lambda>n. n ^ k \<le> p) [1..<20])"

definition root_fraction :: "nat \<Rightarrow> nat \<Rightarrow> word32 \<Rightarrow> bool" where
  "root_fraction k p c \<longleftrightarrow> (whole_root k p * 2 ^ 32 + unat c) ^ k \<le> p * 2 ^ (32 * k) \<and>
     p * 2 ^ (32 * k) < (whole_root k p * 2 ^ 32 + unat c + 1) ^ k"

lemma up_to_20: "[1..<20] = [1, 2, 3, 4, 5, 6, 7, 8, 9, 10, 11, 12, 13, 14, 15, 16, 17, 18, 19 :: nat]"
  by (simp add: upt_rec)

lemma constants_are_roots:
  "list_all2 (root_fraction 3) first_primes sha256_constants"
  "list_all2 (root_fraction 2) (take 8 first_primes) initial_state"
  unfolding sha256_constants_def initial_state_def root_fraction_def whole_root_def up_to_20 first_primes_def
  by simp_all

section \<open>The compression\<close>

lemma block_word_eq:
  assumes "t < 16"
  shows "block_word block t = message_schedule block t"
proof -
  have add: "x OR y = x + y" if "x AND y = 0" for x y :: word32 using that by (simp add: disjunctive_add_eq_or)
  have ucast: "of_nat (unat b) = (ucast b :: word32)" for b :: byte by simp
  let ?a = "ucast (block ! (t * 4)) :: word32" and ?b = "ucast (block ! (t * 4 + 1)) :: word32"
    and ?c = "ucast (block ! (t * 4 + 2)) :: word32" and ?d = "ucast (block ! (t * 4 + 3)) :: word32"
  have bits: "bit (ucast b :: word32) n \<Longrightarrow> n < 8" for b :: byte and n
    by (auto simp: bit_simps dest: bit_imp_le_length)
  have "(push_bit 24 ?a OR push_bit 16 ?b OR push_bit 8 ?c) AND ?d = 0"
    by (rule bit_eqI) (auto simp: bit_push_bit_iff bit_and_iff bit_or_iff dest!: bits)
  moreover have "(push_bit 24 ?a OR push_bit 16 ?b) AND push_bit 8 ?c = 0"
    by (rule bit_eqI) (auto simp: bit_push_bit_iff bit_and_iff bit_or_iff dest!: bits)
  moreover have "push_bit 24 ?a AND push_bit 16 ?b = 0"
    by (rule bit_eqI) (auto simp: bit_push_bit_iff bit_and_iff dest!: bits)
  ultimately have "push_bit 24 ?a OR push_bit 16 ?b OR push_bit 8 ?c OR ?d = push_bit 24 ?a + push_bit 16 ?b + push_bit 8 ?c + ?d"
    by (simp only: add or.assoc [symmetric])
  then show ?thesis
    using assms by (subst message_schedule.simps) (simp add: block_word_def Let_def ucast push_bit_eq_mult mult.commute)
qed

lemma extend_schedule_eq:
  "16 \<le> n \<Longrightarrow> extend_schedule k (map (message_schedule block) [0..<n]) = map (message_schedule block) [0..<n + k]"
proof (induction k arbitrary: n)
  case (Suc k)
  have "schedule_word (map (message_schedule block) [0..<n]) = message_schedule block n"
    using Suc.prems by (subst message_schedule.simps) (simp add: schedule_word_def sigma_0_def sigma_1_def Let_def)
  then show ?case using Suc.IH [of "Suc n"] Suc.prems by simp
qed simp

lemma schedule_of_eq: "schedule_of block = map (message_schedule block) [0..<64]"
proof -
  have "map (block_word block) [0..<16] = map (message_schedule block) [0..<16]" by (intro map_cong) (auto simp: block_word_eq)
  then show ?thesis unfolding schedule_of_def using extend_schedule_eq [of 16 48 block] by (simp only: order_refl) simp
qed

fun register_list :: "registers \<Rightarrow> word32 list" where
  "register_list (a, b, c, d, e, f, g, h) = [a, b, c, d, e, f, g, h]"

lemma registers_exhaust: "\<exists>a b c d e f g h. r = (a, b, c, d, e, f, g, h)" for r :: registers
  by (metis surj_pair)

lemma sha_round_eq:
  "t < 64 \<Longrightarrow> register_list (sha_round (sha256_constants ! t) (schedule_of block ! t) r) = compress_round block t (register_list r)"
  using registers_exhaust [of r] by (auto simp: schedule_of_eq big_sigma_0_def big_sigma_1_def choice_def majority_def Let_def add.assoc)

lemma sha_rounds_eq: "register_list (sha_rounds (schedule_of block) r) = fold (compress_round block) [0..<64] (register_list r)"
proof -
  have "register_list (fold (\<lambda>t. sha_round (sha256_constants ! t) (schedule_of block ! t)) ts r) = fold (compress_round block) ts (register_list r)"
    if "set ts \<subseteq> {0..<64}" for ts
    using that by (induction ts arbitrary: r) (simp_all add: sha_round_eq)
  from this [of "[0..<64]"] show ?thesis by (simp add: sha_rounds_def)
qed

lemma list_of_eight: "length st = 8 \<Longrightarrow> st = [st ! 0, st ! 1, st ! 2, st ! 3, st ! 4, st ! 5, st ! 6, st ! 7]"
  by (intro nth_equalityI) (auto simp: less_Suc_eq numeral_eq_Suc)

lemma transform_state_eq:
  assumes "length st = 8"
  shows "transform_state block st = compress block st" "length (compress block st) = 8"
proof -
  obtain s0 s1 s2 s3 s4 s5 s6 s7 where st: "st = [s0, s1, s2, s3, s4, s5, s6, s7]" using list_of_eight [OF assms] by blast
  obtain a b c d e f g h where r: "sha_rounds (schedule_of block) (s0, s1, s2, s3, s4, s5, s6, s7) = (a, b, c, d, e, f, g, h)"
    using registers_exhaust by blast
  have "fold (compress_round block) [0..<64] st = [a, b, c, d, e, f, g, h]"
    using sha_rounds_eq [of block "(s0, s1, s2, s3, s4, s5, s6, s7)"] unfolding st r register_list.simps by (rule sym)
  then show "transform_state block st = compress block st" "length (compress block st) = 8"
    unfolding transform_state_def compress_def by (simp_all add: st r)
qed

section \<open>Blocks\<close>

lemma blocks_append: "length xs mod 64 = 0 \<Longrightarrow> blocks (xs @ ys) = blocks xs @ blocks ys"
proof (induction xs rule: blocks.induct)
  case (1 xs)
  show ?case
  proof (cases "xs = []")
    case False
    then have "64 \<le> length xs" using 1(2) by (metis length_0_conv mod_less not_le)
    moreover have "length (drop 64 xs) mod 64 = 0" using 1(2) \<open>64 \<le> length xs\<close> by (simp add: le_mod_geq)
    ultimately show ?thesis
      using 1(1) False by (subst (1 2) blocks.simps) simp
  qed (simp add: blocks.simps)
qed

lemma blocks_one: "length xs = 64 \<Longrightarrow> blocks xs = [xs]"
  by (subst blocks.simps) (auto simp: blocks.simps)

section \<open>The hasher\<close>

text \<open>The part of the message in complete blocks, and the rest.\<close>

definition complete :: "byte list \<Rightarrow> byte list" where "complete m = take (64 * (length m div 64)) m"
definition remainder :: "byte list \<Rightarrow> byte list" where "remainder m = drop (64 * (length m div 64)) m"

lemma complete_remainder: "complete m @ remainder m = m" "length (complete m) mod 64 = 0" "length (remainder m) = length m mod 64"
  using div_mult_mod_eq [of "length m" 64] by (simp_all add: complete_def remainder_def minus_mult_div_eq_mod)

definition hashes :: "sha256 \<Rightarrow> byte list \<Rightarrow> bool" where
  "hashes h m \<longleftrightarrow> sha_state h = fold compress (blocks (complete m)) initial_state \<and> length (sha_state h) = 8 \<and>
     length (sha_block h) = 64 \<and> sha_block_size h = length m mod 64 \<and>
     take (length m mod 64) (sha_block h) = remainder m \<and> sha_total_bytes h = of_nat (length m)"

lemma hashes_new: "hashes new_sha256 []"
  by (simp add: hashes_def new_sha256_def complete_def remainder_def blocks.simps initial_state_def)

lemma complete_snoc:
  "length m mod 64 = 63 \<Longrightarrow> complete (m @ [b]) = m @ [b] \<and> remainder (m @ [b]) = []"
  "length m mod 64 \<noteq> 63 \<Longrightarrow> complete (m @ [b]) = complete m \<and> remainder (m @ [b]) = remainder m @ [b]"
  by (auto simp: complete_def remainder_def div_Suc mod_Suc)

lemma hashes_update_byte:
  assumes "hashes h m"
  shows "hashes (update_byte b h) (m @ [b])"
proof -
  note h = assms [unfolded hashes_def]
  have len: "length (fold compress (blocks (complete m)) initial_state) = 8" using h by metis
  let ?n = "length m mod 64"
  have n: "?n < 64" by simp
  let ?block = "(sha_block h)[?n := b]"
  have block: "take (Suc ?n) ?block = remainder m @ [b]"
    using h n by (simp add: take_Suc_conv_app_nth)
  show ?thesis
  proof (cases "?n = 63")
    case True
    then have b64: "?block = remainder m @ [b]" using block h by simp
    have "m @ [b] = complete m @ ?block" using complete_remainder(1) [of m] by (simp add: b64)
    then have "blocks (m @ [b]) = blocks (complete m) @ [?block]"
      using blocks_append [OF complete_remainder(2)] blocks_one [of ?block] h by simp
    moreover have "Suc (length m) mod 64 = 0" using True by (simp add: mod_Suc)
    moreover have "length (sha_state h) = 8" using h by blast
    note transform_state_eq [OF this, of ?block]
    ultimately show ?thesis
      using True h complete_snoc(1) [OF True]
      by (simp add: hashes_def update_byte_def put_byte_def sha_transform_def)
  next
    case False
    then have "Suc (length m) mod 64 = Suc ?n" using n by (simp add: mod_Suc)
    then show ?thesis
      using False n h len complete_snoc(2) [OF False] block
      by (simp add: hashes_def update_byte_def put_byte_def)
  qed
qed

lemma hashes_update: "hashes h m \<Longrightarrow> hashes (sha_update input h) (m @ input)"
proof (induction input arbitrary: h m)
  case (Cons b input)
  from Cons.IH [OF hashes_update_byte [OF Cons.prems]] show ?case by (simp add: sha_update_def)
qed (simp add: sha_update_def)

lemma fill_block_eq:
  "sha_block_size h \<le> limit \<Longrightarrow> limit \<le> length (sha_block h) \<Longrightarrow>
   fill_block limit h = h\<lparr>sha_block := take (sha_block_size h) (sha_block h) @ replicate (limit - sha_block_size h) 0 @
     drop limit (sha_block h), sha_block_size := limit\<rparr>"
proof (induction limit h rule: fill_block.induct)
  case (1 limit h)
  show ?case
  proof (cases "sha_block_size h < limit")
    case True
    then have "limit - sha_block_size h = Suc (limit - Suc (sha_block_size h))" by simp
    with True 1 show ?thesis
      by (subst fill_block.simps) (simp add: put_byte_def take_Suc_conv_app_nth)
  next
    case False
    then have "sha_block_size h = limit" using 1(2) by simp
    with False show ?thesis by (subst fill_block.simps) simp
  qed
qed

lemma byte_of_drop_bit: "ucast (drop_bit (k * 8) w) = (of_nat (unat w div 256 ^ k) :: byte)" for w :: "'a::len word"
proof -
  have "unat (drop_bit (k * 8) w) = unat w div 256 ^ k"
    unfolding unat_drop_bit_eq by (simp add: drop_bit_eq_div power_mult mult.commute [of k])
  then show ?thesis by (metis of_nat_unat)
qed

lemma length_bytes_eq: "length_bytes w = big_endian 8 w"
proof -
  have "rev [0..<8] = map (\<lambda>i. 8 - 1 - i) [0..<8]" by (simp add: upt_rec)
  then show ?thesis by (simp add: length_bytes_def big_endian_def byte_of_drop_bit o_def)
qed

lemma word_bytes_eq: "word_bytes w = big_endian 4 w"
  by (simp add: word_bytes_def big_endian_def byte_of_drop_bit)

lemma length_big_endian [simp]: "length (big_endian n w) = n"
  by (simp add: big_endian_def)

lemma finish_block:
  assumes "sha_block_size h \<le> 56" "length (sha_block h) = 64" "length (sha_state h) = 8"
  shows "sha_state (sha_transform ((fill_block 56 h)\<lparr>sha_block := take 56 (sha_block (fill_block 56 h)) @ length_bytes bits\<rparr>)) =
    compress (take (sha_block_size h) (sha_block h) @ replicate (56 - sha_block_size h) 0 @ big_endian 8 bits) (sha_state h)"
  using assms by (simp add: fill_block_eq sha_transform_def transform_state_eq length_bytes_eq)

lemma hashes_finish:
  assumes "hashes h m"
  shows "sha_finish h = sha256_digest m"
proof -
  note h = assms [unfolded hashes_def]
  let ?n = "length m mod 64" and ?bits = "sha_total_bytes h * 8"
  let ?h1 = "put_byte 0x80 h" and ?len = "big_endian 8 ?bits"
  have n: "?n < 64" by simp
  have len: "length (sha_state h) = 8" using h by blast
  have bits: "?len = big_endian 8 (of_nat (8 * length m) :: 64 word)" using h by (simp add: mult.commute)
  have h1: "sha_block_size ?h1 = Suc ?n" "length (sha_block ?h1) = 64" "sha_state ?h1 = sha_state h"
    "take (Suc ?n) (sha_block ?h1) = remainder m @ [0x80]"
    using h n by (simp_all add: put_byte_def take_Suc_conv_app_nth)
  have pad: "padded m = complete m @ (remainder m @ [0x80] @ replicate ((119 - ?n) mod 64) 0 @ ?len)"
    using complete_remainder(1) [of m] unfolding padded_def bits by (metis append.assoc)
  have digest: "sha256_digest m = concat (map word_bytes (fold compress (blocks (remainder m @ [0x80] @
      replicate ((119 - ?n) mod 64) 0 @ ?len)) (sha_state h)))"
    unfolding sha256_digest_def pad blocks_append [OF complete_remainder(2)] using h by (simp add: word_bytes_eq [abs_def])
  show ?thesis
  proof (cases "Suc ?n \<le> 56")
    case True
    have "(119 - ?n) mod 64 = 55 - ?n" using True by (simp add: le_mod_geq)
    moreover have "length (remainder m @ [0x80] @ replicate (55 - ?n) 0 @ ?len) = 64"
      using True complete_remainder(3) [of m] by simp
    ultimately show ?thesis
      using True h1 len finish_block [of ?h1 ?bits] unfolding digest
      by (simp add: sha_finish_def Let_def blocks_one)
  next
    case False
    let ?first = "remainder m @ [0x80] @ replicate (63 - ?n) 0" and ?second = "replicate 56 0 @ ?len"
    let ?h2 = "(sha_transform (fill_block 64 ?h1))\<lparr>sha_block_size := 0\<rparr>"
    have eq: "(119 - ?n) mod 64 = (63 - ?n) + 56" using False n by simp
    have zeros: "remainder m @ [0x80] @ replicate ((119 - ?n) mod 64) 0 @ ?len = ?first @ ?second"
      by (simp only: eq replicate_add append.assoc)
    have first: "length ?first = 64" using complete_remainder(3) [of m] n False by simp
    have fill: "fill_block 64 ?h1 = ?h1\<lparr>sha_block := ?first, sha_block_size := 64\<rparr>"
      using fill_block_eq [of ?h1 64] h1 n by simp
    then have h2: "sha_state ?h2 = compress ?first (sha_state h)" "length (sha_block ?h2) = 64" "length (sha_state ?h2) = 8"
      "sha_block_size ?h2 = 0"
      using transform_state_eq [OF len, of ?first] first h1(3) by (simp_all add: sha_transform_def)
    have "blocks (?first @ ?second) = [?first, ?second]"
      using blocks_append [of ?first ?second] blocks_one [OF first] blocks_one [of ?second] first by simp
    then show ?thesis
      using False h1 finish_block [of ?h2 ?bits] h2 unfolding digest zeros
      by (simp add: sha_finish_def Let_def)
  qed
qed

section \<open>What a client relies on\<close>

lemma hex_digit_lower: "k < 16 \<Longrightarrow> lower_hex [hex_digits ! k] 1"
  by (auto simp: lower_hex_def hex_digits_def byte_of_def less_Suc_eq numeral_eq_Suc)

lemma nibbles: "unat (drop_bit 4 b) < 16" "unat (b AND 0x0F) < 16" for b :: "8 word"
proof -
  have "unat b < 256" using unsigned_less [where w = b and 'a = nat] by simp
  then show "unat (drop_bit 4 b) < 16" unfolding unat_drop_bit_eq by (simp add: drop_bit_eq_div)
  show "unat (b AND 0x0F) < 16" using word_and_le1 [of b "0x0F"] by (simp add: word_le_nat_alt)
qed

lemma lower_hex_append: "lower_hex a m \<Longrightarrow> lower_hex b n \<Longrightarrow> lower_hex (a @ b) (m + n)"
  by (simp add: lower_hex_def)

lemma sha256_hex_lower: "lower_hex (sha256_hex bs) (2 * length bs)"
proof (induction bs)
  case (Cons b bs)
  note digits = nibbles [of b, THEN hex_digit_lower]
  have "sha256_hex (b # bs) = ([hex_digits ! unat (drop_bit 4 b)] @ [hex_digits ! unat (b AND 0x0F)]) @ sha256_hex bs"
    by (simp only: sha256_hex_def list.map concat.simps append.simps)
  then show ?case
    using lower_hex_append [OF lower_hex_append [OF digits] Cons.IH] by simp
qed (simp add: sha256_hex_def lower_hex_def)

lemma compress_length: "length (compress block st) = length st"
proof -
  have round: "length (compress_round block t st) = length st" for t st
    by (cases "(block, t, st)" rule: compress_round.cases) (simp_all add: Let_def)
  have "length (fold (compress_round block) ts st) = length st" for ts
    by (induction ts arbitrary: st) (simp_all add: round)
  then show ?thesis by (simp add: compress_def)
qed

lemma compress_fold_length: "length (fold compress bs st) = length st"
  by (induction bs arbitrary: st) (simp_all add: compress_length)

lemma sha256_digest_length: "length (sha256_digest m) = 32"
proof -
  have "length (fold compress (blocks (padded m)) initial_state) = 8"
    by (simp add: compress_fold_length initial_state_def)
  then show ?thesis by (simp add: sha256_digest_def length_concat o_def sum_list_triv)
qed

lemma hashes_parts: "hashes h m \<Longrightarrow> hashes (fold sha_update parts h) (m @ concat parts)"
proof (induction parts arbitrary: h m)
  case (Cons part parts)
  then show ?case using Cons.IH [OF hashes_update [OF Cons.prems, of part]] by simp
qed simp

text \<open>C21 (sha256_stream): fed the parts of a message in any division, the hasher returns the SHA-256 digest of
  the message, in the byte order of the standard; its hexadecimal form is 64 lower-case digits; and its tables
  are those of the standard, the fractional bits of the roots of the first primes.\<close>

theorem sha256_stream:
  "sha_finish (fold sha_update parts new_sha256) = sha256_digest (concat parts) \<and>
   lower_hex (sha256_hex (sha_finish (fold sha_update parts new_sha256))) 64 \<and>
   list_all2 (root_fraction 3) first_primes sha256_constants \<and>
   list_all2 (root_fraction 2) (take 8 first_primes) initial_state"
proof -
  have digest: "sha_finish (fold sha_update parts new_sha256) = sha256_digest (concat parts)"
    using hashes_finish [OF hashes_parts [OF hashes_new]] by simp
  show ?thesis
    using sha256_hex_lower [of "sha256_digest (concat parts)"] by (simp add: digest sha256_digest_length constants_are_roots)
qed

end
