(* ===== verification/TreePath.thy ===== *)
theory TreePath
  imports Utf8
begin

text \<open>
  The paths of a tree manifest (\<open>portable_path_key\<close> of
  src/src/runtime/repository/RuntimeRepositoryTreeFormat.cpp): a path is accepted when it names the
  same file on every platform, and its key identifies the paths that a platform without case
  would confuse.  A size is a natural number; the sizes are those of strings in memory.
\<close>

section \<open>Limits and errors\<close>

record tree_limits =
  max_entries :: nat
  max_file_bytes :: nat
  max_total_bytes :: nat
  max_relative_path_bytes :: nat
  max_relative_path_depth :: nat

definition default_tree_limits :: tree_limits where
  "default_tree_limits = \<lparr>max_entries = 16383, max_file_bytes = 256 * 1024 * 1024,
     max_total_bytes = 2 * 1024 * 1024 * 1024, max_relative_path_bytes = 1024, max_relative_path_depth = 32\<rparr>"

text \<open>\<open>OutOfFuel\<close> is not an error of the code: it is the value of a loop of the model that was given too few rounds.\<close>

datatype tree_error = TreeFormatError string | OutOfFuel

type_synonym 'a tree_result = "(tree_error, 'a) result"

abbreviation invalid :: "string \<Rightarrow> 'a tree_result" where
  "invalid message \<equiv> Inl (TreeFormatError message)"

section \<open>The code points of a component\<close>

text \<open>The bits of the lead byte and the width of the sequence.\<close>

definition lead_byte :: "nat \<Rightarrow> (nat \<times> nat) option" where
  "lead_byte first =
     (if first < 0x80 then Some (first, 1)
      else if first \<ge> 0xc2 \<and> first \<le> 0xdf then Some (first AND 0x1f, 2)
      else if first \<ge> 0xe0 \<and> first \<le> 0xef then Some (first AND 0x0f, 3)
      else if first \<ge> 0xf0 \<and> first \<le> 0xf4 then Some (first AND 0x07, 4)
      else None)"

definition path_code_point :: "string \<Rightarrow> nat \<Rightarrow> (nat \<times> nat) tree_result" where
  "path_code_point component offset =
     (case lead_byte (byte_of (component ! offset)) of
        None \<Rightarrow> invalid ''manifest entry path is not valid UTF-8''
      | Some (codepoint, width) \<Rightarrow>
          if offset + width > length component then invalid ''manifest entry path is not valid UTF-8''
          else case continuation_bytes component (Suc offset) (width - 1) codepoint of
              None \<Rightarrow> invalid ''manifest entry path is not valid UTF-8''
            | Some v \<Rightarrow> Inr (v, width))"

definition overlong :: "nat \<Rightarrow> nat \<Rightarrow> bool" where
  "overlong codepoint width \<longleftrightarrow> (width = 2 \<and> codepoint < 0x80) \<or> (width = 3 \<and> codepoint < 0x800) \<or>
     (width = 4 \<and> codepoint < 0x10000)"

definition combining :: "nat \<Rightarrow> bool" where
  "combining v \<longleftrightarrow> (v \<ge> 0x0300 \<and> v \<le> 0x036f) \<or> (v \<ge> 0x1ab0 \<and> v \<le> 0x1aff) \<or> (v \<ge> 0x1dc0 \<and> v \<le> 0x1dff) \<or>
     (v \<ge> 0x20d0 \<and> v \<le> 0x20ff) \<or> (v \<ge> 0xfe20 \<and> v \<le> 0xfe2f) \<or> v = 0x3099 \<or> v = 0x309a \<or>
     (v \<ge> 0x1100 \<and> v \<le> 0x11ff) \<or> (v \<ge> 0xa960 \<and> v \<le> 0xa97f) \<or> (v \<ge> 0xd7b0 \<and> v \<le> 0xd7ff)"

definition refused_code_point :: "nat \<Rightarrow> nat \<Rightarrow> bool" where
  "refused_code_point v width \<longleftrightarrow> overlong v width \<or> v > 0x10ffff \<or> (v \<ge> 0xd800 \<and> v \<le> 0xdfff) \<or>
     v = 0x85 \<or> v = 0x2028 \<or> v = 0x2029 \<or> (v \<ge> 0x7f \<and> v \<le> 0x9f) \<or> (v \<ge> 0xfdd0 \<and> v \<le> 0xfdef) \<or>
     v AND 0xffff = 0xfffe \<or> v AND 0xffff = 0xffff \<or> combining v"

definition non_portable_character :: "char \<Rightarrow> bool" where
  "non_portable_character c \<longleftrightarrow> byte_of c < 0x20 \<or> c = CHR ''<'' \<or> c = CHR ''>'' \<or> c = CHR 0x22 \<or>
     c = CHR ''|'' \<or> c = CHR ''?'' \<or> c = CHR ''*''"

definition fold_case :: "char \<Rightarrow> char" where
  "fold_case c = (if byte_of CHR ''A'' \<le> byte_of c \<and> byte_of c \<le> byte_of CHR ''Z'' then char_of (byte_of c + 32) else c)"

lemma lead_byte_width: "lead_byte first = Some (codepoint, width) \<Longrightarrow> 0 < width"
  by (auto simp: lead_byte_def split: if_splits)

lemma path_code_point_width:
  "path_code_point component offset = Inr (v, width) \<Longrightarrow> 0 < width \<and> offset + width \<le> length component"
  by (auto simp: path_code_point_def dest: lead_byte_width split: option.splits if_splits)

text \<open>The loop over a component.\<close>

function fold_component :: "string \<Rightarrow> nat \<Rightarrow> string \<Rightarrow> string tree_result" where
  "fold_component component offset folded =
     (if offset < length component then
        bind_result (path_code_point component offset) (\<lambda>(codepoint, width).
          if refused_code_point codepoint width
            then invalid ''manifest entry path is not portable normalized UTF-8''
          else if width = 1 then
            (if non_portable_character (component ! offset)
               then invalid ''manifest entry path contains a non-portable character''
             else fold_component component (offset + width) (folded @ [fold_case (component ! offset)]))
          else fold_component component (offset + width) (folded @ take width (drop offset component)))
      else Inr folded)"
  by pat_completeness auto
termination
  by (relation "measure (\<lambda>(component, offset, folded). length component - offset)")
    (auto dest!: path_code_point_width)

declare fold_component.simps [simp del]

text \<open>The names that a platform reserves, compared up to the first dot.\<close>

definition starts_with :: "string \<Rightarrow> string \<Rightarrow> bool" where
  "starts_with s p \<longleftrightarrow> take (length p) s = p"

definition ends_with :: "string \<Rightarrow> string \<Rightarrow> bool" where
  "ends_with s p \<longleftrightarrow> length p \<le> length s \<and> drop (length s - length p) s = p"

definition reserved_name :: "string \<Rightarrow> bool" where
  "reserved_name folded = (let stem = takeWhile (\<lambda>c. c \<noteq> CHR ''.'') folded in
     stem = ''con'' \<or> stem = ''prn'' \<or> stem = ''aux'' \<or> stem = ''nul'' \<or>
     (length stem = 4 \<and> (starts_with stem ''com'' \<or> starts_with stem ''lpt'') \<and>
      byte_of (last stem) \<ge> byte_of CHR ''1'' \<and> byte_of (last stem) \<le> byte_of CHR ''9'') \<or>
     (length stem = 5 \<and> (starts_with stem ''com'' \<or> starts_with stem ''lpt'') \<and>
      (ends_with stem [CHR 0xc2, CHR 0xb9] \<or> ends_with stem [CHR 0xc2, CHR 0xb2] \<or> ends_with stem [CHR 0xc2, CHR 0xb3])))"

section \<open>The key of a path\<close>

text \<open>The loop over the components, from the offset \<open>begin\<close>.\<close>

definition component_at :: "string \<Rightarrow> nat \<Rightarrow> string" where
  "component_at val start = takeWhile (\<lambda>c. c \<noteq> CHR ''/'') (drop start val)"

definition component_key :: "string \<Rightarrow> string tree_result" where
  "component_key component =
     (if component = [] \<or> component = ''.'' \<or> component = ''..'' \<or> hd component = CHR '' '' \<or>
         last component = CHR ''.'' \<or> last component = CHR '' ''
        then invalid ''manifest entry path is not canonical''
      else bind_result (fold_component component 0 []) (\<lambda>folded.
        if reserved_name folded then invalid ''manifest entry path uses a reserved portable name'' else Inr folded))"

function path_keys :: "string \<Rightarrow> tree_limits \<Rightarrow> nat \<Rightarrow> nat \<Rightarrow> string \<Rightarrow> string tree_result" where
  "path_keys val limits start depth key =
     (if start < length val then
        if depth + 1 > max_relative_path_depth limits then invalid ''manifest entry path is too deep''
        else bind_result (component_key (component_at val start)) (\<lambda>folded.
          let key' = (if key \<noteq> [] then key @ ''/'' else key) @ folded;
              last_offset = start + length (component_at val start) in
          if last_offset \<ge> length val then Inr key'
          else path_keys val limits (last_offset + 1) (depth + 1) key')
      else Inr key)"
  by pat_completeness auto
termination
  by (relation "measure (\<lambda>(val, limits, start, depth, key). length val - start)") auto

declare path_keys.simps [simp del]

definition portable_path_key :: "string \<Rightarrow> tree_limits \<Rightarrow> string tree_result" where
  "portable_path_key val limits =
     (if val = [] \<or> length val > max_relative_path_bytes limits \<or> hd val = CHR ''/'' \<or> last val = CHR ''/'' \<or>
         CHR 0x5c \<in> set val \<or> CHR '':'' \<in> set val
        then invalid ''manifest entry path is not portable''
      else path_keys val limits 0 0 [])"

end
