(* ===== verification/TreeManifest.thy ===== *)
theory TreeManifest
  imports TreePath Sha256 "HOL-Library.Char_ord" "HOL-Library.List_Lexorder"
begin

text \<open>
  The manifest of a tree of files (\<open>JsonParser\<close> and \<open>parse_tree_manifest\<close> of
  src/src/runtime/repository/RuntimeRepositoryTreeFormat.cpp).  The reader of the JSON subset keeps
  the rest of its input in the place of the offset, and counts the nodes and the bytes of the
  strings it has read.  An object is the list of its members, whose keys are distinct: the code
  only looks its members up and counts them.
\<close>

section \<open>Values\<close>

datatype (plugins only: code size) tree_json = TreeString string | TreeArray "tree_json list" | TreeObject "(string \<times> tree_json) list"

text \<open>What the constructor fixes.\<close>

record reader_limits =
  rl_input :: nat
  rl_nodes :: nat
  rl_string :: nat

definition uintmax_max :: nat where "uintmax_max = 2 ^ 64 - 1"

definition new_reader_limits :: "string \<Rightarrow> tree_limits \<Rightarrow> reader_limits tree_result" where
  "new_reader_limits input limits =
     (if max_entries limits > (uintmax_max - 16) div 6 then invalid ''tree manifest entry limit cannot be represented''
      else Inr \<lparr>rl_input = length input, rl_nodes = 16 + max_entries limits * 6,
                rl_string = max (max_relative_path_bytes limits) 256\<rparr>)"

record reader =
  rd_rest :: string
  rd_nodes :: nat
  rd_decoded :: nat

type_synonym 'a reading = "('a \<times> reader) tree_result"

section \<open>Characters and strings\<close>

definition json_space :: "char \<Rightarrow> bool" where
  "json_space c \<longleftrightarrow> c = CHR '' '' \<or> c = CHR 0x0A \<or> c = CHR 0x0D \<or> c = CHR 0x09"

definition whitespace :: "reader \<Rightarrow> reader" where
  "whitespace st = st\<lparr>rd_rest := dropWhile json_space (rd_rest st)\<rparr>"

definition take_char :: "reader \<Rightarrow> char reading" where
  "take_char st = (case rd_rest st of [] \<Rightarrow> invalid ''truncated JSON'' | c # cs \<Rightarrow> Inr (c, st\<lparr>rd_rest := cs\<rparr>))"

definition in_range :: "char \<Rightarrow> char \<Rightarrow> char \<Rightarrow> bool" where
  "in_range low high c \<longleftrightarrow> byte_of low \<le> byte_of c \<and> byte_of c \<le> byte_of high"

definition hex_digit :: "char \<Rightarrow> nat tree_result" where
  "hex_digit c = (if in_range CHR ''0'' CHR ''9'' c then Inr (byte_of c - byte_of CHR ''0'')
     else if in_range CHR ''a'' CHR ''f'' c then Inr (byte_of c - byte_of CHR ''a'' + 10)
     else if in_range CHR ''A'' CHR ''F'' c then Inr (byte_of c - byte_of CHR ''A'' + 10)
     else invalid ''invalid JSON Unicode escape'')"

fun unicode_digits :: "nat \<Rightarrow> nat \<Rightarrow> reader \<Rightarrow> nat reading" where
  "unicode_digits 0 result st = Inr (result, st)"
| "unicode_digits (Suc n) result st =
     bind_result (take_char st) (\<lambda>(c, st').
       bind_result (hex_digit c) (\<lambda>d. unicode_digits n (push_bit 4 result OR d) st'))"

definition unicode_unit :: "reader \<Rightarrow> nat reading" where
  "unicode_unit st = unicode_digits 4 0 st"

definition append_utf8 :: "string \<Rightarrow> nat \<Rightarrow> string" where
  "append_utf8 result codepoint = result @ map char_of
     (if codepoint \<le> 0x7f then [codepoint]
      else if codepoint \<le> 0x7ff then [0xc0 OR drop_bit 6 codepoint, 0x80 OR (codepoint AND 0x3f)]
      else if codepoint \<le> 0xffff then
        [0xe0 OR drop_bit 12 codepoint, 0x80 OR (drop_bit 6 codepoint AND 0x3f), 0x80 OR (codepoint AND 0x3f)]
      else [0xf0 OR drop_bit 18 codepoint, 0x80 OR (drop_bit 12 codepoint AND 0x3f),
        0x80 OR (drop_bit 6 codepoint AND 0x3f), 0x80 OR (codepoint AND 0x3f)])"

definition check_string :: "reader_limits \<Rightarrow> string \<Rightarrow> string tree_result" where
  "check_string lim result = (if length result > rl_string lim then invalid ''JSON string byte limit exceeded'' else Inr result)"

definition account_string :: "reader_limits \<Rightarrow> string \<Rightarrow> reader \<Rightarrow> reader tree_result" where
  "account_string lim result st =
     (if length result > rl_input lim - rd_decoded st then invalid ''JSON decoded string budget exceeded''
      else Inr (st\<lparr>rd_decoded := rd_decoded st + length result\<rparr>))"

definition append_unicode :: "reader_limits \<Rightarrow> string \<Rightarrow> reader \<Rightarrow> string reading" where
  "append_unicode lim result st =
     bind_result (unicode_unit st) (\<lambda>(unit1, st1).
       if unit1 \<ge> 0xdc00 \<and> unit1 \<le> 0xdfff then invalid ''isolated low surrogate''
       else if unit1 < 0xd800 \<or> unit1 > 0xdbff then
         bind_result (check_string lim (append_utf8 result unit1)) (\<lambda>appended. Inr (appended, st1))
       else bind_result (take_char st1) (\<lambda>(c, st2).
         if c \<noteq> CHR 0x5c then invalid ''high surrogate is missing a low surrogate''
         else bind_result (take_char st2) (\<lambda>(d, st3).
           if d \<noteq> CHR ''u'' then invalid ''high surrogate is missing a low surrogate''
           else bind_result (unicode_unit st3) (\<lambda>(unit2, st4).
             if unit2 < 0xdc00 \<or> unit2 > 0xdfff then invalid ''high surrogate is followed by an invalid low surrogate''
             else bind_result (check_string lim (append_utf8 result (0x10000 + push_bit 10 (unit1 - 0xd800) + unit2 - 0xdc00)))
               (\<lambda>appended. Inr (appended, st4))))))"

definition simple_escape :: "char \<Rightarrow> char option" where
  "simple_escape c = (if c = CHR 0x22 \<or> c = CHR 0x5c \<or> c = CHR ''/'' then Some c
     else if c = CHR ''b'' then Some CHR 0x08 else if c = CHR ''f'' then Some CHR 0x0C
     else if c = CHR ''n'' then Some CHR 0x0A else if c = CHR ''r'' then Some CHR 0x0D
     else if c = CHR ''t'' then Some CHR 0x09 else None)"

definition read_escape :: "reader_limits \<Rightarrow> string \<Rightarrow> reader \<Rightarrow> string reading" where
  "read_escape lim result st =
     bind_result (take_char st) (\<lambda>(c, st').
       bind_result (case simple_escape c of
           Some e \<Rightarrow> Inr (result @ [e], st')
         | None \<Rightarrow> if c = CHR ''u'' then append_unicode lim result st' else invalid ''invalid JSON escape'')
       (\<lambda>(appended, st''). bind_result (check_string lim appended) (\<lambda>checked. Inr (checked, st''))))"

text \<open>How the reader only moves forward.\<close>

definition advances :: "reader \<Rightarrow> reader \<Rightarrow> bool" where
  "advances st st' \<longleftrightarrow> length (rd_rest st') < length (rd_rest st)"

lemma take_char_advances: "take_char st = Inr (c, st') \<Longrightarrow> advances st st'"
  by (auto simp: take_char_def advances_def split: list.splits)

lemma unicode_digits_advances:
  "unicode_digits n r st = Inr (u, st') \<Longrightarrow> length (rd_rest st') \<le> length (rd_rest st)"
proof (induction n r st arbitrary: u st' rule: unicode_digits.induct)
  case (2 n result st)
  then show ?case by (fastforce simp: advances_def dest: take_char_advances)
qed simp

lemma append_unicode_advances:
  "append_unicode lim r st = Inr (u, st') \<Longrightarrow> length (rd_rest st') \<le> length (rd_rest st)"
  by (auto simp: append_unicode_def unicode_unit_def advances_def split: if_splits
      dest!: unicode_digits_advances take_char_advances)

lemma read_escape_advances: "read_escape lim r st = Inr (u, st') \<Longrightarrow> advances st st'"
  by (auto simp: read_escape_def advances_def split: option.splits if_splits
      dest!: append_unicode_advances take_char_advances)

text \<open>The loop of \<open>string\<close>, after the opening quotation mark.\<close>

function string_loop :: "reader_limits \<Rightarrow> string \<Rightarrow> reader \<Rightarrow> string reading" where
  "string_loop lim result st =
     bind_result (take_char st) (\<lambda>(c, st').
       if c = CHR 0x22 then bind_result (account_string lim result st') (\<lambda>st''. Inr (result, st''))
       else if byte_of c < 0x20 then invalid ''control byte in JSON''
       else if c \<noteq> CHR 0x5c then
         bind_result (check_string lim (result @ [c])) (\<lambda>appended. string_loop lim appended st')
       else bind_result (read_escape lim result st') (\<lambda>(appended, st''). string_loop lim appended st''))"
  by pat_completeness auto
termination
  by (relation "measure (\<lambda>(lim, result, st). length (rd_rest st))")
    (auto simp: advances_def dest!: take_char_advances read_escape_advances)

declare string_loop.simps [simp del]

definition read_string :: "reader_limits \<Rightarrow> reader \<Rightarrow> string reading" where
  "read_string lim st = bind_result (take_char st) (\<lambda>(c, st').
     if c \<noteq> CHR 0x22 then invalid ''JSON string expected'' else string_loop lim [] st')"

section \<open>Values\<close>

text \<open>The loops of \<open>object\<close> and \<open>array\<close>, with the reader of a value as an argument.  The first argument
  bounds the rounds; the length of the rest of the input is enough (\<open>read_value_consumes\<close>).\<close>

fun member_loop :: "nat \<Rightarrow> (reader \<Rightarrow> tree_json reading) \<Rightarrow> reader_limits \<Rightarrow> (string \<times> tree_json) list \<Rightarrow> reader \<Rightarrow>
    (string \<times> tree_json) list reading" where
  "member_loop 0 read lim result st = Inl OutOfFuel"
| "member_loop (Suc n) read lim result st =
     bind_result (read_string lim (whitespace st)) (\<lambda>(key, st1).
     bind_result (take_char (whitespace st1)) (\<lambda>(c, st2).
       if c \<noteq> CHR '':'' then invalid ''JSON member separator expected''
       else bind_result (read st2) (\<lambda>(val, st3).
         if map_of result key \<noteq> None then invalid ''duplicate JSON member''
         else bind_result (take_char (whitespace st3)) (\<lambda>(separator, st4).
           if separator = CHR ''}'' then Inr (result @ [(key, val)], st4)
           else if separator \<noteq> CHR '','' then invalid ''JSON object delimiter expected''
           else member_loop n read lim (result @ [(key, val)]) st4))))"

definition read_object :: "(reader \<Rightarrow> tree_json reading) \<Rightarrow> reader_limits \<Rightarrow> reader \<Rightarrow> (string \<times> tree_json) list reading" where
  "read_object read lim st =
     bind_result (take_char st) (\<lambda>(_, st1). let st2 = whitespace st1 in
       if take 1 (rd_rest st2) = ''}'' then Inr ([], st2\<lparr>rd_rest := drop 1 (rd_rest st2)\<rparr>)
       else member_loop (length (rd_rest st2) + 1) read lim [] st2)"

fun element_loop :: "nat \<Rightarrow> (reader \<Rightarrow> tree_json reading) \<Rightarrow> tree_json list \<Rightarrow> reader \<Rightarrow> tree_json list reading" where
  "element_loop 0 read result st = Inl OutOfFuel"
| "element_loop (Suc n) read result st =
     bind_result (read st) (\<lambda>(val, st1).
     bind_result (take_char (whitespace st1)) (\<lambda>(separator, st2).
       if separator = CHR '']'' then Inr (result @ [val], st2)
       else if separator \<noteq> CHR '','' then invalid ''JSON array delimiter expected''
       else element_loop n read (result @ [val]) st2))"

definition read_array :: "(reader \<Rightarrow> tree_json reading) \<Rightarrow> reader \<Rightarrow> tree_json list reading" where
  "read_array read st =
     bind_result (take_char st) (\<lambda>(_, st1). let st2 = whitespace st1 in
       if take 1 (rd_rest st2) = '']'' then Inr ([], st2\<lparr>rd_rest := drop 1 (rd_rest st2)\<rparr>)
       else element_loop (length (rd_rest st2) + 1) read [] st2)"

text \<open>\<open>value(depth)\<close>, by the number of levels that are left: \<open>depth > 6\<close> is none.\<close>

primrec read_value :: "nat \<Rightarrow> reader_limits \<Rightarrow> reader \<Rightarrow> tree_json reading" where
  "read_value 0 lim st = invalid ''JSON nesting limit exceeded''"
| "read_value (Suc levels) lim st =
     (if rd_nodes st + 1 > rl_nodes lim then invalid ''JSON node limit exceeded''
      else let st' = whitespace (st\<lparr>rd_nodes := rd_nodes st + 1\<rparr>) in
        (case rd_rest st' of
           [] \<Rightarrow> invalid ''missing JSON value''
         | c # _ \<Rightarrow>
             if c = CHR 0x22 then bind_result (read_string lim st') (\<lambda>(s, st''). Inr (TreeString s, st''))
             else if c = CHR ''{'' then
               bind_result (read_object (read_value levels lim) lim st') (\<lambda>(ms, st''). Inr (TreeObject ms, st''))
             else if c = CHR ''['' then
               bind_result (read_array (read_value levels lim) st') (\<lambda>(js, st''). Inr (TreeArray js, st''))
             else invalid ''unsupported JSON value''))"

definition parse_tree_json :: "string \<Rightarrow> tree_limits \<Rightarrow> tree_json tree_result" where
  "parse_tree_json input limits =
     bind_result (new_reader_limits input limits) (\<lambda>lim.
     bind_result (read_value 7 lim \<lparr>rd_rest = input, rd_nodes = 0, rd_decoded = 0\<rparr>) (\<lambda>(result, st).
       if rd_rest (whitespace st) \<noteq> [] then invalid ''trailing JSON data'' else Inr result))"

section \<open>The manifest\<close>

definition as_object :: "tree_json \<Rightarrow> (string \<times> tree_json) list tree_result" where
  "as_object j = (case j of TreeObject ms \<Rightarrow> Inr ms | _ \<Rightarrow> invalid ''JSON object expected'')"

definition as_array :: "tree_json \<Rightarrow> tree_json list tree_result" where
  "as_array j = (case j of TreeArray js \<Rightarrow> Inr js | _ \<Rightarrow> invalid ''JSON array expected'')"

definition member_of :: "(string \<times> tree_json) list \<Rightarrow> string \<Rightarrow> tree_json tree_result" where
  "member_of ms key = (case map_of ms key of None \<Rightarrow> invalid ''required JSON member absent'' | Some j \<Rightarrow> Inr j)"

definition string_member :: "(string \<times> tree_json) list \<Rightarrow> string \<Rightarrow> string tree_result" where
  "string_member ms key = bind_result (member_of ms key) (\<lambda>j.
     case j of TreeString s \<Rightarrow> Inr s | _ \<Rightarrow> invalid ''JSON string expected'')"

definition exact_members :: "(string \<times> tree_json) list \<Rightarrow> string list \<Rightarrow> unit tree_result" where
  "exact_members ms names =
     (if length ms \<noteq> length names \<or> \<not> list_all (\<lambda>n. map_of ms n \<noteq> None) names
      then invalid ''unknown or missing JSON member'' else Inr ())"

fun decimal_digits :: "nat \<Rightarrow> string \<Rightarrow> nat tree_result" where
  "decimal_digits result [] = Inr result"
| "decimal_digits result (c # cs) =
     (if \<not> in_range CHR ''0'' CHR ''9'' c \<or> result > (uintmax_max - (byte_of c - byte_of CHR ''0'')) div 10
      then invalid ''manifest entry size is invalid''
      else decimal_digits (result * 10 + (byte_of c - byte_of CHR ''0'')) cs)"

definition decimal_size :: "string \<Rightarrow> nat tree_result" where
  "decimal_size val =
     (if val = [] \<or> (length val > 1 \<and> hd val = CHR ''0'') then invalid ''manifest entry size is not canonical''
      else decimal_digits 0 val)"

record manifest_entry =
  me_path :: string
  me_size :: nat
  me_sha256 :: string

definition read_entry :: "tree_json \<Rightarrow> (manifest_entry \<times> string) tree_result" where
  "read_entry item = bind_result (as_object item) (\<lambda>entry.
     bind_result (exact_members entry [''path'', ''size'', ''sha256'', ''mode'']) (\<lambda>_.
     bind_result (string_member entry ''path'') (\<lambda>path.
     bind_result (string_member entry ''size'') (\<lambda>size_text.
     bind_result (decimal_size size_text) (\<lambda>bytes.
     bind_result (string_member entry ''sha256'') (\<lambda>digest.
     bind_result (string_member entry ''mode'') (\<lambda>mode.
       Inr (\<lparr>me_path = path, me_size = bytes, me_sha256 = digest\<rparr>, mode))))))))"

text \<open>The loop over the entries, with the keys taken and the total size.\<close>

fun read_entries :: "string \<Rightarrow> tree_limits \<Rightarrow> manifest_entry list \<Rightarrow> (string \<times> string) list \<Rightarrow> nat \<Rightarrow> tree_json list \<Rightarrow>
    manifest_entry list tree_result" where
  "read_entries manifest_name limits result paths total_size [] = Inr result"
| "read_entries manifest_name limits result paths total_size (item # items) =
     (if length result = max_entries limits then invalid ''tree manifest entry limit exceeded''
      else bind_result (read_entry item) (\<lambda>(parsed, mode).
        if mode \<noteq> ''file'' \<or> \<not> lower_hex (me_sha256 parsed) 64 \<or> me_path parsed = manifest_name \<or>
           me_size parsed > max_file_bytes limits \<or> me_size parsed > max_total_bytes limits - total_size
        then invalid ''tree manifest entry is invalid or exceeds limits''
        else bind_result (portable_path_key (me_path parsed) limits) (\<lambda>key.
          if map_of paths key \<noteq> None then invalid ''tree manifest contains a portable path alias''
          else read_entries manifest_name limits (result @ [parsed]) ((key, me_path parsed) # paths)
             (total_size + me_size parsed) items)))"

definition tree_manifest_schema :: string where
  "tree_manifest_schema = ''baas.runtime-repository.tree-manifest/v1''"

definition adjacent_duplicates :: "manifest_entry list \<Rightarrow> bool" where
  "adjacent_duplicates es \<longleftrightarrow> list_ex (\<lambda>(a, b). me_path a = me_path b) (zip es (drop 1 es))"

definition parse_tree_manifest :: "string \<Rightarrow> string \<Rightarrow> tree_limits \<Rightarrow> manifest_entry list tree_result" where
  "parse_tree_manifest bytes manifest_name limits =
     bind_result (parse_tree_json bytes limits) (\<lambda>document.
     bind_result (as_object document) (\<lambda>root.
     bind_result (exact_members root [''schema'', ''entries'']) (\<lambda>_.
     bind_result (string_member root ''schema'') (\<lambda>schema.
       if schema \<noteq> tree_manifest_schema then invalid ''invalid tree manifest schema''
       else bind_result (portable_path_key manifest_name limits) (\<lambda>key.
         bind_result (member_of root ''entries'') (\<lambda>entries.
         bind_result (as_array entries) (\<lambda>items.
         bind_result (read_entries manifest_name limits [] [(key, manifest_name)] 0 items) (\<lambda>result.
           let sorted_result = sort_key me_path result in
           if adjacent_duplicates sorted_result then invalid ''tree manifest contains duplicate entries''
           else Inr sorted_result))))))))"

end
