(* ===== verification/TreePath_Correct.thy ===== *)
theory TreePath_Correct
  imports TreePath
begin

text \<open>
  A path is accepted exactly when it is within the limits and each of its components is a
  portable name, and then its key is the path with the ASCII letters in lower case.
\<close>

section \<open>The reference\<close>

text \<open>The code points a portable name is made of: no control or format character, no
  non-character, nothing that composes with its neighbour, none of \<open>< > " | ? *\<close>.\<close>

definition portable_scalar :: "nat \<Rightarrow> bool" where
  "portable_scalar v \<longleftrightarrow> is_scalar v \<and> 0x20 \<le> v \<and> \<not> (0x7f \<le> v \<and> v \<le> 0x9f) \<and> v \<noteq> 0x2028 \<and> v \<noteq> 0x2029 \<and>
     \<not> (0xfdd0 \<le> v \<and> v \<le> 0xfdef) \<and> v mod 0x10000 < 0xfffe \<and> \<not> combining v \<and>
     v \<notin> byte_of ` {CHR ''<'', CHR ''>'', CHR 0x22, CHR ''|'', CHR ''?'', CHR ''*''}"

definition portable_text :: "string \<Rightarrow> bool" where
  "portable_text s \<longleftrightarrow> (\<exists>vs. list_all portable_scalar vs \<and> s = utf8_encode vs)"

definition device_stems :: "string list" where
  "device_stems = [''con'', ''prn'', ''aux'', ''nul''] @
     concat (map (\<lambda>p. map (\<lambda>d. p @ [d]) ''123456789'' @ map (\<lambda>d. p @ [CHR 0xc2, d]) [CHR 0xb9, CHR 0xb2, CHR 0xb3])
       [''com'', ''lpt''])"

definition portable_component :: "string \<Rightarrow> bool" where
  "portable_component c \<longleftrightarrow> c \<noteq> [] \<and> c \<noteq> ''.'' \<and> c \<noteq> ''..'' \<and> hd c \<noteq> CHR '' '' \<and> last c \<noteq> CHR '' '' \<and> last c \<noteq> CHR ''.'' \<and>
     portable_text c \<and> takeWhile (\<lambda>x. x \<noteq> CHR ''.'') (map fold_case c) \<notin> set device_stems"

fun slash_components :: "string \<Rightarrow> string list" where
  "slash_components [] = [[]]"
| "slash_components (c # s) = (if c = CHR ''/'' then [] # slash_components s
     else (case slash_components s of p # ps \<Rightarrow> (c # p) # ps | [] \<Rightarrow> [[c]]))"

definition portable_path :: "tree_limits \<Rightarrow> string \<Rightarrow> bool" where
  "portable_path limits val \<longleftrightarrow> length val \<le> max_relative_path_bytes limits \<and>
     length (slash_components val) \<le> max_relative_path_depth limits \<and>
     list_all portable_component (slash_components val) \<and> CHR 0x5c \<notin> set val \<and> CHR '':'' \<notin> set val"

section \<open>A component\<close>

text \<open>The decoder is the one of the lexer, with the check of the range moved into the refusal.\<close>

lemma decode_multi_iff:
  "decode_multi s n w l m = \<lparr>dc_value = v, dc_length = w', dc_valid = True\<rparr> \<longleftrightarrow>
   n + w \<le> length s \<and> continuation_bytes s (Suc n) (w - 1) l = Some v \<and> m \<le> v \<and> is_scalar v \<and> w' = w"
  by (auto simp: decode_multi_def invalid_byte_def is_scalar_def split: option.split)

lemma path_code_point_iff:
  "lead_byte (byte_of (s ! n)) = Some (l, k) \<Longrightarrow> path_code_point s n = Inr (v, w) \<longleftrightarrow>
   n + k \<le> length s \<and> continuation_bytes s (Suc n) (k - 1) l = Some v \<and> w = k"
  by (auto simp: path_code_point_def split: option.split)

lemma path_code_point_decode:
  assumes "n < length s"
  shows "path_code_point s n = Inr (v, w) \<and> \<not> overlong v w \<and> is_scalar v \<longleftrightarrow> decode_utf8 s n = \<lparr>dc_value = v, dc_length = w, dc_valid = True\<rparr>"
proof (cases "lead_byte (byte_of (s ! n))")
  case None
  then show ?thesis
    by (auto simp: path_code_point_def decode_utf8_def Let_def lead_byte_def invalid_byte_def split: if_splits)
next
  case (Some lead)
  then obtain l k where lead: "lead_byte (byte_of (s ! n)) = Some (l, k)" by (cases lead) auto
  consider "byte_of (s ! n) < 0x80" "k = 1" "l = byte_of (s ! n)"
    | "0xc2 \<le> byte_of (s ! n)" "byte_of (s ! n) \<le> 0xdf" "k = 2" "l = byte_of (s ! n) AND 0x1f"
    | "0xe0 \<le> byte_of (s ! n)" "byte_of (s ! n) \<le> 0xef" "k = 3" "l = byte_of (s ! n) AND 0x0f"
    | "0xf0 \<le> byte_of (s ! n)" "byte_of (s ! n) \<le> 0xf4" "k = 4" "l = byte_of (s ! n) AND 0x07"
    using lead by (auto simp: lead_byte_def split: if_splits)
  then show ?thesis
    unfolding path_code_point_iff [OF lead]
  proof cases
    case 1
    then show "(n + k \<le> length s \<and> continuation_bytes s (Suc n) (k - 1) l = Some v \<and> w = k) \<and> \<not> overlong v w \<and> is_scalar v \<longleftrightarrow>
      decode_utf8 s n = \<lparr>dc_value = v, dc_length = w, dc_valid = True\<rparr>"
      using assms by (auto simp: decode_utf8_def overlong_def is_scalar_def)
  qed (use assms in \<open>auto simp: decode_utf8_def decode_multi_iff Let_def overlong_def not_less\<close>)
qed

lemma path_code_point_scalar:
  assumes "n < length s"
  shows "path_code_point s n = Inr (v, w) \<and> \<not> overlong v w \<and> is_scalar v \<longleftrightarrow>
    is_scalar v \<and> w = length (encode_scalar v) \<and> take w (drop n s) = encode_scalar v" (is "?l \<longleftrightarrow> ?r")
proof
  assume ?l
  then have d: "decode_utf8 s n = \<lparr>dc_value = v, dc_length = w, dc_valid = True\<rparr>"
    using path_code_point_decode [OF assms] by simp
  then have t: "is_scalar v" "n + w \<le> length s" "take w (drop n s) = encode_scalar v"
    using lexer_decoder.decode_only [of s n] by simp_all
  then have "length (encode_scalar v) = w" by (simp flip: t(3))
  with t show ?r by simp
next
  assume ?r
  then have "is_scalar v" "take (length (encode_scalar v)) (drop n s) = encode_scalar v" "w = length (encode_scalar v)" by auto
  then have "decode_utf8 s n = \<lparr>dc_value = v, dc_length = w, dc_valid = True\<rparr>"
    using lexer_decoder.decode_accepts [of v n s] by simp
  then show ?l using path_code_point_decode [OF assms] by simp
qed

lemma and_16_bits: "v AND 0xffff = v mod 0x10000" for v :: nat
  using take_bit_eq_mask [of 16 v] by (simp add: take_bit_eq_mod mask_eq_exp_minus_1)

lemma refused_iff:
  assumes "is_scalar v"
  shows "refused_code_point v (length (encode_scalar v)) \<longleftrightarrow> (0x7f \<le> v \<and> v \<le> 0x9f) \<or> v = 0x2028 \<or> v = 0x2029 \<or>
     (0xfdd0 \<le> v \<and> v \<le> 0xfdef) \<or> \<not> v mod 0x10000 < 0xfffe \<or> combining v"
proof -
  have "v mod 0x10000 < 0x10000" by simp
  then have "v mod 0x10000 = 0xfffe \<or> v mod 0x10000 = 0xffff \<longleftrightarrow> \<not> v mod 0x10000 < 0xfffe" by linarith
  moreover have "\<not> overlong v (length (encode_scalar v))" by (simp add: overlong_def encode_scalar_length)
  ultimately show ?thesis
    using assms unfolding refused_code_point_def and_16_bits is_scalar_def by auto
qed

lemma non_portable_iff:
  "non_portable_character c \<longleftrightarrow> byte_of c < 0x20 \<or>
     byte_of c \<in> byte_of ` {CHR ''<'', CHR ''>'', CHR 0x22, CHR ''|'', CHR ''?'', CHR ''*''}"
proof -
  have "inj byte_of" by (simp add: inj_on_def)
  then show ?thesis unfolding non_portable_character_def by (subst inj_image_mem_iff) auto
qed

lemma portable_scalar_iff:
  assumes "is_scalar v" "take (length (encode_scalar v)) (drop n s) = encode_scalar v" "n < length s"
  shows "portable_scalar v \<longleftrightarrow> \<not> refused_code_point v (length (encode_scalar v)) \<and>
    (length (encode_scalar v) = 1 \<longrightarrow> \<not> non_portable_character (s ! n))"
proof (cases "v < 0x80")
  case True
  then have l: "length (encode_scalar v) = 1" "byte_of (s ! n) = v"
    using assms(2,3) nth_of_take_drop [OF assms(2), of 0] by (simp_all add: encode_scalar_ascii)
  then show ?thesis
    unfolding portable_scalar_def refused_iff [OF assms(1)] non_portable_iff l(2) using l(1) assms(1) by auto
next
  case False
  then have "length (encode_scalar v) \<noteq> 1" by (simp add: encode_scalar_length)
  moreover have "v \<notin> byte_of ` {CHR ''<'', CHR ''>'', CHR 0x22, CHR ''|'', CHR ''?'', CHR ''*''}"
    using False by (auto simp: byte_of_def)
  ultimately show ?thesis
    unfolding portable_scalar_def refused_iff [OF assms(1)] using False assms(1) by auto
qed

lemma fold_case_high: "\<not> byte_of c < 0x80 \<Longrightarrow> fold_case c = c"
  by (simp add: fold_case_def byte_of_def)

lemma encode_scalar_folded:
  "0x80 \<le> v \<Longrightarrow> is_scalar v \<Longrightarrow> map fold_case (encode_scalar v) = encode_scalar v"
  by (auto simp: encode_scalar_def is_scalar_def less_mult_imp_div_less intro!: fold_case_high)

section \<open>The loop over a component\<close>

lemma fold_component_done: "fold_component s (length s) acc = Inr acc"
  by (subst fold_component.simps) simp

lemma fold_component_step:
  assumes "n < length s"
  shows "fold_component s n acc = Inr r \<longleftrightarrow>
    (\<exists>v. portable_scalar v \<and> take (length (encode_scalar v)) (drop n s) = encode_scalar v \<and>
       fold_component s (n + length (encode_scalar v)) (acc @ map fold_case (encode_scalar v)) = Inr r)" (is "?l \<longleftrightarrow> ?r")
proof -
  have folded: "(if length (encode_scalar v) = 1 then fold_component s (n + length (encode_scalar v)) (acc @ [fold_case (s ! n)])
      else fold_component s (n + length (encode_scalar v)) (acc @ take (length (encode_scalar v)) (drop n s))) =
    fold_component s (n + length (encode_scalar v)) (acc @ map fold_case (encode_scalar v))"
    if v: "is_scalar v" "take (length (encode_scalar v)) (drop n s) = encode_scalar v" for v
  proof (cases "v < 0x80")
    case True
    then have "encode_scalar v = [s ! n]"
      using v(2) assms by (simp add: encode_scalar_ascii take_Suc_conv_app_nth take_Suc drop_eq_Cons_nth)
    then show ?thesis by simp
  next
    case False
    then have "length (encode_scalar v) \<noteq> 1" by (simp add: encode_scalar_length)
    then show ?thesis using False v by (simp add: encode_scalar_folded)
  qed
  have step: "fold_component s n acc = (case path_code_point s n of Inl e \<Rightarrow> Inl e | Inr (v, w) \<Rightarrow>
      if refused_code_point v w then invalid ''manifest entry path is not portable normalized UTF-8''
      else if w = 1 \<and> non_portable_character (s ! n) then invalid ''manifest entry path contains a non-portable character''
      else if w = 1 then fold_component s (n + w) (acc @ [fold_case (s ! n)])
      else fold_component s (n + w) (acc @ take w (drop n s)))"
    by (subst fold_component.simps) (simp add: assms bind_result_def case_prod_beta split: sum.split)
  show ?thesis
  proof
    assume ?l
    then obtain v w where w: "path_code_point s n = Inr (v, w)" "\<not> refused_code_point v w"
      "\<not> (w = 1 \<and> non_portable_character (s ! n))"
      "(if w = 1 then fold_component s (n + w) (acc @ [fold_case (s ! n)]) else fold_component s (n + w) (acc @ take w (drop n s))) = Inr r"
      unfolding step by (auto split: sum.splits prod.splits if_splits)
    then have "\<not> overlong v w" "is_scalar v" by (auto simp: refused_code_point_def is_scalar_def)
    then have v: "is_scalar v" "w = length (encode_scalar v)" "take (length (encode_scalar v)) (drop n s) = encode_scalar v"
      using path_code_point_scalar [OF assms, of v w] w(1) by auto
    moreover have "portable_scalar v"
      using portable_scalar_iff [OF v(1) v(3) assms] w(2,3) v(2) by simp
    ultimately show ?r using w(4) folded [OF v(1) v(3)] by auto
  next
    assume ?r
    then obtain v where v: "portable_scalar v" "take (length (encode_scalar v)) (drop n s) = encode_scalar v"
      "fold_component s (n + length (encode_scalar v)) (acc @ map fold_case (encode_scalar v)) = Inr r" by blast
    then have scalar: "is_scalar v" by (simp add: portable_scalar_def)
    have "path_code_point s n = Inr (v, length (encode_scalar v))"
      using path_code_point_scalar [OF assms, of v] scalar v(2) by auto
    then show ?l
      unfolding step using portable_scalar_iff [OF scalar v(2) assms] v folded [OF scalar v(2)] by (auto split: if_splits)
  qed
qed

lemma portable_text_step:
  assumes "n < length s"
  shows "portable_text (drop n s) \<longleftrightarrow> (\<exists>v. portable_scalar v \<and> take (length (encode_scalar v)) (drop n s) = encode_scalar v \<and>
    portable_text (drop (n + length (encode_scalar v)) s))" (is "?l \<longleftrightarrow> ?r")
proof
  assume ?l
  then obtain vs where vs: "list_all portable_scalar vs" "drop n s = utf8_encode vs" by (auto simp: portable_text_def)
  with assms obtain v ws where "vs = v # ws" by (cases vs) auto
  with vs have v: "portable_scalar v" "drop n s = encode_scalar v @ utf8_encode ws" "list_all portable_scalar ws" by simp_all
  have "drop (n + length (encode_scalar v)) s = utf8_encode ws"
    using arg_cong [OF v(2), of "drop (length (encode_scalar v))"] by (simp add: add.commute)
  then have "portable_text (drop (n + length (encode_scalar v)) s)" using v(3) by (auto simp: portable_text_def)
  with v show ?r by auto
next
  assume ?r
  then obtain v ws where v: "portable_scalar v" "take (length (encode_scalar v)) (drop n s) = encode_scalar v"
    "list_all portable_scalar ws" "drop (n + length (encode_scalar v)) s = utf8_encode ws" by (auto simp: portable_text_def)
  have "drop n s = encode_scalar v @ utf8_encode ws"
    using append_take_drop_id [of "length (encode_scalar v)" "drop n s"] v(2,4) by (simp add: add.commute)
  then show ?l
    unfolding portable_text_def using v(1,3) by (intro exI [of _ "v # ws"]) simp
qed

lemma fold_component_iff:
  "n \<le> length s \<Longrightarrow> fold_component s n acc = Inr r \<longleftrightarrow> portable_text (drop n s) \<and> r = acc @ map fold_case (drop n s)"
proof (induction "length s - n" arbitrary: n acc rule: less_induct)
  case less
  show ?case
  proof (cases "n < length s")
    case False
    then have "n = length s" using less.prems by simp
    then show ?thesis by (auto simp: fold_component_done portable_text_def intro: exI [of _ "[]"])
  next
    case True
    have rest: "fold_component s (n + length (encode_scalar v)) (acc @ map fold_case (encode_scalar v)) = Inr r \<longleftrightarrow>
        portable_text (drop (n + length (encode_scalar v)) s) \<and> r = acc @ map fold_case (drop n s)"
      if v: "take (length (encode_scalar v)) (drop n s) = encode_scalar v" for v
    proof -
      have "length (encode_scalar v) \<le> length (drop n s)" using arg_cong [OF v, of length] by simp
      then have le: "n + length (encode_scalar v) \<le> length s" using True by simp
      have "drop n s = encode_scalar v @ drop (n + length (encode_scalar v)) s"
        using append_take_drop_id [of "length (encode_scalar v)" "drop n s"] v by (simp add: add.commute)
      then have "map fold_case (drop n s) = map fold_case (encode_scalar v) @ map fold_case (drop (n + length (encode_scalar v)) s)"
        by (metis map_append)
      moreover have "0 < length (encode_scalar v)" by simp
      then have "length s - (n + length (encode_scalar v)) < length s - n" using True by linarith
      ultimately show ?thesis using less.hyps [OF _ le] by simp
    qed
    show ?thesis
      unfolding fold_component_step [OF True] portable_text_step [OF True] using rest by blast
  qed
qed

section \<open>The names that a platform reserves\<close>

lemma device_digit:
  "byte_of CHR ''1'' \<le> byte_of d \<and> byte_of d \<le> byte_of CHR ''9'' \<longleftrightarrow> d \<in> set ''123456789''"
proof -
  have "49 \<le> byte_of d \<and> byte_of d \<le> 57 \<longleftrightarrow> byte_of d \<in> byte_of ` set ''123456789''"
    by (auto simp: byte_of_def)
  also have "\<dots> \<longleftrightarrow> d \<in> set ''123456789''" by (rule inj_image_mem_iff) (simp add: inj_on_def)
  finally have "49 \<le> byte_of d \<and> byte_of d \<le> 57 \<longleftrightarrow> d \<in> set ''123456789''" .
  moreover have "byte_of CHR ''1'' = 49" "byte_of CHR ''9'' = 57" by (simp_all add: byte_of_def)
  ultimately show ?thesis by (simp only:)
qed

lemma stem_and_digit: "length p = 3 \<Longrightarrow> length s = 4 \<and> starts_with s p \<and> last s \<in> D \<longleftrightarrow> (\<exists>d\<in>D. s = p @ [d])"
  by (cases s rule: rev_cases) (auto simp: starts_with_def)

lemma stem_and_suffix:
  assumes "length p = 3" "length q = 2"
  shows "length s = 5 \<and> starts_with s p \<and> ends_with s q \<longleftrightarrow> s = p @ q"
proof
  assume s: "length s = 5 \<and> starts_with s p \<and> ends_with s q"
  have "take 3 s @ drop 3 s = s" by (rule append_take_drop_id)
  with s assms show "s = p @ q" by (auto simp: starts_with_def ends_with_def)
qed (use assms in \<open>simp add: starts_with_def ends_with_def\<close>)

lemma device_stems_iff:
  "st \<in> set device_stems \<longleftrightarrow> st \<in> {''con'', ''prn'', ''aux'', ''nul''} \<or>
    (\<exists>p\<in>{''com'', ''lpt''}. (\<exists>d\<in>set ''123456789''. st = p @ [d]) \<or> (\<exists>d\<in>{CHR 0xb9, CHR 0xb2, CHR 0xb3}. st = p @ [CHR 0xc2, d]))"
  by (auto simp: device_stems_def)

lemma device_stems_reserved:
  "reserved_name folded \<longleftrightarrow> takeWhile (\<lambda>x. x \<noteq> CHR ''.'') folded \<in> set device_stems"
proof -
  let ?D = "set ''123456789''" and ?S = "{CHR 0xb9, CHR 0xb2, CHR 0xb3}" and ?P = "{''com'', ''lpt''}"
  let ?L = "\<lambda>st. length st = 5 \<and> (starts_with st ''com'' \<or> starts_with st ''lpt'') \<and>
      (ends_with st [CHR 0xc2, CHR 0xb9] \<or> ends_with st [CHR 0xc2, CHR 0xb2] \<or> ends_with st [CHR 0xc2, CHR 0xb3])"
  have four: "length st = 4 \<and> (starts_with st ''com'' \<or> starts_with st ''lpt'') \<and> last st \<in> D \<longleftrightarrow>
      (\<exists>p\<in>?P. \<exists>d\<in>D. st = p @ [d])" for st D
    using stem_and_digit [of "''com''" st D] stem_and_digit [of "''lpt''" st D] by auto
  have five: "?L st \<longleftrightarrow> (\<exists>p\<in>?P. \<exists>d\<in>?S. st = p @ [CHR 0xc2, d])" for st
  proof -
    have suffix: "length st = 5 \<and> starts_with st p \<and> ends_with st [CHR 0xc2, d] \<longleftrightarrow> st = p @ [CHR 0xc2, d]" if "p \<in> ?P" for p d
      using that by (intro stem_and_suffix) auto
    have "?L st \<longleftrightarrow> (\<exists>p\<in>?P. \<exists>d\<in>?S. length st = 5 \<and> starts_with st p \<and> ends_with st [CHR 0xc2, d])"
      by (simp only: bex_simps) blast
    then show ?thesis using suffix by (simp only: cong: bex_cong)
  qed
  have or: "(\<exists>p\<in>P. A p \<or> B p) \<longleftrightarrow> (\<exists>p\<in>P. A p) \<or> (\<exists>p\<in>P. B p)" for P and A B :: "string \<Rightarrow> bool" by blast
  show ?thesis
    unfolding reserved_name_def Let_def device_stems_iff device_digit four five or by (simp only: insert_iff empty_iff simp_thms disj_assoc)
qed

section \<open>The loop over the components\<close>

lemma component_key_iff: "component_key c = Inr k \<longleftrightarrow> portable_component c \<and> k = map fold_case c"
  by (cases "c = []")
    (auto simp: component_key_def portable_component_def fold_component_iff device_stems_reserved split: if_splits)

lemma slash_components_nonempty [simp]: "slash_components s \<noteq> []"
  by (cases s) (auto split: list.split)

lemma slash_components_last: "s \<noteq> [] \<Longrightarrow> last s = CHR ''/'' \<Longrightarrow> \<exists>p ps. slash_components s = p # ps @ [[]]"
proof (induction s)
  case (Cons c s)
  show ?case
  proof (cases "s = []")
    case False
    with Cons obtain p ps where "slash_components s = p # ps @ [[]]" by auto
    then show ?thesis by (auto intro: exI [of _ "p # ps"])
  qed (use Cons.prems in simp)
qed simp

lemma slash_components_eq:
  "slash_components s = takeWhile (\<lambda>c. c \<noteq> CHR ''/'') s #
     (if CHR ''/'' \<in> set s then slash_components (drop (Suc (length (takeWhile (\<lambda>c. c \<noteq> CHR ''/'') s))) s) else [])"
  by (induction s) (auto split: list.split)

lemma takeWhile_slash: "CHR ''/'' \<in> set s \<longleftrightarrow> length (takeWhile (\<lambda>c. c \<noteq> CHR ''/'') s) < length s"
proof -
  have "length (takeWhile (\<lambda>c. c \<noteq> CHR ''/'') s) \<le> length s" by (rule length_takeWhile_le)
  moreover have "takeWhile (\<lambda>c. c \<noteq> CHR ''/'') s = s \<longleftrightarrow> CHR ''/'' \<notin> set s" by (auto simp: takeWhile_eq_all_conv)
  moreover have "length (takeWhile (\<lambda>c. c \<noteq> CHR ''/'') s) = length s \<longleftrightarrow> takeWhile (\<lambda>c. c \<noteq> CHR ''/'') s = s"
    by (metis takeWhile_eq_take take_all_iff order_refl)
  ultimately show ?thesis by linarith
qed

lemma component_at_slash:
  "CHR ''/'' \<in> set (drop start val) \<longleftrightarrow> start + length (component_at val start) < length val"
  using takeWhile_slash [of "drop start val"] by (auto simp: component_at_def)

lemma component_at_final: "CHR ''/'' \<notin> set (drop start val) \<Longrightarrow> component_at val start = drop start val"
  unfolding component_at_def takeWhile_eq_all_conv by auto

lemma component_at_split:
  assumes "CHR ''/'' \<in> set (drop start val)"
  shows "drop start val = component_at val start @ CHR ''/'' # drop (start + length (component_at val start) + 1) val"
proof -
  have "hd (dropWhile (\<lambda>c. c \<noteq> CHR ''/'') (drop start val)) = CHR ''/''" "dropWhile (\<lambda>c. c \<noteq> CHR ''/'') (drop start val) \<noteq> []"
    using assms hd_dropWhile [of "\<lambda>c. c \<noteq> CHR ''/''" "drop start val"] by (auto simp: dropWhile_eq_Nil_conv)
  moreover have "dropWhile (\<lambda>c. c \<noteq> CHR ''/'') (drop start val) = drop (start + length (component_at val start)) val"
    unfolding component_at_def dropWhile_eq_drop by (simp add: add.commute)
  ultimately have "drop (start + length (component_at val start)) val =
      CHR ''/'' # drop (start + length (component_at val start) + 1) val"
    by (metis Suc_eq_plus1 drop_Suc drop_tl list.collapse)
  moreover have "drop start val = component_at val start @ dropWhile (\<lambda>c. c \<noteq> CHR ''/'') (drop start val)"
    by (simp add: component_at_def)
  ultimately show ?thesis
    using \<open>dropWhile _ _ = drop _ val\<close> by simp
qed

lemma slash_components_at:
  "slash_components (drop start val) = component_at val start #
     (if start + length (component_at val start) < length val
      then slash_components (drop (start + length (component_at val start) + 1) val) else [])"
  by (subst slash_components_eq) (simp add: component_at_slash add.commute flip: component_at_def)

text \<open>The key so far, ready for one more component.\<close>

definition key_prefix :: "string \<Rightarrow> string" where
  "key_prefix key = (if key = [] then [] else key @ ''/'')"

lemma path_keys_step:
  assumes "start < length val"
  shows "path_keys val limits start depth key = Inr k \<longleftrightarrow>
    depth + 1 \<le> max_relative_path_depth limits \<and> portable_component (component_at val start) \<and>
    (if start + length (component_at val start) < length val
     then path_keys val limits (start + length (component_at val start) + 1) (depth + 1)
        (key_prefix key @ map fold_case (component_at val start)) = Inr k
     else k = key_prefix key @ map fold_case (component_at val start))"
  using assms by (subst path_keys.simps) (auto simp: Let_def component_key_iff key_prefix_def)

lemma path_keys_iff:
  "start < length val \<Longrightarrow> last val \<noteq> CHR ''/'' \<Longrightarrow> path_keys val limits start depth key = Inr k \<longleftrightarrow>
     depth + length (slash_components (drop start val)) \<le> max_relative_path_depth limits \<and>
     list_all portable_component (slash_components (drop start val)) \<and>
     k = key_prefix key @ map fold_case (drop start val)"
proof (induction "length val - start" arbitrary: start depth key rule: less_induct)
  case less
  let ?c = "component_at val start"
  let ?next = "start + length ?c + 1"
  show ?case
  proof (cases "start + length ?c < length val")
    case False
    then have c: "?c = drop start val" using component_at_final component_at_slash by metis
    then show ?thesis
      using False unfolding path_keys_step [OF less.prems(1)] slash_components_at [of start] by auto
  next
    case True
    then have split: "drop start val = ?c @ CHR ''/'' # drop ?next val"
      using component_at_split component_at_slash by blast
    have "?next < length val"
    proof (rule ccontr)
      assume "\<not> ?next < length val"
      then have "drop start val = ?c @ ''/''" using split by simp
      then have "last val = CHR ''/''" using less.prems(1) by (metis last_drop last_snoc)
      with less.prems(2) show False by simp
    qed
    moreover have "key_prefix (key_prefix key @ map fold_case ?c) @ map fold_case (drop ?next val) =
        key_prefix key @ map fold_case (drop start val)" if "portable_component ?c"
      using that by (subst split) (simp add: key_prefix_def portable_component_def fold_case_def byte_of_def)
    ultimately show ?thesis
      using True less.hyps [of ?next] less.prems(2)
      unfolding path_keys_step [OF less.prems(1)] slash_components_at [of start] by auto
  qed
qed

section \<open>What a client relies on\<close>

lemma portable_path_key_iff:
  "portable_path_key val limits = Inr key \<longleftrightarrow> portable_path limits val \<and> key = map fold_case val"
proof (cases "val = [] \<or> hd val = CHR ''/'' \<or> last val = CHR ''/''")
  case True
  have "\<not> list_all portable_component (slash_components val)" if "val \<noteq> []" "last val = CHR ''/''"
    using slash_components_last [OF that] by (auto simp: portable_component_def)
  moreover have "\<not> list_all portable_component (slash_components val)" if "val \<noteq> []" "hd val = CHR ''/''"
    using that by (cases val) (auto simp: portable_component_def)
  ultimately show ?thesis
    using True by (cases "val = []") (auto simp: portable_path_key_def portable_path_def portable_component_def)
next
  case False
  then have "0 < length val" "last val \<noteq> CHR ''/''" by auto
  from path_keys_iff [OF this, of limits 0 "[]" key] show ?thesis
    using False by (auto simp: portable_path_key_def portable_path_def key_prefix_def)
qed


end
