(* ===== verification/TreeManifest_Correct.thy ===== *)
theory TreeManifest_Correct
  imports TreeManifest TreePath_Correct "HOL-Library.Multiset"
begin

text \<open>
  The reader of tree manifests: it returns for every input, what it accepts is a valid manifest,
  and every valid manifest is accepted in its plain form.
\<close>

section \<open>The reader returns\<close>

definition consuming :: "(reader \<Rightarrow> 'a reading) \<Rightarrow> bool" where
  "consuming read \<longleftrightarrow> (\<forall>st. read st \<noteq> Inl OutOfFuel \<and> (\<forall>a st'. read st = Inr (a, st') \<longrightarrow> advances st st'))"

lemma consumingD: "consuming read \<Longrightarrow> read st = Inr (a, st') \<Longrightarrow> advances st st'"
  by (auto simp: consuming_def)

lemma no_fuel_characters:
  "take_char st \<noteq> Inl OutOfFuel" "hex_digit c \<noteq> Inl OutOfFuel" "check_string lim s \<noteq> Inl OutOfFuel"
  "account_string lim s st \<noteq> Inl OutOfFuel"
  by (auto simp: take_char_def hex_digit_def check_string_def account_string_def split: list.split)

lemma no_fuel_unicode_digits: "unicode_digits n r st \<noteq> Inl OutOfFuel"
  by (induction n r st rule: unicode_digits.induct) (auto simp: bind_result_eq_Inl no_fuel_characters)

lemma no_fuel_read_escape: "read_escape lim r st \<noteq> Inl OutOfFuel"
  by (auto simp: read_escape_def append_unicode_def unicode_unit_def bind_result_eq_Inl no_fuel_characters
      no_fuel_unicode_digits split: option.splits if_splits)

lemma string_loop_consuming:
  "string_loop lim r st \<noteq> Inl OutOfFuel \<and> (\<forall>a st'. string_loop lim r st = Inr (a, st') \<longrightarrow> advances st st')"
proof (induction lim r st rule: string_loop.induct)
  case (1 lim result st)
  show ?case
  proof (intro conjI allI impI notI)
    assume "string_loop lim result st = Inl OutOfFuel"
    then show False
      using 1 by (subst (asm) string_loop.simps)
        (auto simp: bind_result_eq_Inl no_fuel_characters no_fuel_read_escape split: if_splits)
  next
    fix a st'
    assume "string_loop lim result st = Inr (a, st')"
    then show "advances st st'"
      using 1 by (subst (asm) string_loop.simps)
        (fastforce simp: advances_def account_string_def split: if_splits dest: take_char_advances read_escape_advances)
  qed
qed

lemma read_string_consuming: "consuming (read_string lim)"
  unfolding consuming_def read_string_def using string_loop_consuming [of lim "[]"]
  by (fastforce simp: bind_result_eq_Inl no_fuel_characters advances_def split: if_splits dest: take_char_advances)

lemma whitespace_length: "length (rd_rest (whitespace st)) \<le> length (rd_rest st)"
  by (simp add: whitespace_def length_dropWhile_le)

lemma member_loop_consuming:
  assumes "consuming read"
  shows "length (rd_rest st) < n \<Longrightarrow> member_loop n read lim ms st \<noteq> Inl OutOfFuel \<and>
    (\<forall>a st'. member_loop n read lim ms st = Inr (a, st') \<longrightarrow> advances st st')"
proof (induction n arbitrary: ms st)
  case (Suc n)
  have key: "length (rd_rest st1) < length (rd_rest st)" if "read_string lim (whitespace st) = Inr (k, st1)" for k st1
    using consumingD [OF read_string_consuming that] whitespace_length [of st] by (simp add: advances_def)
  have char: "length (rd_rest st2) < length (rd_rest st1)" if "take_char (whitespace st1) = Inr (c, st2)" for c st1 st2
    using take_char_advances [OF that] whitespace_length [of st1] by (simp add: advances_def)
  have val: "length (rd_rest st2) < length (rd_rest st1)" if "read st1 = Inr (j, st2)" for j st1 st2
    using consumingD [OF assms that] by (simp add: advances_def)
  note moves = key char val
  show ?case
  proof (intro conjI allI impI notI)
    assume "member_loop (Suc n) read lim ms st = Inl OutOfFuel"
    then show False
      using Suc.prems assms read_string_consuming [of lim]
      by (auto simp: bind_result_eq_Inl no_fuel_characters consuming_def split: if_splits dest!: moves
          intro: Suc.IH [THEN conjunct1, THEN notE, rotated])
  next
    fix a st'
    assume "member_loop (Suc n) read lim ms st = Inr (a, st')"
    then show "advances st st'"
      using Suc.prems unfolding advances_def
      by (fastforce split: if_splits dest!: moves dest: Suc.IH [THEN conjunct2, rule_format, unfolded advances_def, rotated])
  qed
qed simp

lemma whitespace_take: "take_char (whitespace st) = Inr (c, st') \<Longrightarrow> length (rd_rest st') < length (rd_rest st)"
  using take_char_advances [of "whitespace st" c st'] whitespace_length [of st] by (simp add: advances_def)

lemma element_loop_consuming:
  assumes "consuming read"
  shows "length (rd_rest st) < n \<Longrightarrow> element_loop n read js st \<noteq> Inl OutOfFuel \<and>
    (\<forall>a st'. element_loop n read js st = Inr (a, st') \<longrightarrow> advances st st')"
proof (induction n arbitrary: js st)
  case (Suc n)
  consider (err) e where "element_loop (Suc n) read js st = Inl e" "e \<noteq> OutOfFuel"
    | (last_one) a st' where "element_loop (Suc n) read js st = Inr (a, st')" "advances st st'"
    | (more) js' st' where "element_loop (Suc n) read js st = element_loop n read js' st'" "advances st st'"
  proof (cases "read st")
    case (Inl e)
    then show ?thesis using assms err by (auto simp: consuming_def)
  next
    case (Inr p)
    then obtain val st1 where val: "read st = Inr (val, st1)" by (cases p) auto
    then have lt: "length (rd_rest st1) < length (rd_rest st)" using consumingD [OF assms] by (auto simp: advances_def)
    show ?thesis
    proof (cases "take_char (whitespace st1)")
      case (Inl e)
      then show ?thesis using val err no_fuel_characters(1) by auto
    next
      case (Inr q)
      then obtain c st2 where c: "take_char (whitespace st1) = Inr (c, st2)" by (cases q) auto
      then have "advances st st2" using whitespace_take [OF c] lt by (simp add: advances_def)
      then show ?thesis
        using val c err last_one more by (cases "c = CHR '']''"; cases "c = CHR '',''") auto
    qed
  qed
  then show ?case
  proof cases
    case more
    moreover have "length (rd_rest st') < n" using more(2) Suc.prems by (simp add: advances_def)
    ultimately show ?thesis using Suc.IH [of st' js'] by (auto simp: advances_def)
  qed auto
qed simp

lemma read_container_consuming:
  assumes "consuming read"
  shows "consuming (read_object read lim)" "consuming (read_array read)"
proof -
  have start: "length (rd_rest (whitespace st2)) < length (rd_rest st)" if "take_char st = Inr (c, st2)" for c st st2
    using take_char_advances [OF that] whitespace_length [of st2] by (simp add: advances_def)
  have members: "member_loop (Suc (length (rd_rest st))) read lim [] st \<noteq> Inl OutOfFuel"
    "member_loop (Suc (length (rd_rest st))) read lim [] st = Inr (a, st') \<Longrightarrow> length (rd_rest st') < length (rd_rest st)" for st st' a
    using member_loop_consuming [OF assms] unfolding advances_def by blast+
  have elements: "element_loop (Suc (length (rd_rest st))) read [] st \<noteq> Inl OutOfFuel"
    "element_loop (Suc (length (rd_rest st))) read [] st = Inr (a, st') \<Longrightarrow> length (rd_rest st') < length (rd_rest st)" for st st' a
    using element_loop_consuming [OF assms] unfolding advances_def by blast+
  show "consuming (read_object read lim)"
    unfolding consuming_def read_object_def Let_def advances_def
    by (auto simp: bind_result_eq_Inl no_fuel_characters members(1) simp del: member_loop.simps split: if_splits dest!: start members(2))
  show "consuming (read_array read)"
    unfolding consuming_def read_array_def Let_def advances_def
    by (auto simp: bind_result_eq_Inl no_fuel_characters elements(1) simp del: element_loop.simps split: if_splits dest!: start elements(2))
qed

lemma consuming_whitespace:
  "consuming read \<Longrightarrow> read (whitespace (st\<lparr>rd_nodes := n\<rparr>)) = Inr (a, st') \<Longrightarrow> advances st st'"
  using whitespace_length [of "st\<lparr>rd_nodes := n\<rparr>"] consumingD [of read "whitespace (st\<lparr>rd_nodes := n\<rparr>)" a st']
  by (simp add: advances_def)

lemma read_value_consuming: "consuming (read_value levels lim)"
proof (induction levels)
  case (Suc levels)
  note parts = read_string_consuming [of lim] read_container_consuming(1) [OF Suc, of lim] read_container_consuming(2) [OF Suc]
  note no_fuel = parts [unfolded consuming_def, THEN spec, THEN conjunct1]
  show ?case
    unfolding consuming_def
    by (auto simp: Let_def bind_result_eq_Inl no_fuel split: list.splits if_splits dest!: parts [THEN consuming_whitespace])
qed (simp add: consuming_def)

lemma parse_tree_json_returns: "parse_tree_json input limits \<noteq> Inl OutOfFuel"
  using read_value_consuming by (auto simp: parse_tree_json_def new_reader_limits_def bind_result_eq_Inl consuming_def split: if_splits)

lemma no_fuel_path: "portable_path_key val limits \<noteq> Inl OutOfFuel"
proof -
  have point: "path_code_point c n \<noteq> Inl OutOfFuel" for c n
    by (auto simp: path_code_point_def split: option.splits)
  have "fold_component c n acc \<noteq> Inl OutOfFuel" for c n acc
  proof (induction c n acc rule: fold_component.induct)
    case (1 component offset folded)
    then show ?case
      by (subst fold_component.simps) (auto simp: bind_result_eq_Inl point split: if_splits)
  qed
  then have component: "component_key c \<noteq> Inl OutOfFuel" for c
    by (auto simp: component_key_def bind_result_eq_Inl)
  have "path_keys val limits start depth key \<noteq> Inl OutOfFuel" for start depth key
  proof (induction val limits start depth key rule: path_keys.induct)
    case (1 val limits start depth key)
    then show ?case
      by (subst path_keys.simps) (auto simp: bind_result_eq_Inl component Let_def split: if_splits)
  qed
  then show ?thesis by (simp add: portable_path_key_def)
qed

lemma no_fuel_members:
  "as_object j \<noteq> Inl OutOfFuel" "as_array j \<noteq> Inl OutOfFuel" "member_of ms k \<noteq> Inl OutOfFuel"
  "string_member ms k \<noteq> Inl OutOfFuel" "exact_members ms ks \<noteq> Inl OutOfFuel"
  by (auto simp: as_object_def as_array_def member_of_def string_member_def exact_members_def bind_result_eq_Inl
      split: tree_json.splits option.splits)

lemma no_fuel_decimal: "decimal_size s \<noteq> Inl OutOfFuel"
proof -
  have "decimal_digits n s \<noteq> Inl OutOfFuel" for n
    by (induction n s rule: decimal_digits.induct) auto
  then show ?thesis by (simp add: decimal_size_def)
qed

lemma no_fuel_read_entry: "read_entry item \<noteq> Inl OutOfFuel"
  by (auto simp: bind_result_eq_Inl read_entry_def no_fuel_members no_fuel_decimal)

lemma no_fuel_entries: "read_entries name limits es paths n items \<noteq> Inl OutOfFuel"
  by (induction items arbitrary: es paths n) (auto simp: bind_result_eq_Inl no_fuel_read_entry no_fuel_path)

lemma parse_tree_manifest_returns: "parse_tree_manifest bytes name limits \<noteq> Inl OutOfFuel"
  by (auto simp: parse_tree_manifest_def bind_result_eq_Inl parse_tree_json_returns no_fuel_members no_fuel_path
      no_fuel_entries Let_def split: if_splits)

section \<open>What is accepted is valid\<close>

definition path_key :: "manifest_entry \<Rightarrow> string" where
  "path_key e = map fold_case (me_path e)"

definition entry_ok :: "string \<Rightarrow> tree_limits \<Rightarrow> manifest_entry \<Rightarrow> bool" where
  "entry_ok name limits e \<longleftrightarrow> portable_path limits (me_path e) \<and> lower_hex (me_sha256 e) 64 \<and>
     me_size e \<le> max_file_bytes limits \<and> me_size e \<le> uintmax_max"

text \<open>No two paths, the manifest's own among them, are the same up to the case of the letters.\<close>

definition valid_entries :: "string \<Rightarrow> tree_limits \<Rightarrow> manifest_entry list \<Rightarrow> bool" where
  "valid_entries name limits es \<longleftrightarrow> portable_path limits name \<and> list_all (entry_ok name limits) es \<and>
     length es \<le> max_entries limits \<and> sum_list (map me_size es) \<le> max_total_bytes limits \<and>
     distinct (map fold_case name # map path_key es)"

definition valid_manifest :: "string \<Rightarrow> tree_limits \<Rightarrow> manifest_entry list \<Rightarrow> bool" where
  "valid_manifest name limits es \<longleftrightarrow> valid_entries name limits es \<and> sorted (map me_path es)"

lemma decimal_digits_bound: "decimal_digits n s = Inr r \<Longrightarrow> n \<le> uintmax_max \<Longrightarrow> r \<le> uintmax_max"
proof (induction n s rule: decimal_digits.induct)
  case (2 result c cs)
  let ?d = "byte_of c - byte_of CHR ''0''"
  have "result \<le> (uintmax_max - ?d) div 10" using 2(2) by (simp split: if_splits)
  then have "result * 10 \<le> uintmax_max - ?d" by linarith
  moreover have "?d < 256" using byte_of_less [of c] by linarith
  then have "?d \<le> uintmax_max" by (simp add: uintmax_max_def)
  ultimately show ?case using 2 by (auto split: if_splits)
qed simp

lemma decimal_size_bound: "decimal_size s = Inr n \<Longrightarrow> n \<le> uintmax_max"
  by (auto simp: decimal_size_def split: if_splits dest: decimal_digits_bound)

lemma read_entry_bound: "read_entry item = Inr (e, mode) \<Longrightarrow> me_size e \<le> uintmax_max"
  by (auto simp: read_entry_def dest: decimal_size_bound)

definition taken_paths :: "string \<Rightarrow> manifest_entry list \<Rightarrow> (string \<times> string) list \<Rightarrow> bool" where
  "taken_paths name es paths \<longleftrightarrow> map fst paths = rev (map fold_case name # map path_key es)"

lemma taken_paths_free: "taken_paths name es paths \<Longrightarrow> map_of paths key = None \<longleftrightarrow> key \<notin> set (map fold_case name # map path_key es)"
  by (simp only: taken_paths_def map_of_eq_None_iff set_map [symmetric] set_rev)

lemma read_entries_iff:
  assumes "taken_paths name es paths" "total_size = sum_list (map me_size es)" "valid_entries name limits es"
  shows "read_entries name limits es paths total_size items = Inr r \<longleftrightarrow>
    (\<exists>new. map read_entry items = map (\<lambda>e. Inr (e, ''file'')) new \<and> r = es @ new \<and> valid_entries name limits r)"
  using assms
proof (induction items arbitrary: es paths total_size)
  case (Cons item items)
  show ?case
  proof (cases "\<exists>e. read_entry item = Inr (e, ''file'')")
    case False
    then show ?thesis by (auto simp: Cons_eq_map_conv)
  next
    case True
    then obtain e where e: "read_entry item = Inr (e, ''file'')" by blast
    have ok: "valid_entries name limits (es @ [e]) \<longleftrightarrow> length es \<noteq> max_entries limits \<and> lower_hex (me_sha256 e) 64 \<and>
        me_size e \<le> max_file_bytes limits \<and> me_size e \<le> max_total_bytes limits - total_size \<and>
        portable_path limits (me_path e) \<and> map_of paths (path_key e) = None"
      using Cons.prems read_entry_bound [OF e] unfolding taken_paths_free [OF Cons.prems(1)]
      by (auto simp: valid_entries_def entry_ok_def)
    show ?thesis
    proof (cases "valid_entries name limits (es @ [e])")
      case True
      have "me_path e \<noteq> name" using True by (auto simp: valid_entries_def path_key_def)
      then have "read_entries name limits es paths total_size (item # items) =
          read_entries name limits (es @ [e]) ((path_key e, me_path e) # paths) (total_size + me_size e) items"
        using True ok e portable_path_key_iff [of "me_path e" limits "path_key e"] by (simp add: path_key_def)
      moreover have "taken_paths name (es @ [e]) ((path_key e, me_path e) # paths)"
        using Cons.prems(1) by (simp add: taken_paths_def)
      ultimately show ?thesis
        using Cons.IH [of "es @ [e]" "(path_key e, me_path e) # paths" "total_size + me_size e"] Cons.prems(2) True e
        by (auto simp: Cons_eq_map_conv)
    next
      case False
      have "\<not> valid_entries name limits (es @ e # new)" for new
        using False by (auto simp: valid_entries_def)
      moreover have "read_entries name limits es paths total_size (item # items) \<noteq> Inr r"
        using False ok e by (auto simp: portable_path_key_iff path_key_def)
      ultimately show ?thesis using e by (auto simp: Cons_eq_map_conv)
    qed
  qed
qed auto

lemma sort_key_sum: "sum_list (map f (sort_key g xs)) = sum_list (map f xs)" for f :: "'a \<Rightarrow> nat"
  by (metis mset_map mset_sort sum_mset_sum_list)

lemma sort_key_distinct: "distinct (map f (sort_key g xs)) \<longleftrightarrow> distinct (map f xs)"
  by (metis mset_map mset_sort mset_eq_imp_distinct_iff)

lemma valid_entries_sort: "valid_entries name limits (sort_key me_path es) \<longleftrightarrow> valid_entries name limits es"
  by (simp add: valid_entries_def sort_key_sum sort_key_distinct list_all_iff)

lemma adjacent_duplicates_distinct: "distinct (map me_path es) \<Longrightarrow> \<not> adjacent_duplicates es"
proof (induction es)
  case (Cons e es)
  then show ?case by (cases es) (auto simp: adjacent_duplicates_def)
qed (simp add: adjacent_duplicates_def)

lemma valid_entries_paths: "valid_entries name limits es \<Longrightarrow> distinct (map me_path es)"
  unfolding valid_entries_def path_key_def by (auto simp: distinct_map inj_on_def)

text \<open>What the code reads from a document, before it checks it.\<close>

definition document_entries :: "tree_json \<Rightarrow> manifest_entry list \<Rightarrow> bool" where
  "document_entries document es \<longleftrightarrow> (\<exists>root items. as_object document = Inr root \<and>
     exact_members root [''schema'', ''entries''] = Inr () \<and> string_member root ''schema'' = Inr tree_manifest_schema \<and>
     member_of root ''entries'' = Inr (TreeArray items) \<and> map read_entry items = map (\<lambda>e. Inr (e, ''file'')) es)"

lemma parse_tree_manifest_iff:
  "parse_tree_manifest bytes name limits = Inr es \<longleftrightarrow> (\<exists>document new. parse_tree_json bytes limits = Inr document \<and>
     document_entries document new \<and> valid_entries name limits new \<and> es = sort_key me_path new)"
  (is "?l \<longleftrightarrow> ?r")
proof -
  have start: "read_entries name limits [] [(map fold_case name, name)] 0 items = Inr r \<longleftrightarrow>
      (map read_entry items = map (\<lambda>e. Inr (e, ''file'')) r \<and> valid_entries name limits r)" if "portable_path limits name" for items r
    using that by (subst read_entries_iff) (auto simp: taken_paths_def valid_entries_def)
  have name: "valid_entries name limits r \<Longrightarrow> portable_path limits name" for r by (simp add: valid_entries_def)
  have dup: "valid_entries name limits r \<Longrightarrow> \<not> adjacent_duplicates (sort_key me_path r)" for r
    using valid_entries_paths adjacent_duplicates_distinct valid_entries_sort by blast
  have array: "as_array j = Inr items \<longleftrightarrow> j = TreeArray items" for j items
    by (auto simp: as_array_def split: tree_json.split)
  show ?thesis
  proof
    assume ?l
    then obtain document root items key new where d: "parse_tree_json bytes limits = Inr document" "as_object document = Inr root"
      "exact_members root [''schema'', ''entries''] = Inr ()" "string_member root ''schema'' = Inr tree_manifest_schema"
      "portable_path_key name limits = Inr key" "member_of root ''entries'' = Inr (TreeArray items)"
      "read_entries name limits [] [(key, name)] 0 items = Inr new" "es = sort_key me_path new"
      by (auto simp: parse_tree_manifest_def Let_def array split: if_splits)
    then have "portable_path limits name" "key = map fold_case name" by (simp_all add: portable_path_key_iff)
    then have "map read_entry items = map (\<lambda>e. Inr (e, ''file'')) new" "valid_entries name limits new"
      using d(7) start by auto
    with d show ?r unfolding document_entries_def by blast
  next
    assume ?r
    then obtain document root items new where d: "parse_tree_json bytes limits = Inr document" "as_object document = Inr root"
      "exact_members root [''schema'', ''entries''] = Inr ()" "string_member root ''schema'' = Inr tree_manifest_schema"
      "member_of root ''entries'' = Inr (TreeArray items)" "map read_entry items = map (\<lambda>e. Inr (e, ''file'')) new"
      "valid_entries name limits new" "es = sort_key me_path new"
      unfolding document_entries_def by blast
    then have "read_entries name limits [] [(map fold_case name, name)] 0 items = Inr new"
      using start [OF name] by blast
    moreover have "portable_path_key name limits = Inr (map fold_case name)"
      using name [OF d(7)] by (simp add: portable_path_key_iff)
    ultimately show ?l
      using d dup [OF d(7)] by (simp add: parse_tree_manifest_def as_array_def Let_def)
  qed
qed

lemma parse_tree_manifest_valid: "parse_tree_manifest bytes name limits = Inr es \<Longrightarrow> valid_manifest name limits es"
  by (auto simp: parse_tree_manifest_iff valid_manifest_def valid_entries_sort)

section \<open>The plain form of a manifest\<close>

definition quoted_json :: "string \<Rightarrow> string" where
  "quoted_json s = CHR 0x22 # s @ [CHR 0x22]"

fun comma_separated :: "string list \<Rightarrow> string" where
  "comma_separated [] = []"
| "comma_separated [x] = x"
| "comma_separated (x # y # xs) = x @ '','' @ comma_separated (y # xs)"

primrec render_json :: "tree_json \<Rightarrow> string" where
  "render_json (TreeString s) = quoted_json s"
| "render_json (TreeArray js) = ''['' @ comma_separated (map render_json js) @ '']''"
| "render_json (TreeObject ms) = ''{'' @ comma_separated (map (\<lambda>(k, r). quoted_json k @ '':'' @ r) (map (map_prod id render_json) ms)) @ ''}''"

primrec json_count :: "tree_json \<Rightarrow> nat" where
  "json_count (TreeString s) = 1"
| "json_count (TreeArray js) = 1 + sum_list (map json_count js)"
| "json_count (TreeObject ms) = 1 + sum_list (map snd (map (map_prod id json_count) ms))"

primrec json_string_bytes :: "tree_json \<Rightarrow> nat" where
  "json_string_bytes (TreeString s) = length s"
| "json_string_bytes (TreeArray js) = sum_list (map json_string_bytes js)"
| "json_string_bytes (TreeObject ms) = sum_list (map (\<lambda>(k, n). length k + n) (map (map_prod id json_string_bytes) ms))"

definition plain_string :: "reader_limits \<Rightarrow> string \<Rightarrow> bool" where
  "plain_string lim s \<longleftrightarrow> list_all (\<lambda>c. 0x20 \<le> byte_of c \<and> c \<noteq> CHR 0x22 \<and> c \<noteq> CHR 0x5c) s \<and> length s \<le> rl_string lim"

text \<open>The levels of a value are at most the given number, its strings plain, and its keys distinct.\<close>

primrec json_fits :: "reader_limits \<Rightarrow> tree_json \<Rightarrow> nat \<Rightarrow> bool" where
  "json_fits lim (TreeString s) levels \<longleftrightarrow> 0 < levels \<and> plain_string lim s"
| "json_fits lim (TreeArray js) levels \<longleftrightarrow> 0 < levels \<and> list_all (\<lambda>p. p (levels - 1)) (map (json_fits lim) js)"
| "json_fits lim (TreeObject ms) levels \<longleftrightarrow> 0 < levels \<and> distinct (map fst ms) \<and>
     list_all (\<lambda>(k, p). plain_string lim k \<and> p (levels - 1)) (map (map_prod id (json_fits lim)) ms)"

definition moved :: "reader \<Rightarrow> string \<Rightarrow> nat \<Rightarrow> nat \<Rightarrow> reader" where
  "moved st rest n d = \<lparr>rd_rest = rest, rd_nodes = rd_nodes st + n, rd_decoded = rd_decoded st + d\<rparr>"

definition reads :: "reader_limits \<Rightarrow> (reader \<Rightarrow> 'a reading) \<Rightarrow> string \<Rightarrow> nat \<Rightarrow> nat \<Rightarrow> 'a \<Rightarrow> bool" where
  "reads lim read t n d a \<longleftrightarrow> (\<forall>st rest. rd_rest st = t @ rest \<longrightarrow> rd_nodes st + n \<le> rl_nodes lim \<longrightarrow>
     rd_decoded st + d \<le> rl_input lim \<longrightarrow> read st = Inr (a, moved st rest n d))"

lemma readsD:
  "reads lim read t n d a \<Longrightarrow> rd_rest st = t @ rest \<Longrightarrow> rd_nodes st + n \<le> rl_nodes lim \<Longrightarrow>
   rd_decoded st + d \<le> rl_input lim \<Longrightarrow> read st = Inr (a, moved st rest n d)"
  by (simp add: reads_def)

lemma moved_fields [simp]:
  "rd_rest (moved st rest n d) = rest" "rd_nodes (moved st rest n d) = rd_nodes st + n"
  "rd_decoded (moved st rest n d) = rd_decoded st + d"
  "moved (moved st rest n d) rest' n' d' = moved st rest' (n + n') (d + d')"
  by (simp_all add: moved_def)

lemma json_string_plain:
  "plain_string lim (r @ s) \<Longrightarrow> rd_rest st = s @ CHR 0x22 # rest \<Longrightarrow> rd_decoded st + length (r @ s) \<le> rl_input lim \<Longrightarrow>
   string_loop lim r st = Inr (r @ s, moved st rest 0 (length (r @ s)))"
proof (induction s arbitrary: r st)
  case Nil
  then show ?case
    by (subst string_loop.simps) (auto simp: take_char_def account_string_def moved_def)
next
  case (Cons c s)
  then have c: "0x20 \<le> byte_of c" "c \<noteq> CHR 0x22" "c \<noteq> CHR 0x5c" "length (r @ [c]) \<le> rl_string lim"
    by (simp_all add: plain_string_def)
  have "string_loop lim (r @ [c]) (st\<lparr>rd_rest := s @ CHR 0x22 # rest\<rparr>) = Inr ((r @ [c]) @ s, moved (st\<lparr>rd_rest := s @ CHR 0x22 # rest\<rparr>) rest 0 (length ((r @ [c]) @ s)))"
    using Cons.prems by (intro Cons.IH) simp_all
  then show ?case
    using c Cons.prems(2) by (subst string_loop.simps) (simp add: take_char_def check_string_def moved_def)
qed

lemma read_string_plain: "plain_string lim s \<Longrightarrow> reads lim (read_string lim) (quoted_json s) 0 (length s) s"
  unfolding reads_def read_string_def quoted_json_def
  using json_string_plain [of lim "[]" s] by (fastforce simp: take_char_def moved_def)

lemma whitespace_none: "rd_rest st = c # cs \<Longrightarrow> \<not> json_space c \<Longrightarrow> whitespace st = st"
  by (simp add: whitespace_def)

lemma no_json_space [simp]:
  "\<not> json_space CHR '',''" "\<not> json_space CHR '':''" "\<not> json_space CHR ''}''" "\<not> json_space CHR '']''"
  "\<not> json_space CHR ''{''" "\<not> json_space CHR ''[''" "\<not> json_space CHR 0x22"
  by (simp_all add: json_space_def)

lemma take_after:
  "\<not> json_space c \<Longrightarrow> take_char (whitespace (moved st (c # rest) n d)) = Inr (c, moved st rest n d)"
  by (simp add: whitespace_none [of _ c rest] take_char_def moved_def)

lemma comma_separated_Cons: "comma_separated (x # xs) = x @ (if xs = [] then [] else '','' @ comma_separated xs)"
  by (cases xs) simp_all

lemma comma_separated_length: "length xs \<le> length (comma_separated xs) + 1"
  by (induction xs rule: comma_separated.induct) simp_all

lemma element_loop_reads:
  assumes "\<And>j. j \<in> set js \<Longrightarrow> reads lim read (t j) (n j) (d j) j" "js \<noteq> []" "length js \<le> fuel"
    "rd_rest st = comma_separated (map t js) @ CHR '']'' # rest"
    "rd_nodes st + sum_list (map n js) \<le> rl_nodes lim" "rd_decoded st + sum_list (map d js) \<le> rl_input lim"
  shows "element_loop fuel read acc st = Inr (acc @ js, moved st rest (sum_list (map n js)) (sum_list (map d js)))"
  using assms
proof (induction js arbitrary: fuel acc st)
  case (Cons j js)
  then obtain m where fuel: "fuel = Suc m" by (cases fuel) auto
  let ?after = "if js = [] then CHR '']'' # rest else CHR '','' # comma_separated (map t js) @ CHR '']'' # rest"
  have "rd_rest st = t j @ ?after" using Cons.prems(4) by (simp add: comma_separated_Cons)
  from readsD [OF Cons.prems(1) this] have j: "read st = Inr (j, moved st ?after (n j) (d j))"
    using Cons.prems(5,6) by simp
  show ?case
  proof (cases "js = []")
    case True
    then show ?thesis using j by (simp add: fuel take_after)
  next
    case False
    have "element_loop m read (acc @ [j]) (moved st (comma_separated (map t js) @ CHR '']'' # rest) (n j) (d j)) =
      Inr ((acc @ [j]) @ js, moved (moved st (comma_separated (map t js) @ CHR '']'' # rest) (n j) (d j)) rest
        (sum_list (map n js)) (sum_list (map d js)))"
      using Cons.prems False fuel by (intro Cons.IH) simp_all
    then show ?thesis using False j by (simp add: fuel take_after)
  qed
qed simp

lemma member_loop_reads:
  assumes "\<And>k j. (k, j) \<in> set ms \<Longrightarrow> reads lim read (t j) (n j) (d j) j \<and> plain_string lim k" "ms \<noteq> []" "length ms \<le> fuel"
    "distinct (map fst (acc @ ms))"
    "rd_rest st = comma_separated (map (\<lambda>(k, j). quoted_json k @ '':'' @ t j) ms) @ CHR ''}'' # rest"
    "rd_nodes st + sum_list (map (\<lambda>(k, j). n j) ms) \<le> rl_nodes lim"
    "rd_decoded st + sum_list (map (\<lambda>(k, j). length k + d j) ms) \<le> rl_input lim"
  shows "member_loop fuel read lim acc st =
    Inr (acc @ ms, moved st rest (sum_list (map (\<lambda>(k, j). n j) ms)) (sum_list (map (\<lambda>(k, j). length k + d j) ms)))"
  using assms
proof (induction ms arbitrary: fuel acc st)
  case (Cons m ms)
  obtain k j where m: "m = (k, j)" by (cases m)
  obtain f where fuel: "fuel = Suc f" using Cons.prems(3) by (cases fuel) auto
  let ?t = "comma_separated (map (\<lambda>(k, j). quoted_json k @ '':'' @ t j) ms) @ CHR ''}'' # rest"
  let ?after = "if ms = [] then CHR ''}'' # rest else CHR '','' # ?t"
  have rest: "rd_rest st = quoted_json k @ CHR '':'' # t j @ ?after"
    using Cons.prems(5) by (simp add: comma_separated_Cons m)
  then have "whitespace st = st" by (intro whitespace_none [where c = "CHR 0x22"]) (simp_all add: quoted_json_def)
  moreover have "read_string lim st = Inr (k, moved st (CHR '':'' # t j @ ?after) 0 (length k))"
    using Cons.prems rest by (intro readsD [OF read_string_plain]) (auto simp: m)
  moreover have "read (moved st (t j @ ?after) 0 (length k)) = Inr (j, moved (moved st (t j @ ?after) 0 (length k)) ?after (n j) (d j))"
    using Cons.prems by (intro readsD [where lim = lim]) (auto simp: m)
  moreover have "map_of acc k = None" using Cons.prems(4) by (auto simp: m map_of_eq_None_iff)
  ultimately have step: "member_loop fuel read lim acc st =
      bind_result (take_char (whitespace (moved st ?after (n j) (length k + d j)))) (\<lambda>(separator, st4).
        if separator = CHR ''}'' then Inr (acc @ [(k, j)], st4)
        else if separator \<noteq> CHR '','' then invalid ''JSON object delimiter expected''
        else member_loop f read lim (acc @ [(k, j)]) st4)"
    by (simp add: fuel take_after del: moved_fields(1-3))
  show ?case
  proof (cases "ms = []")
    case True
    then show ?thesis unfolding step by (simp add: take_after m)
  next
    case False
    have "member_loop f read lim (acc @ [(k, j)]) (moved st ?t (n j) (length k + d j)) =
      Inr ((acc @ [(k, j)]) @ ms, moved (moved st ?t (n j) (length k + d j)) rest
        (sum_list (map (\<lambda>(k, j). n j) ms)) (sum_list (map (\<lambda>(k, j). length k + d j) ms)))"
      using Cons.prems False by (intro Cons.IH) (auto simp: m fuel)
    then show ?thesis unfolding step using False by (simp add: take_after m)
  qed
qed simp

lemma render_json_head: "\<exists>c cs. render_json j = c # cs \<and> \<not> json_space c \<and> c \<noteq> CHR '']'' \<and> c \<noteq> CHR ''}''"
  by (cases j) (auto simp: quoted_json_def)


lemma read_array_reads:
  assumes "\<And>j. j \<in> set js \<Longrightarrow> reads lim read (render_json j) (n j) (d j) j"
  shows "reads lim (read_array read) (render_json (TreeArray js)) (sum_list (map n js)) (sum_list (map d js)) js"
  unfolding reads_def
proof (intro allI impI)
  fix st :: reader and rest
  assume st: "rd_rest st = render_json (TreeArray js) @ rest" "rd_nodes st + sum_list (map n js) \<le> rl_nodes lim"
    "rd_decoded st + sum_list (map d js) \<le> rl_input lim"
  let ?t = "comma_separated (map render_json js) @ CHR '']'' # rest"
  have c: "take_char st = Inr (CHR ''['', moved st ?t 0 0)" using st(1) by (simp add: take_char_def moved_def)
  show "read_array read st = Inr (js, moved st rest (sum_list (map n js)) (sum_list (map d js)))"
  proof (cases js)
    case Nil
    then show ?thesis using c by (simp add: read_array_def whitespace_none moved_def)
  next
    case (Cons j js')
    obtain h t where h: "render_json j = h # t" "\<not> json_space h" "h \<noteq> CHR '']''" using render_json_head by blast
    obtain t' where t': "?t = h # t'" using h(1) Cons by (simp add: comma_separated_Cons)
    have white: "whitespace (moved st ?t 0 0) = moved st ?t 0 0" "take 1 ?t \<noteq> '']''"
      unfolding t' using h(2,3) by (simp_all add: whitespace_none)
    have "length (map render_json js) \<le> length (comma_separated (map render_json js)) + 1" by (rule comma_separated_length)
    then have "element_loop (length ?t + 1) read [] (moved st ?t 0 0) =
        Inr ([] @ js, moved (moved st ?t 0 0) rest (sum_list (map n js)) (sum_list (map d js)))"
      using Cons st assms by (intro element_loop_reads) simp_all
    then show ?thesis using c white by (simp add: read_array_def del: element_loop.simps)
  qed
qed

lemma read_object_reads:
  assumes "\<And>k j. (k, j) \<in> set ms \<Longrightarrow> reads lim read (render_json j) (n j) (d j) j \<and> plain_string lim k" "distinct (map fst ms)"
  shows "reads lim (read_object read lim) (render_json (TreeObject ms)) (sum_list (map (\<lambda>(k, j). n j) ms))
    (sum_list (map (\<lambda>(k, j). length k + d j) ms)) ms"
  unfolding reads_def
proof (intro allI impI)
  fix st :: reader and rest
  let ?n = "sum_list (map (\<lambda>(k, j). n j) ms)" and ?d = "sum_list (map (\<lambda>(k, j). length k + d j) ms)"
  let ?ts = "map (\<lambda>(k, j). quoted_json k @ '':'' @ render_json j) ms"
  assume st: "rd_rest st = render_json (TreeObject ms) @ rest" "rd_nodes st + ?n \<le> rl_nodes lim" "rd_decoded st + ?d \<le> rl_input lim"
  let ?t = "comma_separated ?ts @ CHR ''}'' # rest"
  have "map (\<lambda>(k, r). quoted_json k @ '':'' @ r) (map (map_prod id render_json) ms) = ?ts" by (simp add: case_prod_beta o_def)
  then have "rd_rest st = CHR ''{'' # ?t" using st(1) by (simp only: render_json.simps) simp
  then have c: "take_char st = Inr (CHR ''{'', moved st ?t 0 0)" by (simp add: take_char_def moved_def)
  show "read_object read lim st = Inr (ms, moved st rest ?n ?d)"
  proof (cases ms)
    case Nil
    then show ?thesis using c by (simp add: read_object_def whitespace_none moved_def)
  next
    case (Cons m ms')
    obtain t' where t': "?t = CHR 0x22 # t'" using Cons by (cases m) (simp add: comma_separated_Cons quoted_json_def)
    have white: "whitespace (moved st ?t 0 0) = moved st ?t 0 0" "take 1 ?t \<noteq> ''}''"
      unfolding t' by (simp_all add: whitespace_none)
    have "length ?ts \<le> length (comma_separated ?ts) + 1" by (rule comma_separated_length)
    then have "member_loop (length ?t + 1) read lim [] (moved st ?t 0 0) = Inr ([] @ ms, moved (moved st ?t 0 0) rest ?n ?d)"
      using Cons st assms by (intro member_loop_reads [where t = render_json]) auto
    then show ?thesis using c white by (simp add: read_object_def del: member_loop.simps)
  qed
qed

lemma read_value_step:
  assumes "reads lim read t n d a" "\<exists>c cs. t = c # cs \<and> \<not> json_space c"
    "\<And>(st :: reader) c cs. rd_rest st = c # cs \<Longrightarrow> hd t = c \<Longrightarrow> rd_nodes st + 1 \<le> rl_nodes lim \<Longrightarrow>
       read_value levels lim st = bind_result (read (st\<lparr>rd_nodes := rd_nodes st + 1\<rparr>)) (\<lambda>(a, st'). Inr (wrap a, st'))"
  shows "reads lim (read_value levels lim) t (1 + n) d (wrap a)"
  unfolding reads_def
proof (intro allI impI)
  fix st :: reader and rest
  assume st: "rd_rest st = t @ rest" "rd_nodes st + (1 + n) \<le> rl_nodes lim" "rd_decoded st + d \<le> rl_input lim"
  obtain c cs where t: "t = c # cs" using assms(2) by blast
  have "read (st\<lparr>rd_nodes := rd_nodes st + 1\<rparr>) = Inr (a, moved (st\<lparr>rd_nodes := rd_nodes st + 1\<rparr>) rest n d)"
    using st by (intro readsD [OF assms(1)]) simp_all
  then show "read_value levels lim st = Inr (wrap a, moved st rest (1 + n) d)"
    using assms(3) [of st c "cs @ rest"] st t by (simp add: moved_def)
qed

lemma read_value_head:
  assumes "rd_rest st = c # cs" "\<not> json_space c" "rd_nodes st + 1 \<le> rl_nodes lim"
  shows "read_value (Suc levels) lim st = (let st' = st\<lparr>rd_nodes := rd_nodes st + 1\<rparr> in
    if c = CHR 0x22 then bind_result (read_string lim st') (\<lambda>(s, st''). Inr (TreeString s, st''))
    else if c = CHR ''{'' then bind_result (read_object (read_value levels lim) lim st') (\<lambda>(ms, st''). Inr (TreeObject ms, st''))
    else if c = CHR ''['' then bind_result (read_array (read_value levels lim) st') (\<lambda>(js, st''). Inr (TreeArray js, st''))
    else invalid ''unsupported JSON value'')"
  using assms whitespace_none [of "st\<lparr>rd_nodes := rd_nodes st + 1\<rparr>" c cs] by (simp add: Let_def)

lemma read_value_render: "json_fits lim j levels \<Longrightarrow> reads lim (read_value levels lim) (render_json j) (json_count j) (json_string_bytes j) j"
proof (induction j arbitrary: levels)
  case (TreeString s)
  then obtain l where levels: "levels = Suc l" by (cases levels) auto
  have "reads lim (read_string lim) (render_json (TreeString s)) 0 (length s) s"
    using TreeString by (simp add: read_string_plain)
  then have "reads lim (read_value levels lim) (render_json (TreeString s)) (1 + 0) (length s) (TreeString s)"
    by (rule read_value_step) (auto simp: levels quoted_json_def read_value_head simp del: read_value.simps)
  then show ?case by simp
next
  case (TreeArray js)
  then obtain l where levels: "levels = Suc l" by (cases levels) auto
  have "reads lim (read_array (read_value l lim)) (render_json (TreeArray js)) (sum_list (map json_count js)) (sum_list (map json_string_bytes js)) js"
    using TreeArray by (intro read_array_reads) (auto simp: levels list_all_iff)
  then have "reads lim (read_value levels lim) (render_json (TreeArray js)) (1 + sum_list (map json_count js)) (sum_list (map json_string_bytes js)) (TreeArray js)"
    by (rule read_value_step) (auto simp: levels read_value_head simp del: read_value.simps)
  then show ?case by simp
next
  case (TreeObject ms)
  then obtain l where levels: "levels = Suc l" by (cases levels) auto
  have "reads lim (read_object (read_value l lim) lim) (render_json (TreeObject ms)) (sum_list (map (\<lambda>(k, j). json_count j) ms))
      (sum_list (map (\<lambda>(k, j). length k + json_string_bytes j) ms)) ms"
    using TreeObject.prems
    by (intro read_object_reads) (auto simp: levels list_all_iff intro!: TreeObject.IH)
  then have "reads lim (read_value levels lim) (render_json (TreeObject ms)) (1 + sum_list (map (\<lambda>(k, j). json_count j) ms))
      (sum_list (map (\<lambda>(k, j). length k + json_string_bytes j) ms)) (TreeObject ms)"
    by (rule read_value_step) (auto simp: levels read_value_head simp del: read_value.simps)
  then show ?case by (simp add: case_prod_unfold o_def)
qed


section \<open>Every valid manifest is accepted\<close>

fun decimal :: "nat \<Rightarrow> string" where
  "decimal n = (if n < 10 then [char_of (48 + n)] else decimal (n div 10) @ [char_of (48 + n mod 10)])"

declare decimal.simps [simp del]

definition entry_json :: "manifest_entry \<Rightarrow> tree_json" where
  "entry_json e = TreeObject [(''path'', TreeString (me_path e)), (''size'', TreeString (decimal (me_size e))),
     (''sha256'', TreeString (me_sha256 e)), (''mode'', TreeString ''file'')]"

definition manifest_json :: "manifest_entry list \<Rightarrow> tree_json" where
  "manifest_json es = TreeObject [(''schema'', TreeString tree_manifest_schema), (''entries'', TreeArray (map entry_json es))]"

definition render_manifest :: "manifest_entry list \<Rightarrow> string" where
  "render_manifest es = render_json (manifest_json es)"

lemma decimal_digits_append: "decimal_digits n (s @ t) = bind_result (decimal_digits n s) (\<lambda>m. decimal_digits m t)"
  by (induction n s rule: decimal_digits.induct) auto

lemma decimal_digits_one:
  assumes "d < 10" "n * 10 + d \<le> uintmax_max"
  shows "decimal_digits n [char_of (48 + d)] = Inr (n * 10 + d)"
proof -
  have "byte_of CHR ''0'' = 48" "byte_of CHR ''9'' = 57" by (simp_all add: byte_of_def)
  moreover have "byte_of (char_of (48 + d)) = 48 + d" using assms(1) by simp
  moreover have "n \<le> (uintmax_max - d) div 10" using assms(2) by linarith
  ultimately show ?thesis using assms(1) by (simp add: in_range_def)
qed

lemma decimal_digits_decimal: "n \<le> uintmax_max \<Longrightarrow> decimal_digits 0 (decimal n) = Inr n"
proof (induction n rule: decimal.induct)
  case (1 n)
  show ?case
  proof (cases "n < 10")
    case True
    then show ?thesis using decimal_digits_one [of n 0] 1(2) by (subst decimal.simps) simp
  next
    case False
    moreover have "n div 10 \<le> uintmax_max" using 1(2) by linarith
    moreover have "n div 10 * 10 + n mod 10 = n" by simp
    ultimately show ?thesis
      using 1 decimal_digits_one [of "n mod 10" "n div 10"] by (subst decimal.simps) (simp add: decimal_digits_append)
  qed
qed

lemma decimal_canonical: "decimal n \<noteq> [] \<and> (hd (decimal n) = CHR ''0'' \<longrightarrow> n = 0)"
proof (induction n rule: decimal.induct)
  case (1 n)
  show ?case
  proof (cases "n < 10")
    case True
    then have "decimal n = [char_of (48 + n)]" "byte_of (char_of (48 + n)) = 48 + n" by (simp_all add: decimal.simps)
    moreover have "byte_of CHR ''0'' = 48" by (simp add: byte_of_def)
    ultimately show ?thesis by auto
  next
    case False
    then show ?thesis using 1 by (subst decimal.simps, subst (2) decimal.simps) auto
  qed
qed

lemma decimal_size_decimal: "n \<le> uintmax_max \<Longrightarrow> decimal_size (decimal n) = Inr n"
proof -
  have "length (decimal 0) = 1" by (subst decimal.simps) simp
  then show "n \<le> uintmax_max \<Longrightarrow> ?thesis"
    using decimal_digits_decimal [of n] decimal_canonical [of n] by (auto simp: decimal_size_def)
qed

lemma decimal_plain: "list_all (\<lambda>c. 0x20 \<le> byte_of c \<and> c \<noteq> CHR 0x22 \<and> c \<noteq> CHR 0x5c) (decimal n)"
proof (induction n rule: decimal.induct)
  case (1 n)
  have digit: "0x20 \<le> byte_of (char_of (48 + d)) \<and> char_of (48 + d) \<noteq> CHR 0x22 \<and> char_of (48 + d) \<noteq> CHR 0x5c" if "d < 10" for d :: nat
  proof -
    have "byte_of (char_of (48 + d)) = 48 + d" using that by simp
    moreover have "byte_of CHR 0x22 = 34" "byte_of CHR 0x5c = 92" by (simp_all add: byte_of_def)
    ultimately have "byte_of (char_of (48 + d)) \<noteq> byte_of CHR 0x22" "byte_of (char_of (48 + d)) \<noteq> byte_of CHR 0x5c"
      using that by linarith+
    then show ?thesis using \<open>byte_of (char_of (48 + d)) = 48 + d\<close> by auto
  qed
  show ?case
    using 1 digit [of n] digit [of "n mod 10"] by (subst decimal.simps) simp
qed

lemma decimal_length: "n < 10 ^ k \<Longrightarrow> 0 < k \<Longrightarrow> length (decimal n) \<le> k"
proof (induction n arbitrary: k rule: decimal.induct)
  case (1 n)
  show ?case
  proof (cases "n < 10")
    case True
    then show ?thesis using 1(3) by (subst decimal.simps) simp
  next
    case False
    then have "k \<noteq> 1" using 1(2) by auto
    then obtain l where l: "k = Suc l" "0 < l" using 1(3) by (cases k) auto
    then have "n div 10 < 10 ^ l" using 1(2) by (simp add: div_less_iff_less_mult mult.commute)
    then show ?thesis using False 1(1) l by (subst decimal.simps) auto
  qed
qed

lemma document_entries_render:
  "list_all (\<lambda>e. me_size e \<le> uintmax_max) es \<Longrightarrow> document_entries (manifest_json es) es"
proof -
  have "read_entry (entry_json e) = Inr (e, ''file'')" if "me_size e \<le> uintmax_max" for e
    using that by (simp add: read_entry_def entry_json_def as_object_def exact_members_def string_member_def member_of_def
        decimal_size_decimal)
  then show "list_all (\<lambda>e. me_size e \<le> uintmax_max) es \<Longrightarrow> ?thesis"
    by (auto simp: document_entries_def manifest_json_def as_object_def exact_members_def string_member_def member_of_def
        list_all_iff)
qed


lemma render_json_bytes: "json_string_bytes j \<le> length (render_json j)"
proof (induction j)
  case (TreeArray js)
  have "sum_list (map json_string_bytes js) \<le> length (comma_separated (map render_json js))"
    using TreeArray
  proof (induction js)
    case (Cons j js)
    then have "json_string_bytes j \<le> length (render_json j)" "sum_list (map json_string_bytes js) \<le> length (comma_separated (map render_json js))"
      by simp_all
    then show ?case by (simp add: comma_separated_Cons)
  qed simp
  then show ?case by simp
next
  case (TreeObject ms)
  have "sum_list (map (\<lambda>m. length (fst m) + json_string_bytes (snd m)) ms) \<le>
      length (comma_separated (map (\<lambda>m. quoted_json (fst m) @ '':'' @ render_json (snd m)) ms))"
    using TreeObject
  proof (induction ms)
    case (Cons m ms)
    then have "json_string_bytes (snd m) \<le> length (render_json (snd m))"
      "sum_list (map (\<lambda>m. length (fst m) + json_string_bytes (snd m)) ms) \<le>
        length (comma_separated (map (\<lambda>m. quoted_json (fst m) @ '':'' @ render_json (snd m)) ms))"
      by (cases m; fastforce)+
    then show ?case by (simp add: comma_separated_Cons quoted_json_def)
  qed simp
  then show ?case by (simp add: case_prod_unfold o_def)
qed (simp add: quoted_json_def)

lemma encode_scalar_high: "0x80 \<le> v \<Longrightarrow> is_scalar v \<Longrightarrow> c \<in> set (encode_scalar v) \<Longrightarrow> 0x80 \<le> byte_of c"
  by (auto simp: encode_scalar_def is_scalar_def less_mult_imp_div_less split: if_splits)

lemma portable_scalar_plain:
  assumes "portable_scalar v" "c \<in> set (encode_scalar v)"
  shows "0x20 \<le> byte_of c \<and> c \<noteq> CHR 0x22"
proof (cases "v < 0x80")
  case True
  then have "byte_of c = v" "0x20 \<le> v" "v \<noteq> byte_of CHR 0x22"
    using assms by (auto simp: encode_scalar_ascii portable_scalar_def)
  then show ?thesis by auto
next
  case False
  moreover have "is_scalar v" using assms(1) by (simp add: portable_scalar_def)
  ultimately have "0x80 \<le> byte_of c" using assms(2) encode_scalar_high [of v c] by simp
  moreover have "byte_of CHR 0x22 = 34" by (simp add: byte_of_def)
  ultimately show ?thesis by auto
qed

lemma portable_text_plain: "portable_text s \<Longrightarrow> c \<in> set s \<Longrightarrow> 0x20 \<le> byte_of c \<and> c \<noteq> CHR 0x22"
proof -
  assume "portable_text s" "c \<in> set s"
  then obtain vs where vs: "list_all portable_scalar vs" "c \<in> set (utf8_encode vs)" unfolding portable_text_def by blast
  then obtain v where v: "v \<in> set vs" "c \<in> set (encode_scalar v)" by (auto simp: utf8_encode_def)
  then have "portable_scalar v" using vs(1) by (simp add: list_all_iff)
  then show ?thesis using v(2) by (rule portable_scalar_plain)
qed

lemma slash_components_set: "set s \<subseteq> insert CHR ''/'' (\<Union> (set ` set (slash_components s)))"
proof (induction s)
  case (Cons c s)
  then show ?case by (cases "slash_components s") auto
qed simp

lemma portable_path_plain:
  assumes "portable_path limits val" "max_relative_path_bytes limits \<le> rl_string lim"
  shows "plain_string lim val"
proof -
  have "0x20 \<le> byte_of c \<and> c \<noteq> CHR 0x22 \<and> c \<noteq> CHR 0x5c" if c: "c \<in> set val" for c
  proof (cases "c = CHR ''/''")
    case True
    then show ?thesis by (simp add: byte_of_def)
  next
    case False
    then obtain t where "t \<in> set (slash_components val)" "c \<in> set t" using slash_components_set [of val] c by auto
    then have "0x20 \<le> byte_of c \<and> c \<noteq> CHR 0x22"
      using assms(1) portable_text_plain by (auto simp: portable_path_def list_all_iff portable_component_def)
    then show ?thesis using assms(1) c by (auto simp: portable_path_def)
  qed
  then show ?thesis using assms by (auto simp: plain_string_def list_all_iff portable_path_def)
qed

lemma lower_hex_plain: "lower_hex s 64 \<Longrightarrow> 64 \<le> rl_string lim \<Longrightarrow> plain_string lim s"
proof -
  have "byte_of CHR ''0'' = 48" "byte_of CHR ''9'' = 57" "byte_of CHR ''a'' = 97" "byte_of CHR ''f'' = 102"
    "byte_of CHR 0x22 = 34" "byte_of CHR 0x5c = 92" by (simp_all add: byte_of_def)
  then show "lower_hex s 64 \<Longrightarrow> 64 \<le> rl_string lim \<Longrightarrow> ?thesis"
    by (fastforce simp: lower_hex_def plain_string_def list_all_iff)
qed


lemma sum_list_const: "(\<And>x. x \<in> set xs \<Longrightarrow> f x = n) \<Longrightarrow> sum_list (map f xs) = length xs * n" for n :: nat
  by (induction xs) auto

lemma manifest_json_count: "json_count (manifest_json es) = 3 + 5 * length es"
  by (simp add: manifest_json_def sum_list_const [where n = 5] entry_json_def o_def)

lemma manifest_json_fits:
  assumes "valid_entries name limits es" "new_reader_limits bytes limits = Inr lim"
  shows "json_fits lim (manifest_json es) 7"
proof -
  have lim: "256 \<le> rl_string lim" "max_relative_path_bytes limits \<le> rl_string lim"
    using assms(2) by (auto simp: new_reader_limits_def split: if_splits)
  have short: "plain_string lim s" if "s \<in> {''schema'', ''entries'', ''path'', ''size'', ''sha256'', ''mode'', ''file'', tree_manifest_schema}" for s
    using that lim(1) by (auto simp: plain_string_def byte_of_def tree_manifest_schema_def)
  have "json_fits lim (entry_json e) 5" if e: "e \<in> set es" for e
  proof -
    have ok: "entry_ok name limits e" using assms(1) e by (auto simp: valid_entries_def list_all_iff)
    have "me_size e < 10 ^ 20" using ok by (simp add: entry_ok_def uintmax_max_def)
    then have "length (decimal (me_size e)) \<le> 20" by (rule decimal_length) simp
    then have "plain_string lim (decimal (me_size e))" using decimal_plain lim(1) by (simp add: plain_string_def)
    moreover have "plain_string lim (me_path e)" "plain_string lim (me_sha256 e)"
      using ok lim portable_path_plain [of limits "me_path e" lim] lower_hex_plain [of "me_sha256 e" lim]
      by (simp_all add: entry_ok_def)
    ultimately show ?thesis using short by (simp add: entry_json_def)
  qed
  then show ?thesis
    using short by (simp add: manifest_json_def list_all_iff)
qed

lemma parse_tree_manifest_render:
  assumes "valid_entries name limits es" "max_entries limits \<le> (uintmax_max - 16) div 6"
  shows "parse_tree_manifest (render_manifest es) name limits = Inr (sort_key me_path es)"
proof -
  obtain lim where lim: "new_reader_limits (render_manifest es) limits = Inr lim"
    using assms(2) by (simp add: new_reader_limits_def)
  then have l: "rl_input lim = length (render_manifest es)" "rl_nodes lim = 16 + max_entries limits * 6"
    by (auto simp: new_reader_limits_def split: if_splits)
  let ?st = "\<lparr>rd_rest = render_manifest es, rd_nodes = 0, rd_decoded = 0\<rparr>"
  have "read_value 7 lim ?st = Inr (manifest_json es, moved ?st [] (json_count (manifest_json es)) (json_string_bytes (manifest_json es)))"
  proof (rule readsD [OF read_value_render [OF manifest_json_fits [OF assms(1) lim]]])
    show "rd_nodes ?st + json_count (manifest_json es) \<le> rl_nodes lim"
      using assms(1) by (simp add: manifest_json_count l valid_entries_def)
    show "rd_decoded ?st + json_string_bytes (manifest_json es) \<le> rl_input lim"
      using render_json_bytes by (simp add: l render_manifest_def)
  qed (simp add: render_manifest_def)
  then have "parse_tree_json (render_manifest es) limits = Inr (manifest_json es)"
    by (simp add: parse_tree_json_def lim whitespace_def moved_def del: read_value.simps)
  moreover have "document_entries (manifest_json es) es"
    using assms(1) by (intro document_entries_render) (auto simp: valid_entries_def list_all_iff entry_ok_def)
  ultimately show ?thesis using assms(1) by (auto simp: parse_tree_manifest_iff)
qed


section \<open>What a client relies on\<close>

text \<open>C22 (tree_manifest_decides): the manifests that some document gives are exactly the valid ones: portable paths
  in ascending order, no two of which (the path of the manifest among them) agree up to the case of their
  letters, digests of 64 lower-case digits, and sizes and a number of entries within the limits; and the
  parser returns, with a manifest or an error of the code, for every document.\<close>

theorem tree_manifest_decides:
  "((\<exists>bytes. parse_tree_manifest bytes name limits = Inr es) \<longleftrightarrow>
    valid_manifest name limits es \<and> max_entries limits \<le> (uintmax_max - 16) div 6) \<and>
   parse_tree_manifest bytes name limits \<noteq> Inl OutOfFuel"
proof -
  have "max_entries limits \<le> (uintmax_max - 16) div 6" if "parse_tree_manifest bs name limits = Inr es" for bs
    using that by (auto simp: parse_tree_manifest_def parse_tree_json_def new_reader_limits_def split: if_splits)
  moreover have "parse_tree_manifest (render_manifest es) name limits = Inr es"
    if "valid_manifest name limits es" "max_entries limits \<le> (uintmax_max - 16) div 6"
    using that parse_tree_manifest_render [of name limits es] by (simp add: valid_manifest_def sort_key_id_if_sorted)
  ultimately show ?thesis
    using parse_tree_manifest_valid parse_tree_manifest_returns by blast
qed

text \<open>C23 (tree_manifest_round_trip): the plain JSON text of a valid list of entries, in any order, is parsed back to
  these entries in the order of their paths.\<close>

theorem tree_manifest_round_trip:
  assumes "valid_entries name limits es" "max_entries limits \<le> (uintmax_max - 16) div 6"
  shows "\<exists>sorted_es. parse_tree_manifest (render_manifest es) name limits = Inr sorted_es \<and>
    mset sorted_es = mset es \<and> sorted (map me_path sorted_es)"
  using parse_tree_manifest_render [OF assms] by simp

definition sample_entries :: "manifest_entry list" where
  "sample_entries = [\<lparr>me_path = ''scripts/Main.baas'', me_size = 1024, me_sha256 = replicate 64 CHR ''a''\<rparr>,
     \<lparr>me_path = ''images/start.png'', me_size = 0, me_sha256 = replicate 64 CHR ''0''\<rparr>]"

lemma sample_valid: "valid_entries ''manifest.json'' default_tree_limits sample_entries"
proof -
  have paths: "portable_path default_tree_limits ''manifest.json''" "portable_path default_tree_limits ''scripts/Main.baas''"
    "portable_path default_tree_limits ''images/start.png''"
  proof -
    have "portable_path_key ''manifest.json'' default_tree_limits = Inr ''manifest.json''"
      "portable_path_key ''scripts/Main.baas'' default_tree_limits = Inr ''scripts/main.baas''"
      "portable_path_key ''images/start.png'' default_tree_limits = Inr ''images/start.png''" by code_simp+
    then show "portable_path default_tree_limits ''manifest.json''" "portable_path default_tree_limits ''scripts/Main.baas''"
      "portable_path default_tree_limits ''images/start.png''" unfolding portable_path_key_iff by blast+
  qed
  have keys: "distinct (map fold_case ''manifest.json'' # map path_key sample_entries)"
    "list_all (\<lambda>e. lower_hex (me_sha256 e) 64) sample_entries" by code_simp+
  show ?thesis
    using paths keys by (simp add: valid_entries_def sample_entries_def entry_ok_def default_tree_limits_def uintmax_max_def)
qed

theorem tree_manifest_round_trip_witness:
  "\<exists>sorted_es. parse_tree_manifest (render_manifest sample_entries) ''manifest.json'' default_tree_limits = Inr sorted_es \<and>
    mset sorted_es = mset sample_entries \<and> sorted (map me_path sorted_es)"
  using tree_manifest_round_trip [OF sample_valid] by (simp add: default_tree_limits_def uintmax_max_def)

end
