(* ===== verification/Spec2Isabelle.thy ===== *)
theory Spec2Isabelle
  imports SyntaxCheck ModuleGraph_Correct BoundedExecutor_Correct PipeFraming_Correct SchedulerPolicy_Json TriggerSession_Correct
    Sha256_Correct TreeManifest_Correct
begin

text \<open>
  A verification library for the core logic of the BAAS automation framework: the front end of
  its script language and the components around it that are pure computations or state machines.

  \<^bold>\<open>The program.\<close>  The framework runs automation scripts.  A script is checked by the front end
  under src/src/script (lexer, parser, semantic analyzer, composed by \<open>check_source\<close>); its imports
  name modules (ModuleSpecifier), which form a graph that is validated and ordered (ModuleGraph)
  before the modules are initialized; host calls run on a pool of threads (BoundedExecutor).
  The service around it (src/src/service) talks to its clients in frames over a pipe
  (PipeFraming), admits commands and sends their responses through a session (TriggerSession), and
  decides which task is due (src/src/scheduler/SchedulerPolicy.cpp).  The repository of the
  runtime (src/src/runtime/repository) describes a tree of files by a manifest, whose paths must
  be portable and whose hash is SHA-256 (RuntimeRepositoryTreeFormat).

  \<^bold>\<open>Theories.\<close>  A component has a theory with its data, state and operations, in the order of the
  source, and a theory \<open>_Correct\<close> (some also \<open>_Invariant\<close>) with its properties.

  \<^item> Prelude: bytes, results, lists, and the locale \<open>invariant_system\<close> of transition systems with
    an invariant, interpreted on the step relations of the executor and of the session.
  \<^item> Utf8: the reference encoding, and \<open>decode_utf8\<close> of Lexer.cpp as an instance of the locale
    \<open>scalar_decoder\<close>.
  \<^item> Tokens (SourceLocation.h, Diagnostic.h, Token.h, Token.cpp) with the locale \<open>token_stream\<close>, which
    the lexer provides and the parser consumes; Lexer (class \<open>Scanner\<close> as the record \<open>scanner\<close>);
    Ast (Ast.h); Parser (class \<open>Engine\<close> as the record \<open>engine\<close>); Semantic (the visitors of
    SemanticAnalyzer.cpp on the record \<open>analysis\<close>); Scoping (the scoping rules by recursion on the
    tree, which Semantic refines); SyntaxCheck (SyntaxCheck.cpp).
  \<^item> ModuleSpecifier and ModuleGraph (the files of the same names in src/src/script/runtime).
  \<^item> BoundedExecutor: every section under the mutex, every atomic exchange of a phase and every
    assignment to a promise is an action of \<open>perform\<close>; \<open>exec_step\<close> interleaves workers and clients.
  \<^item> PipeFraming: \<open>encode_frame\<close>, and the decoder with its buffer.
  \<^item> SchedulerPolicy: reading and validating event documents, the inventory, the plan of due events,
    the tick after a completion, and the JSON form (SchedulerPolicy_Json).
  \<^item> TriggerSession: admission, responses, cancellation, claims, leases, the signal of output; the
    steps of TriggerSession_Invariant keep a log of what was promised and done.
  \<^item> Sha256, TreePath, TreeManifest: the class \<open>Sha256\<close>, \<open>portable_path_key\<close>, and the JSON reader with
    \<open>parse_tree_manifest\<close>.

  \<^bold>\<open>Correspondence.\<close>  A class is a record with a field for every member that the operations read;
  a method is a function from the record to a result and the record after it; an exception is the
  \<open>Inl\<close> of a result, so that what the object keeps when it throws is part of the model.  A
  \<open>std::string\<close> is a list of bytes.  Where the width of an integer matters it is a word (the frame
  header, lease ids, generations, the hasher), elsewhere a natural number within a limit the
  code enforces.  A \<open>std::map\<close> is its association list in ascending order of the keys.

  \<^bold>\<open>Lemma groups.\<close>  For the front end: tokens are ordered slices of the source and lexing returns
  for every source; every production makes progress and keeps the context (locale \<open>subparsers\<close>,
  interpreted on \<open>knot\<close>), hence parsing returns, and its tree obeys the grammar's context rules;
  the analyzer agrees with the rules of Scoping.  For the graph: the two traversals find the
  strongly connected components, the reported cycle is one, the order respects the imports and
  takes the least module first.  For the executor and the session: the invariants in every
  interleaving, from which nothing is lost, run twice or answered twice.  For the codecs: round
  trips and independence of how the input is cut.  For the scheduler: validity is preserved,
  and ticks and plans are the least, or stable, ones.  For the tree format: the hasher agrees with
  the standard, the keys with a definition of portable names, and the reader with the set of
  valid manifests.

  \<^bold>\<open>Fuel and bounds.\<close>  Recursion that is not structural has a measure, except for: the
  parser, where \<open>run\<close> opens the mutual recursion to a depth of one per token and loops to one round
  per token (Parser_Correct: never exhausted, because every production that is entered again has
  consumed a token); the loops of the graph, bounded by the work budget of the code itself; and the
  reader of manifests, whose depth is bounded by the limit the code checks (its fuel is never
  exhausted: \<open>consuming\<close>).  Running out of fuel is a value of its own, and the theorems exclude it.

  \<^bold>\<open>Parameters.\<close>  Code outside the repository is an argument: the NFC predicate of the embedding,
  the JSON library of the scheduler (what it reports, parses and writes), the expiry of a weak
  pointer, and what the callable of a task does.

  \<^bold>\<open>What the models showed.\<close>  An event document that is valid may have more JSON nodes than the
  reader accepts, so a written document may be refused (SchedulerPolicy_Json); and the lexer keeps only
  the first byte of an unknown escape of a multi-byte letter, against the language grammar
  (Lexer_Correct).

  \<^bold>\<open>Not modelled.\<close>  Of the modelled components: \<open>resolution_for\<close> of the analyzer (a lookup by node
  address), \<open>path_from_utf8\<close> (a conversion of the file system library), failures to start a thread,
  failures of the allocator, condition variables (they carry no data) and read-only accessors.  Of
  the rest: the evaluator with its values and hosts, which needs the model of a heap and of every
  host; service transport, authentication and adapters, which are input, output and cryptography
  of third-party libraries around small amounts of state; the updater and the publisher of the
  repository, which drive libgit2 and the file system; devices, detection and recognition, which
  are image processing and inference by native libraries; and vendored code.
\<close>

end
